(* ===== verification/Prelude.thy ===== *)
theory Prelude
  imports Main "HOL-Library.Word"
begin

text \<open>
  Shared vocabulary of the development: machine integers and bytes, the error
  sum with its bind, blocks of memory and \<open>memcpy\<close>, the environment that answers
  calls leaving the program (system calls, callbacks), and decimal numerals.
  The collection \<open>block_simps\<close> holds the rewrite rules for copied blocks,
  \<open>env_simps\<close> those for answered calls.
\<close>

unbundle bit_operations_syntax

named_theorems block_simps
named_theorems env_simps

section \<open>Machine types\<close>

type_synonym byte = "8 word"
type_synonym u16 = "16 word"
type_synonym u32 = "32 word"
type_synonym u64 = "64 word"

lemma u64_less: "unat (w :: u64) < 2 ^ 64"
  using unsigned_less [of w, where ?'a = nat] by simp

text \<open>The conversion of a \<open>size_t\<close> to \<open>int\<close>, as in \<open>return len\<close>: the low 32 bits, signed.\<close>

definition int_of_size :: "u64 \<Rightarrow> int" where
  "int_of_size n = sint (ucast n :: 32 word)"

lemma int_of_size_small:
  assumes "unat n < 2 ^ 31"
  shows "int_of_size n = int (unat n)"
proof -
  have u: "uint n < 2 ^ 31"
    by (metis assms of_nat_less_iff of_nat_numeral of_nat_power uint_nat)
  then have "uint n < 2 ^ 32" by simp
  then have eq: "uint (ucast n :: 32 word) = uint n"
    by (simp add: unsigned_ucast_eq take_bit_word_def take_bit_int_eq_self_iff uint_word_of_int_eq)
  have "sint (ucast n :: 32 word) = signed_take_bit 31 (uint (ucast n :: 32 word))"
    by (simp add: sint_uint)
  also have "\<dots> = signed_take_bit 31 (uint n)"
    by (simp only: eq)
  also have "\<dots> = uint n"
  proof (rule signed_take_bit_int_eq_self)
    show "- (2 ^ 31) \<le> uint n" by (rule order_trans [of _ 0]) simp_all
    show "uint n < 2 ^ 31" by (rule u)
  qed
  finally show ?thesis
    by (simp add: int_of_size_def)
qed

section \<open>Errors as values\<close>

definition bind_err :: "'e + 'a \<Rightarrow> ('a \<Rightarrow> 'e + 'b) \<Rightarrow> 'e + 'b" where
  "bind_err m f = (case m of Inl e \<Rightarrow> Inl e | Inr x \<Rightarrow> f x)"

lemma bind_err_simps [simp]:
  "bind_err (Inl e) f = Inl e"
  "bind_err (Inr x) f = f x"
  by (simp_all add: bind_err_def)

lemma bind_err_Inr_iff:
  "bind_err m f = Inr y \<longleftrightarrow> (\<exists>x. m = Inr x \<and> f x = Inr y)"
  by (cases m) auto

section \<open>Blocks of memory\<close>

datatype fault = NullPointer | OutOfBounds | UseAfterFree

text \<open>\<open>blit off xs b\<close> is the block \<open>b\<close> with \<open>xs\<close> copied in from offset \<open>off\<close> on.\<close>

definition blit :: "nat \<Rightarrow> 'a list \<Rightarrow> 'a list \<Rightarrow> 'a list" where
  "blit off xs b = take off b @ xs @ drop (off + length xs) b"

lemma length_blit [block_simps]:
  "off + length xs \<le> length b \<Longrightarrow> length (blit off xs b) = length b"
  by (simp add: blit_def)

lemma nth_blit [block_simps]:
  "off + length xs \<le> length b \<Longrightarrow> j < length b \<Longrightarrow>
   blit off xs b ! j = (if off \<le> j \<and> j < off + length xs then xs ! (j - off) else b ! j)"
  by (auto simp: blit_def nth_append min_def)

lemma blit_Nil [simp]: "blit off [] b = b"
  by (simp add: blit_def)

text \<open>
  \<open>memcpy\<close> between blocks; \<open>None\<close> is the null pointer. A copy of no bytes touches
  nothing, whatever the pointers.
\<close>

definition memcpy :: "byte list option \<Rightarrow> nat \<Rightarrow> byte list option \<Rightarrow> nat \<Rightarrow> nat \<Rightarrow> fault + byte list option" where
  "memcpy dst doff src soff n =
     (if n = 0 then Inr dst
      else case (dst, src) of
        (Some d, Some s) \<Rightarrow>
          (if doff + n \<le> length d \<and> soff + n \<le> length s
           then Inr (Some (blit doff (take n (drop soff s)) d))
           else Inl OutOfBounds)
      | _ \<Rightarrow> Inl NullPointer)"

lemma memcpy_0 [simp]: "memcpy dst doff src soff 0 = Inr dst"
  by (simp add: memcpy_def)

lemma memcpy_ok [block_simps]:
  "doff + n \<le> length d \<Longrightarrow> soff + n \<le> length s \<Longrightarrow>
   memcpy (Some d) doff (Some s) soff n = Inr (Some (blit doff (take n (drop soff s)) d))"
  by (simp add: memcpy_def)

lemma memcpy_null_dst: "0 < n \<Longrightarrow> memcpy None doff src soff n = Inl NullPointer"
  by (simp add: memcpy_def)

section \<open>Calls that leave the program\<close>

text \<open>
  System calls, virtual functions and library callbacks are answered by an environment,
  a function of the history of answered calls and of the call itself, so it may keep any
  state of its own. The history is part of the state the model passes along.
\<close>

type_synonym ('c, 'r) history = "('c \<times> 'r) list"
type_synonym ('c, 'r) env = "('c, 'r) history \<Rightarrow> 'c \<Rightarrow> 'r"

definition invoke :: "('c, 'r) env \<Rightarrow> ('c, 'r) history \<Rightarrow> 'c \<Rightarrow> 'r \<times> ('c, 'r) history" where
  "invoke env h c = (env h c, h @ [(c, env h c)])"

lemma invoke_simps [env_simps]:
  "fst (invoke env h c) = env h c"
  "snd (invoke env h c) = h @ [(c, env h c)]"
  by (simp_all add: invoke_def)

section \<open>Accounting for resources\<close>

text \<open>
  What a component promises about the descriptors or objects it holds: an operation that is
  called within bounds (\<open>fits\<close>) keeps the condition \<open>ok\<close> and the level of the account, which is
  what was acquired, less what was released, less what the state still holds.
\<close>

locale accounted =
  fixes step :: "'s \<Rightarrow> 'op \<Rightarrow> 's"
    and fits :: "'op \<Rightarrow> bool"
    and ok :: "'s \<Rightarrow> bool"
    and level :: "'s \<Rightarrow> int"
  assumes ok_step: "ok s \<Longrightarrow> fits x \<Longrightarrow> ok (step s x)"
    and level_step: "ok s \<Longrightarrow> fits x \<Longrightarrow> level (step s x) = level s"
begin

lemma run: "ok s \<Longrightarrow> list_all fits xs \<Longrightarrow> ok (foldl step s xs) \<and> level (foldl step s xs) = level s"
  by (induction xs arbitrary: s) (simp_all add: ok_step level_step)

lemma run_ok: "ok s \<Longrightarrow> list_all fits xs \<Longrightarrow> ok (foldl step s xs)"
  by (simp add: run)

lemma run_level: "ok s \<Longrightarrow> list_all fits xs \<Longrightarrow> level (foldl step s xs) = level s"
  by (simp add: run)

end

section \<open>Interleaved runs\<close>

text \<open>An inductive invariant of a step relation holds in every state a run can reach.\<close>

locale state_machine =
  fixes init :: "'s \<Rightarrow> bool"
    and step :: "'s \<Rightarrow> 's \<Rightarrow> bool"
    and inv :: "'s \<Rightarrow> bool"
  assumes init_inv: "init s \<Longrightarrow> inv s"
    and step_inv: "inv s \<Longrightarrow> step s s' \<Longrightarrow> inv s'"
begin

lemma reachable_inv: "step\<^sup>*\<^sup>* s s' \<Longrightarrow> init s \<Longrightarrow> inv s'"
  by (induction rule: rtranclp_induct) (auto intro: init_inv step_inv)

end

text \<open>
  A container of nodes, each with a number: the iterator to the first node, the one behind a node (\<open>None\<close> is
  the end), and \<open>erase\<close>.
\<close>

definition first_node :: "(nat \<times> 'a) list \<Rightarrow> nat option" where
  "first_node ns = (case ns of [] \<Rightarrow> None | n # _ \<Rightarrow> Some (fst n))"

fun node_behind :: "nat \<Rightarrow> (nat \<times> 'a) list \<Rightarrow> nat option" where
  "node_behind k [] = None"
| "node_behind k (n # ns) = (if fst n = k then first_node ns else node_behind k ns)"

definition erase_node :: "nat \<Rightarrow> (nat \<times> 'a) list \<Rightarrow> (nat \<times> 'a) list" where
  "erase_node k ns = filter (\<lambda>n. fst n \<noteq> k) ns"

lemma first_node_simps [simp]: "first_node [] = None" "first_node (n # ns) = Some (fst n)"
  by (simp_all add: first_node_def)

lemma node_behind_split: "k \<notin> fst ` set bs \<Longrightarrow> node_behind k (bs @ (k, a) # rest) = first_node rest"
  by (induction bs) auto

lemma map_of_split: "k \<notin> fst ` set bs \<Longrightarrow> map_of (bs @ (k, a) # rest) k = Some a"
  by (induction bs) auto

lemma erase_node_other: "k \<notin> fst ` set ns \<Longrightarrow> erase_node k ns = ns"
  by (induction ns) (auto simp: erase_node_def)

lemma first_node_in: "first_node ns = Some k \<Longrightarrow> k \<in> fst ` set ns"
  by (cases ns) auto

lemma node_behind_in:
  "distinct (map fst ns) \<Longrightarrow> node_behind k ns = Some j \<Longrightarrow> j \<in> fst ` set ns \<and> j \<noteq> k"
proof (induction ns)
  case (Cons n ns)
  show ?case
  proof (cases "fst n = k")
    case True
    then have "j \<in> fst ` set ns" "fst n \<notin> fst ` set ns" using Cons.prems first_node_in [of ns j] by simp_all
    then show ?thesis using True by (metis image_insert insertI2 list.simps(15))
  next
    case False
    then show ?thesis using Cons by auto
  qed
qed simp

lemma erase_node_map_of: "j \<noteq> k \<Longrightarrow> map_of (erase_node k ns) j = map_of ns j"
  by (induction ns) (auto simp: erase_node_def)

lemma erase_node_set: "fst ` set (erase_node k ns) = fst ` set ns - {k}"
  by (auto simp: erase_node_def)

text \<open>A mutex guards a section of the program when the thread that holds it is the one inside.\<close>

definition guarded :: "('p \<Rightarrow> bool) \<Rightarrow> (nat \<Rightarrow> 'p) \<Rightarrow> nat option \<Rightarrow> bool" where
  "guarded inside pcs mutex \<longleftrightarrow> (\<forall>t. inside (pcs t) \<longleftrightarrow> mutex = Some t)"

lemma guarded_idle: "(\<And>t. \<not> inside (pcs t)) \<Longrightarrow> guarded inside pcs None"
  by (simp add: guarded_def)

lemma guarded_move: "guarded inside pcs mutex \<Longrightarrow> inside p = inside (pcs t) \<Longrightarrow> guarded inside (pcs(t := p)) mutex"
  by (simp add: guarded_def)

lemma guarded_enter: "guarded inside pcs None \<Longrightarrow> inside p \<Longrightarrow> guarded inside (pcs(t := p)) (Some t)"
  by (auto simp: guarded_def)

lemma guarded_leave: "guarded inside pcs mutex \<Longrightarrow> inside (pcs t) \<Longrightarrow> \<not> inside p \<Longrightarrow> guarded inside (pcs(t := p)) None"
  by (auto simp: guarded_def)

lemma guarded_others: "guarded inside pcs mutex \<Longrightarrow> inside (pcs t) \<Longrightarrow> u \<noteq> t \<Longrightarrow> \<not> inside (pcs u)"
  by (auto simp: guarded_def)

lemma guarded_free: "guarded inside pcs None \<Longrightarrow> \<not> inside (pcs t)"
  by (simp add: guarded_def)

section \<open>C strings and decimal numerals\<close>

text \<open>What a C string function sees of a \<open>std::string\<close>: the characters before the first NUL.\<close>

definition c_str :: "string \<Rightarrow> string" where
  "c_str s = takeWhile (\<lambda>c. c \<noteq> CHR 0x00) s"

definition is_digit :: "char \<Rightarrow> bool" where
  "is_digit c \<longleftrightarrow> 48 \<le> (of_char c :: nat) \<and> (of_char c :: nat) \<le> 57"

definition digit_val :: "char \<Rightarrow> nat" where
  "digit_val c = of_char c - 48"

definition digit_char :: "nat \<Rightarrow> char" where
  "digit_char d = char_of (d + 48)"

lemma is_digit_digit_char: "d < 10 \<Longrightarrow> is_digit (digit_char d)"
  by (simp add: is_digit_def digit_char_def)

lemma digit_val_digit_char: "d < 10 \<Longrightarrow> digit_val (digit_char d) = d"
  by (simp add: digit_val_def digit_char_def)

lemma digit_char_not_NUL: "is_digit c \<Longrightarrow> c \<noteq> CHR 0x00"
  by (auto simp: is_digit_def)

text \<open>The value of a string of digits, most significant first.\<close>

definition dec_value :: "string \<Rightarrow> nat" where
  "dec_value s = foldl (\<lambda>v c. v * 10 + digit_val c) 0 s"

lemma dec_value_snoc: "dec_value (s @ [c]) = dec_value s * 10 + digit_val c"
  by (simp add: dec_value_def)

text \<open>The decimal numeral of a number, without leading zeros.\<close>

fun dec_string :: "nat \<Rightarrow> string" where
  "dec_string n = (if n < 10 then [digit_char n] else dec_string (n div 10) @ [digit_char (n mod 10)])"

declare dec_string.simps [simp del]

lemma dec_string_digits: "list_all is_digit (dec_string n)"
proof (induction n rule: dec_string.induct)
  case (1 n)
  show ?case
    by (subst dec_string.simps) (use 1 in \<open>auto simp: is_digit_digit_char\<close>)
qed

lemma dec_string_nonempty: "dec_string n \<noteq> []"
  by (subst dec_string.simps) simp

lemma dec_value_dec_string: "dec_value (dec_string n) = n"
proof (induction n rule: dec_string.induct)
  case (1 n)
  show ?case
  proof (cases "n < 10")
    case True
    then show ?thesis
      by (subst dec_string.simps) (simp add: dec_value_def digit_val_digit_char)
  next
    case False
    with 1 have "dec_value (dec_string (n div 10)) = n div 10" by simp
    with False show ?thesis
      by (subst dec_string.simps) (simp add: dec_value_snoc digit_val_digit_char)
  qed
qed

lemma c_str_digits: "list_all is_digit s \<Longrightarrow> c_str s = s"
  by (auto simp: c_str_def list_all_iff takeWhile_eq_all_conv dest: digit_char_not_NUL)

text \<open>
  The C library's \<open>atoi\<close>: leading white space and a sign, then digits, read as a \<open>long\<close>
  that saturates, of which the low 32 bits are kept.
\<close>

definition is_space :: "char \<Rightarrow> bool" where
  "is_space c \<longleftrightarrow> (of_char c :: nat) = 32 \<or> (9 \<le> (of_char c :: nat) \<and> (of_char c :: nat) \<le> 13)"

definition atoi :: "string \<Rightarrow> int" where
  "atoi s =
     (let s1 = dropWhile is_space (c_str s);
          neg = (s1 \<noteq> [] \<and> hd s1 = CHR ''-'');
          s2 = (if s1 \<noteq> [] \<and> (hd s1 = CHR ''-'' \<or> hd s1 = CHR ''+'') then tl s1 else s1);
          v = int (dec_value (takeWhile is_digit s2));
          l = (if neg then max (- (2 ^ 63)) (- v) else min (2 ^ 63 - 1) v)
      in sint (word_of_int l :: 32 word))"

lemma digit_not_special:
  "is_digit c \<Longrightarrow> \<not> is_space c \<and> c \<noteq> CHR ''-'' \<and> c \<noteq> CHR ''+''"
  by (auto simp: is_digit_def is_space_def)

lemma sint_word32_small: "0 \<le> v \<Longrightarrow> v < 2 ^ 31 \<Longrightarrow> sint (word_of_int v :: 32 word) = v"
  by (simp add: sint_uint uint_word_of_int_eq take_bit_int_eq_self signed_take_bit_int_eq_self)

lemma atoi_digits:
  assumes "list_all is_digit s" and "dec_value s < 2 ^ 31"
  shows "atoi s = int (dec_value s)"
proof -
  have c: "c_str s = s" using assms(1) by (rule c_str_digits)
  have d: "dropWhile is_space s = s" and h: "s \<noteq> [] \<Longrightarrow> hd s \<noteq> CHR ''-'' \<and> hd s \<noteq> CHR ''+''"
    using assms(1) by (cases s; simp add: digit_not_special)+
  have t: "takeWhile is_digit s = s" using assms(1) by (simp add: takeWhile_eq_all_conv list_all_iff)
  have "min (2 ^ 63 - 1) (int (dec_value s)) = int (dec_value s)" using assms(2) by simp
  moreover have "int (dec_value s) < 2 ^ 31" using assms(2) by simp
  ultimately show ?thesis
    using h sint_word32_small [of "int (dec_value s)"] by (auto simp: atoi_def c d t Let_def)
qed

lemma atoi_dec_string: "n < 2 ^ 31 \<Longrightarrow> atoi (dec_string n) = int n"
  by (simp add: atoi_digits dec_string_digits dec_value_dec_string)

text \<open>The signed numeral \<open>%d\<close> prints; \<open>atoi\<close> reads it back.\<close>

definition dec_int :: "int \<Rightarrow> string" where
  "dec_int z = (if z < 0 then CHR ''-'' # dec_string (nat (- z)) else dec_string (nat z))"

lemma sint_word32_range: "- (2 ^ 31) \<le> v \<Longrightarrow> v < 2 ^ 31 \<Longrightarrow> sint (word_of_int v :: 32 word) = v"
  by (simp add: signed_of_int signed_take_bit_int_eq_self)

lemma atoi_minus_digits:
  assumes "list_all is_digit s" and "dec_value s \<le> 2 ^ 31"
  shows "atoi (CHR ''-'' # s) = - int (dec_value s)"
proof -
  have "c_str (CHR ''-'' # s) = CHR ''-'' # s" using c_str_digits [OF assms(1)] by (simp add: c_str_def)
  moreover have "\<not> is_space CHR ''-''" by (simp add: is_space_def)
  moreover have t: "takeWhile is_digit s = s" using assms(1) by (simp add: takeWhile_eq_all_conv list_all_iff)
  have v: "int (dec_value s) \<le> 2 ^ 31" using assms(2) by simp
  then have "max (- (2 ^ 63)) (- int (dec_value s)) = - int (dec_value s)" by simp
  ultimately show ?thesis
    using sint_word32_range [of "- int (dec_value s)"] v by (simp add: atoi_def t Let_def)
qed

lemma atoi_dec_int:
  assumes "- (2 ^ 31) \<le> z" and "z < 2 ^ 31"
  shows "atoi (dec_int z) = z"
proof (cases "z < 0")
  case True
  then show ?thesis
    using atoi_minus_digits [OF dec_string_digits, of "nat (- z)"] assms(1)
    by (simp add: dec_int_def dec_value_dec_string nat_le_iff)
next
  case False
  then show ?thesis using assms(2) atoi_dec_string [of "nat z"] by (simp add: dec_int_def nat_less_iff)
qed

end
