(* ===== verification/String_Utils.thy ===== *)
theory String_Utils
  imports Prelude
begin

text \<open>
  The string helpers of \<open>string_utils.cpp\<close>: splitting at a delimiter, trimming, the digit
  test and the conversion built on it, the UTF-8 test and the time parser. Loops over
  indices are kept as loops; each routine is related to a reference definition.
\<close>

section \<open>Operations\<close>

text \<open>
  \<open>std::getline\<close> on the rest of a string stream: it fails when nothing is left, otherwise
  it takes the characters before the delimiter and removes the delimiter too.
\<close>

definition getline :: "string \<Rightarrow> char \<Rightarrow> (string \<times> string) option" where
  "getline rest delim =
     (if rest = [] then None
      else Some (takeWhile (\<lambda>c. c \<noteq> delim) rest, drop 1 (dropWhile (\<lambda>c. c \<noteq> delim) rest)))"

function split_loop :: "string \<Rightarrow> char \<Rightarrow> string list" where
  "split_loop iss delim =
     (case getline iss delim of None \<Rightarrow> [] | Some (item, rest) \<Rightarrow> item # split_loop rest delim)"
  by pat_completeness auto
termination
proof (relation "measure (\<lambda>(iss, delim). length iss)", goal_cases)
  case (2 iss delim p item rest)
  then have "iss \<noteq> []" "rest = drop 1 (dropWhile (\<lambda>c. c \<noteq> delim) iss)"
    by (auto simp: getline_def split: if_splits)
  then show ?case
    using length_dropWhile_le [of "\<lambda>c. c \<noteq> delim" iss] by (cases iss) auto
qed simp

declare split_loop.simps [simp del]

definition split_string :: "string \<Rightarrow> char \<Rightarrow> string list" where
  "split_string s delim = split_loop s delim"

fun is_all_digit_loop :: "string \<Rightarrow> bool" where
  "is_all_digit_loop [] = True"
| "is_all_digit_loop (c # cs) =
     (if c = CHR 0x00 then True else if \<not> is_digit c then False else is_all_digit_loop cs)"

definition is_all_digit :: "string \<Rightarrow> bool" where
  "is_all_digit s = (if s = [] then False else is_all_digit_loop s)"

text \<open>The scan for the first character to keep; the index never passes the size.\<close>

function trim_head :: "string \<Rightarrow> string \<Rightarrow> nat \<Rightarrow> nat" where
  "trim_head s charlist cnt =
     (if cnt < length s then if s ! cnt \<notin> set charlist then cnt else trim_head s charlist (cnt + 1)
      else cnt)"
  by pat_completeness auto
termination by (relation "measure (\<lambda>(s, charlist, cnt). length s - cnt)") auto

fun trim_tail :: "string \<Rightarrow> string \<Rightarrow> nat \<Rightarrow> nat \<Rightarrow> nat \<times> nat" where
  "trim_tail s charlist pos cnt =
     (if pos > 0 then if s ! pos \<notin> set charlist then (pos, cnt)
                      else trim_tail s charlist (pos - 1) (cnt + 1)
      else (pos, cnt))"

declare trim_head.simps [simp del] trim_tail.simps [simp del]

definition trim :: "string \<Rightarrow> string \<Rightarrow> string" where
  "trim s charlist =
     (let cnt = trim_head s charlist 0;
          s1 = (if cnt \<noteq> 0 then drop cnt s else s)
      in if s1 = [] then s1
         else let (pos, cnt') = trim_tail s1 charlist (length s1 - 1) 0
              in if cnt' \<noteq> 0 then take (pos + 1) s1 @ drop (pos + 1 + cnt') s1 else s1)"

text \<open>Reading an unsigned 32-bit number from a string of digits: too large saturates.\<close>

definition strtodigit :: "string \<Rightarrow> u32" where
  "strtodigit str = (if dec_value str < 2 ^ 32 then of_nat (dec_value str) else - 1)"

definition str2int :: "string option \<Rightarrow> u32 \<Rightarrow> int \<times> u32" where
  "str2int p_str out = (case p_str of None \<Rightarrow> (- 1, out)
     | Some p \<Rightarrow> (let str = c_str p
                  in if is_all_digit str then (0, strtodigit str) else (- 1, out)))"

text \<open>The UTF-8 test; a \<open>std::string\<close> is its bytes here.\<close>

definition utf8_next :: "byte \<Rightarrow> nat \<Rightarrow> nat option" where
  "utf8_next b i =
     (if (b AND 0xE0) = 0xC0 then Some (i + 2)
      else if (b AND 0xF0) = 0xE0 then Some (i + 3)
      else if (b AND 0xF8) = 0xF0 then Some (i + 4)
      else None)"

function is_utf8_loop :: "byte list \<Rightarrow> nat \<Rightarrow> bool" where
  "is_utf8_loop s i =
     (if i < length s then
        if (s ! i AND 0x80) = 0 then is_utf8_loop s (i + 1)
        else (case utf8_next (s ! i) i of None \<Rightarrow> False
              | Some j \<Rightarrow> if j > length s then False
                          else if \<not> list_all (\<lambda>pos. (s ! pos AND 0xC0) = 0x80) [i + 1..<j] then False
                          else is_utf8_loop s j)
      else True)"
  by pat_completeness auto
termination
  by (relation "measure (\<lambda>(s, i). length s - i)") (auto simp: utf8_next_def split: if_splits)

declare is_utf8_loop.simps [simp del]

definition is_utf8 :: "byte list \<Rightarrow> bool" where
  "is_utf8 s = is_utf8_loop s 0"

text \<open>
  The time parser over the C library's \<open>strptime\<close> and \<open>mktime\<close>. The \<open>struct tm\<close> is not
  initialised, so its content before the call is a parameter as well.
\<close>

definition parse_str_time ::
  "(string \<Rightarrow> string \<Rightarrow> 'tm \<Rightarrow> 'tm option) \<Rightarrow> ('tm \<Rightarrow> int) \<Rightarrow> 'tm \<Rightarrow> string option \<Rightarrow> int \<Rightarrow> int \<times> int" where
  "parse_str_time strptime mktime tm0 str_time time =
     (case str_time of None \<Rightarrow> (- 1, time)
      | Some str \<Rightarrow>
          if c_str str = [] then (- 1, time)
          else (case strptime (c_str str) ''%Y-%m-%d %H:%M:%S'' tm0 of None \<Rightarrow> (- 1, time)
                | Some tm \<Rightarrow> let t = mktime tm in if t = - 1 then (- 1, t) else (0, t)))"

section \<open>Splitting\<close>

fun join_strings :: "char \<Rightarrow> string list \<Rightarrow> string" where
  "join_strings d [] = []"
| "join_strings d [x] = x"
| "join_strings d (x # y # ys) = x @ d # join_strings d (y # ys)"

lemma split_Nil [simp]: "split_string [] d = []"
  by (simp add: split_string_def split_loop.simps getline_def)

lemma getline_no_delim: "d \<notin> set s \<Longrightarrow> s \<noteq> [] \<Longrightarrow> getline s d = Some (s, [])"
proof -
  assume a: "d \<notin> set s" "s \<noteq> []"
  have "takeWhile (\<lambda>c. c \<noteq> d) s = s"
    using a(1) by (auto simp: takeWhile_eq_all_conv)
  moreover have "dropWhile (\<lambda>c. c \<noteq> d) s = []"
    using a(1) by (auto simp: dropWhile_eq_Nil_conv)
  ultimately show ?thesis
    using a(2) unfolding getline_def by (simp only: if_False) simp
qed

lemma getline_delim: "d \<notin> set x \<Longrightarrow> getline (x @ d # s) d = Some (x, s)"
  by (induction x) (auto simp: getline_def)

lemma getline_Nil [simp]: "getline [] d = None"
  by (simp add: getline_def)

lemma split_no_delim: "d \<notin> set s \<Longrightarrow> s \<noteq> [] \<Longrightarrow> split_string s d = [s]"
  by (simp add: split_string_def split_loop.simps getline_no_delim)

lemma split_delim: "d \<notin> set x \<Longrightarrow> split_string (x @ d # s) d = x # split_string s d"
  unfolding split_string_def by (subst split_loop.simps) (simp add: getline_delim)

text \<open>Either no delimiter is left, or the string starts with a field and the delimiter.\<close>

lemma split_cases:
  fixes s :: string and d :: char
  obtains (Nil) "s = []" | (last) "d \<notin> set s" "s \<noteq> []"
    | (field) x t where "s = x @ d # t" "d \<notin> set x"
  by (metis split_list_first)

lemma split_fields: "x \<in> set (split_string s d) \<Longrightarrow> d \<notin> set x"
proof (induction s rule: length_induct)
  case (1 s)
  show ?case
  proof (cases rule: split_cases [where s = s and d = d])
    case Nil
    with 1 show ?thesis by simp
  next
    case last
    with 1 show ?thesis by (simp add: split_no_delim)
  next
    case (field y t)
    with 1 show ?thesis by (auto simp: split_delim)
  qed
qed

lemma join_Cons: "ys \<noteq> [] \<Longrightarrow> join_strings d (x # ys) = x @ d # join_strings d ys"
  by (cases ys) simp_all

lemma split_eq_Nil_iff: "split_string s d = [] \<longleftrightarrow> s = []"
  by (cases rule: split_cases [where s = s and d = d]) (auto simp: split_no_delim split_delim)

lemma join_split:
  "join_strings d (split_string s d) @ (if s \<noteq> [] \<and> last s = d then [d] else []) = s"
proof (induction s rule: length_induct)
  case (1 s)
  show ?case
  proof (cases rule: split_cases [where s = s and d = d])
    case Nil
    then show ?thesis by simp
  next
    case last
    then show ?thesis by (auto simp: split_no_delim)
  next
    case (field x t)
    show ?thesis
    proof (cases "t = []")
      case True
      with field show ?thesis by (simp add: split_delim)
    next
      case False
      from 1 field have "join_strings d (split_string t d) @ (if t \<noteq> [] \<and> last t = d then [d] else []) = t"
        by simp
      with False field show ?thesis by (simp add: split_delim join_Cons split_eq_Nil_iff)
    qed
  qed
qed

lemma split_join:
  "(\<And>x. x \<in> set xs \<Longrightarrow> d \<notin> set x) \<Longrightarrow> (xs \<noteq> [] \<Longrightarrow> last xs \<noteq> []) \<Longrightarrow>
   split_string (join_strings d xs) d = xs"
proof (induction d xs rule: join_strings.induct)
  case (2 d x)
  then show ?case by (simp add: split_no_delim)
next
  case (3 d x y ys)
  then show ?case by (simp add: split_delim)
qed simp

section \<open>Trimming\<close>

text \<open>What trimming is meant to be: drop the listed characters at both ends.\<close>

definition trim_ref :: "string \<Rightarrow> string \<Rightarrow> string" where
  "trim_ref s charlist =
     rev (dropWhile (\<lambda>c. c \<in> set charlist) (rev (dropWhile (\<lambda>c. c \<in> set charlist) s)))"

lemma trim_head_eq:
  "cnt \<le> length s \<Longrightarrow> list_all (\<lambda>c. c \<in> set cl) (take cnt s) \<Longrightarrow>
   drop (trim_head s cl cnt) s = dropWhile (\<lambda>c. c \<in> set cl) s"
proof (induction s cl cnt rule: trim_head.induct)
  case (1 s cl cnt)
  show ?case
  proof (cases "cnt < length s \<and> s ! cnt \<in> set cl")
    case True
    with 1 show ?thesis
      by (subst trim_head.simps) (auto simp: take_Suc_conv_app_nth)
  next
    case False
    have "dropWhile (\<lambda>c. c \<in> set cl) s = dropWhile (\<lambda>c. c \<in> set cl) (take cnt s @ drop cnt s)"
      by simp
    also have "\<dots> = dropWhile (\<lambda>c. c \<in> set cl) (drop cnt s)"
      using 1(3) by (intro dropWhile_append2) (auto simp: list_all_iff)
    also have "\<dots> = drop cnt s"
      using False 1(2) by (cases "cnt < length s") (auto simp flip: Cons_nth_drop_Suc)
    finally show ?thesis
      using False 1(2) by (subst trim_head.simps) auto
  qed
qed

lemma trim_tail_eq:
  assumes "pos < length s" and "pos + cnt = length s - 1" and "list_all (\<lambda>c. c \<in> set cl) (drop (pos + 1) s)"
    and "s ! 0 \<notin> set cl" and "trim_tail s cl pos cnt = (pos', cnt')"
  shows "pos' + cnt' = length s - 1 \<and> pos' < length s
       \<and> rev (dropWhile (\<lambda>c. c \<in> set cl) (rev s)) = take (pos' + 1) s"
  using assms
proof (induction s cl pos cnt arbitrary: pos' cnt' rule: trim_tail.induct)
  case (1 s cl pos cnt)
  show ?case
  proof (cases "pos > 0 \<and> s ! pos \<in> set cl")
    case True
    then have "drop pos s = s ! pos # drop (pos + 1) s"
      using 1(2) by (simp add: Cons_nth_drop_Suc)
    with True 1(4) have all: "list_all (\<lambda>c. c \<in> set cl) (drop (pos - 1 + 1) s)"
      by simp
    from True have "trim_tail s cl pos cnt = trim_tail s cl (pos - 1) (cnt + 1)"
      by (subst trim_tail.simps) simp
    with 1(6) have t: "trim_tail s cl (pos - 1) (cnt + 1) = (pos', cnt')" by simp
    have "pos - 1 < length s" "pos - 1 + (cnt + 1) = length s - 1"
      using True 1(2,3) by linarith+
    then show ?thesis
      using 1(1) True all 1(5) t by blast
  next
    case False
    then have eq: "pos' = pos" "cnt' = cnt" and nin: "s ! pos \<notin> set cl"
      using 1(5,6) by (subst (asm) trim_tail.simps, auto split: if_splits)+
    have "rev s = rev (drop (pos + 1) s) @ rev (take (pos + 1) s)"
      by (metis append_take_drop_id rev_append)
    then have "dropWhile (\<lambda>c. c \<in> set cl) (rev s) = dropWhile (\<lambda>c. c \<in> set cl) (rev (take (pos + 1) s))"
      using 1(4) by (auto simp: list_all_iff intro!: dropWhile_append2)
    also have "\<dots> = rev (take (pos + 1) s)"
      using nin 1(2) by (simp add: take_Suc_conv_app_nth)
    finally show ?thesis
      using eq 1(2,3) by simp
  qed
qed

lemma trim_eq_ref: "trim s cl = trim_ref s cl"
proof -
  let ?P = "\<lambda>c. c \<in> set cl"
  let ?s1 = "dropWhile ?P s"
  have head: "(if trim_head s cl 0 \<noteq> 0 then drop (trim_head s cl 0) s else s) = ?s1"
    using trim_head_eq [of 0 s cl] by (cases "trim_head s cl 0") auto
  show ?thesis
  proof (cases "?s1 = []")
    case True
    show ?thesis unfolding trim_def Let_def trim_ref_def head True by simp
  next
    case False
    obtain pos cnt where t: "trim_tail ?s1 cl (length ?s1 - 1) 0 = (pos, cnt)" by fastforce
    have "?s1 ! 0 \<notin> set cl" using False by (metis hd_conv_nth hd_dropWhile)
    from trim_tail_eq [OF _ _ _ this t] False
    have r: "pos + cnt = length ?s1 - 1" "pos < length ?s1" "rev (dropWhile ?P (rev ?s1)) = take (pos + 1) ?s1"
      by auto
    then have "drop (pos + 1 + cnt) ?s1 = []" and "cnt = 0 \<Longrightarrow> take (pos + 1) ?s1 = ?s1"
      by auto
    with head t r(3) False show ?thesis
      by (auto simp: trim_def Let_def trim_ref_def)
  qed
qed

section \<open>UTF-8\<close>

text \<open>The byte patterns of the table in the source.\<close>

definition utf8_cont :: "byte \<Rightarrow> bool" where
  "utf8_cont b \<longleftrightarrow> (b AND 0xC0) = 0x80"

inductive utf8_seq :: "byte list \<Rightarrow> bool" where
  seq1: "(b AND 0x80) = 0 \<Longrightarrow> utf8_seq [b]"
| seq2: "(b AND 0xE0) = 0xC0 \<Longrightarrow> utf8_cont c1 \<Longrightarrow> utf8_seq [b, c1]"
| seq3: "(b AND 0xF0) = 0xE0 \<Longrightarrow> utf8_cont c1 \<Longrightarrow> utf8_cont c2 \<Longrightarrow> utf8_seq [b, c1, c2]"
| seq4: "(b AND 0xF8) = 0xF0 \<Longrightarrow> utf8_cont c1 \<Longrightarrow> utf8_cont c2 \<Longrightarrow> utf8_cont c3 \<Longrightarrow>
     utf8_seq [b, c1, c2, c3]"

definition utf8_text :: "byte list \<Rightarrow> bool" where
  "utf8_text s \<longleftrightarrow> (\<exists>chunks. s = concat chunks \<and> list_all utf8_seq chunks)"

definition utf8_len :: "byte \<Rightarrow> nat option" where
  "utf8_len b = (if (b AND 0x80) = 0 then Some 1 else if (b AND 0xE0) = 0xC0 then Some 2
     else if (b AND 0xF0) = 0xE0 then Some 3 else if (b AND 0xF8) = 0xF0 then Some 4 else None)"

text \<open>The four patterns of a first byte exclude each other.\<close>

lemma utf8_patterns:
  fixes b :: byte
  shows "(b AND 0xE0) = 0xC0 \<Longrightarrow> (b AND 0x80) \<noteq> 0"
    and "(b AND 0xF0) = 0xE0 \<Longrightarrow> (b AND 0x80) \<noteq> 0 \<and> (b AND 0xE0) \<noteq> 0xC0"
    and "(b AND 0xF8) = 0xF0 \<Longrightarrow> (b AND 0x80) \<noteq> 0 \<and> (b AND 0xE0) \<noteq> 0xC0 \<and> (b AND 0xF0) \<noteq> 0xE0"
proof -
  have "(b AND 0x80) = ((b AND 0xE0) AND 0x80)" and "(b AND 0x80) = ((b AND 0xF0) AND 0x80)"
    and "(b AND 0x80) = ((b AND 0xF8) AND 0x80)" and "(b AND 0xE0) = ((b AND 0xF0) AND 0xE0)"
    and "(b AND 0xE0) = ((b AND 0xF8) AND 0xE0)" and "(b AND 0xF0) = ((b AND 0xF8) AND 0xF0)"
    by (simp_all add: and.assoc)
  then show "(b AND 0xE0) = 0xC0 \<Longrightarrow> (b AND 0x80) \<noteq> 0"
    and "(b AND 0xF0) = 0xE0 \<Longrightarrow> (b AND 0x80) \<noteq> 0 \<and> (b AND 0xE0) \<noteq> 0xC0"
    and "(b AND 0xF8) = 0xF0 \<Longrightarrow> (b AND 0x80) \<noteq> 0 \<and> (b AND 0xE0) \<noteq> 0xC0 \<and> (b AND 0xF0) \<noteq> 0xE0"
    by simp_all
qed

lemma list_all_upt_nth: "j \<le> length s \<Longrightarrow> list_all (\<lambda>p. Q (s ! p)) [i..<j] \<longleftrightarrow> list_all Q (take (j - i) (drop i s))"
  by (auto simp: list_all_length)

lemma utf8_seq_iff:
  "utf8_seq (b # cs) \<longleftrightarrow> utf8_len b = Some (Suc (length cs)) \<and> list_all utf8_cont cs"
proof
  assume "utf8_seq (b # cs)"
  then show "utf8_len b = Some (Suc (length cs)) \<and> list_all utf8_cont cs"
    by cases (auto simp: utf8_len_def dest: utf8_patterns)
next
  assume "utf8_len b = Some (Suc (length cs)) \<and> list_all utf8_cont cs"
  then show "utf8_seq (b # cs)"
    by (auto simp: utf8_len_def Suc_length_conv length_Suc_conv numeral_eq_Suc intro: utf8_seq.intros split: if_splits)
qed

lemma utf8_seq_nonempty: "\<not> utf8_seq []"
  by (auto elim: utf8_seq.cases)

lemma utf8_text_Nil: "utf8_text []"
  unfolding utf8_text_def by (intro exI [of _ "[]"]) simp

lemma utf8_text_Cons:
  "utf8_text (b # s) \<longleftrightarrow> (case utf8_len b of None \<Rightarrow> False
     | Some n \<Rightarrow> n \<le> Suc (length s) \<and> list_all utf8_cont (take (n - 1) s) \<and> utf8_text (drop (n - 1) s))"
proof
  assume "utf8_text (b # s)"
  then obtain chunks where c: "b # s = concat chunks" "list_all utf8_seq chunks"
    by (auto simp: utf8_text_def)
  then obtain x rest where x: "chunks = x # rest" "utf8_seq x" by (cases chunks) auto
  with c utf8_seq_nonempty obtain cs where "x = b # cs" by (cases x) auto
  with c x show "case utf8_len b of None \<Rightarrow> False
     | Some n \<Rightarrow> n \<le> Suc (length s) \<and> list_all utf8_cont (take (n - 1) s) \<and> utf8_text (drop (n - 1) s)"
    by (auto simp: utf8_seq_iff utf8_text_def)
next
  assume "case utf8_len b of None \<Rightarrow> False
     | Some n \<Rightarrow> n \<le> Suc (length s) \<and> list_all utf8_cont (take (n - 1) s) \<and> utf8_text (drop (n - 1) s)"
  then obtain n rest where n: "utf8_len b = Some n" "n \<le> Suc (length s)" "list_all utf8_cont (take (n - 1) s)"
    "drop (n - 1) s = concat rest" "list_all utf8_seq rest"
    by (auto simp: utf8_text_def split: option.splits)
  then have "0 < n" by (auto simp: utf8_len_def split: if_splits)
  with n have "utf8_seq (b # take (n - 1) s)" by (simp add: utf8_seq_iff)
  moreover have "b # s = concat ((b # take (n - 1) s) # rest)"
    using n(4) by (metis append_Cons append_take_drop_id concat.simps(2))
  ultimately show "utf8_text (b # s)"
    unfolding utf8_text_def using n(5) by (intro exI [of _ "(b # take (n - 1) s) # rest"]) simp
qed

lemma is_utf8_loop_text: "i \<le> length s \<Longrightarrow> is_utf8_loop s i \<longleftrightarrow> utf8_text (drop i s)"
proof (induction s i rule: is_utf8_loop.induct)
  case (1 s i)
  show ?case
  proof (cases "i < length s")
    case False
    with 1(3) show ?thesis by (subst is_utf8_loop.simps) (simp add: utf8_text_Nil)
  next
    case True
    then have d: "drop i s = s ! i # drop (Suc i) s" by (simp add: Cons_nth_drop_Suc)
    show ?thesis
    proof (cases "(s ! i AND 0x80) = 0")
      case ascii: True
      with 1 True show ?thesis
        by (simp add: is_utf8_loop.simps [of s i] d utf8_text_Cons utf8_len_def)
    next
      case multi: False
      show ?thesis
      proof (cases "utf8_next (s ! i) i")
        case None
        with True multi show ?thesis
          by (auto simp: is_utf8_loop.simps [of s i] d utf8_text_Cons utf8_len_def utf8_next_def split: if_splits)
      next
        case (Some j)
        then obtain n where n: "utf8_len (s ! i) = Some n" "j = i + n" "0 < n"
          using multi by (auto simp: utf8_len_def utf8_next_def split: if_splits)
        show ?thesis
        proof (cases "j \<le> length s \<and> list_all (\<lambda>pos. (s ! pos AND 0xC0) = 0x80) [i + 1..<j]")
          case ok: True
          with 1(2) True multi Some have "is_utf8_loop s j \<longleftrightarrow> utf8_text (drop j s)" by auto
          with ok True multi Some n show ?thesis
            using list_all_upt_nth [of j s utf8_cont "Suc i"]
            by (auto simp: is_utf8_loop.simps [of s i] d utf8_text_Cons utf8_cont_def add.commute)
        next
          case False
          with True multi Some n show ?thesis
            using list_all_upt_nth [of j s utf8_cont "Suc i"]
            by (auto simp: is_utf8_loop.simps [of s i] d utf8_text_Cons utf8_cont_def)
        qed
      qed
    qed
  qed
qed

text \<open>The encoder the table describes, for code points below 2 to the 21.\<close>

definition utf8_encode :: "nat \<Rightarrow> byte list" where
  "utf8_encode cp =
     (if cp < 0x80 then [of_nat cp]
      else if cp < 0x800 then [of_nat (0xC0 + cp div 64), of_nat (0x80 + cp mod 64)]
      else if cp < 0x10000 then
        [of_nat (0xE0 + cp div 4096), of_nat (0x80 + cp div 64 mod 64), of_nat (0x80 + cp mod 64)]
      else [of_nat (0xF0 + cp div 262144), of_nat (0x80 + cp div 4096 mod 64),
            of_nat (0x80 + cp div 64 mod 64), of_nat (0x80 + cp mod 64)])"

lemma encode_bytes:
  "n < 128 \<Longrightarrow> ((of_nat n :: byte) AND 0x80) = 0"
  "n < 32 \<Longrightarrow> ((of_nat (192 + n) :: byte) AND 0xE0) = 0xC0"
  "n < 16 \<Longrightarrow> ((of_nat (224 + n) :: byte) AND 0xF0) = 0xE0"
  "n < 8 \<Longrightarrow> ((of_nat (240 + n) :: byte) AND 0xF8) = 0xF0"
  "n < 64 \<Longrightarrow> utf8_cont (of_nat (128 + n))"
proof -
  have "list_all (\<lambda>n. ((of_nat n :: byte) AND 0x80) = 0) [0..<128]"
    and "list_all (\<lambda>n. ((of_nat (192 + n) :: byte) AND 0xE0) = 0xC0) [0..<32]"
    and "list_all (\<lambda>n. ((of_nat (224 + n) :: byte) AND 0xF0) = 0xE0) [0..<16]"
    and "list_all (\<lambda>n. ((of_nat (240 + n) :: byte) AND 0xF8) = 0xF0) [0..<8]"
    and "list_all (\<lambda>n. utf8_cont (of_nat (128 + n))) [0..<64]"
    by (simp_all add: upt_rec utf8_cont_def)
  then show "n < 128 \<Longrightarrow> ((of_nat n :: byte) AND 0x80) = 0"
    and "n < 32 \<Longrightarrow> ((of_nat (192 + n) :: byte) AND 0xE0) = 0xC0"
    and "n < 16 \<Longrightarrow> ((of_nat (224 + n) :: byte) AND 0xF0) = 0xE0"
    and "n < 8 \<Longrightarrow> ((of_nat (240 + n) :: byte) AND 0xF8) = 0xF0"
    and "n < 64 \<Longrightarrow> utf8_cont (of_nat (128 + n))"
    unfolding list_all_iff set_upt by auto
qed

lemma utf8_seq_encode:
  assumes "cp < 0x200000"
  shows "utf8_seq (utf8_encode cp)"
proof -
  consider "cp < 0x80" | "0x80 \<le> cp" "cp < 0x800" | "0x800 \<le> cp" "cp < 0x10000" | "0x10000 \<le> cp"
    by linarith
  then show ?thesis
  proof cases
    case 1
    then show ?thesis unfolding utf8_encode_def by (simp only: if_True) (intro seq1 encode_bytes)
  next
    case 2
    then have "cp div 64 < 32" by (simp add: less_mult_imp_div_less)
    with 2 show ?thesis
      using seq2 [OF encode_bytes(2) encode_bytes(5)] by (simp add: utf8_encode_def)
  next
    case 3
    then have "cp div 4096 < 16" by (simp add: less_mult_imp_div_less)
    with 3 show ?thesis
      using seq3 [OF encode_bytes(3) encode_bytes(5) encode_bytes(5)] by (simp add: utf8_encode_def)
  next
    case 4
    with assms have "cp div 262144 < 8" by (simp add: less_mult_imp_div_less)
    with 4 show ?thesis
      using seq4 [OF encode_bytes(4) encode_bytes(5) encode_bytes(5) encode_bytes(5)] by (simp add: utf8_encode_def)
  qed
qed

section \<open>Digits\<close>

lemma is_all_digit_loop_iff: "is_all_digit_loop s \<longleftrightarrow> list_all is_digit (c_str s)"
  by (induction s) (auto simp: c_str_def)

lemma is_all_digit_iff: "is_all_digit s \<longleftrightarrow> s \<noteq> [] \<and> list_all is_digit (c_str s)"
  by (simp add: is_all_digit_def is_all_digit_loop_iff)

lemma c_str_idem [simp]: "c_str (c_str s) = c_str s"
  by (simp add: c_str_def)

section \<open>Properties\<close>

text \<open>
  \<open>split\<close> cuts a string at every delimiter: no field holds the delimiter, the fields
  joined again are the string (but for one delimiter at its very end, which is dropped), and
  it recovers any list of delimiter-free fields whose last one is not empty.
\<close>

lemma split_join_roundtrip:
  "(\<forall>x \<in> set (split_string s d). d \<notin> set x)
   \<and> join_strings d (split_string s d) @ (if s \<noteq> [] \<and> last s = d then [d] else []) = s
   \<and> ((\<forall>x \<in> set xs. d \<notin> set x) \<longrightarrow> (xs \<noteq> [] \<longrightarrow> last xs \<noteq> []) \<longrightarrow> split_string (join_strings d xs) d = xs)"
  using split_fields join_split split_join by blast

lemma split_join_roundtrip_witness:
  "split_string (join_strings (CHR '';'') [''a:1'', [], ''b:2'']) (CHR '';'') = [''a:1'', [], ''b:2'']"
  using split_join_roundtrip [of "[]" "CHR '';''" "[''a:1'', [], ''b:2'']"] by simp

text \<open>
  The index loops of \<open>trim\<close> compute the reference definition, for every string and
  character list: characters of the list are dropped at both ends and nowhere else.
\<close>

lemma trim_correct: "trim s charlist = trim_ref s charlist"
  by (rule trim_eq_ref)

text \<open>
  C31: \<open>is_utf8\<close> accepts exactly the concatenations of the four byte patterns of its table,
  hence every text encoded from code points below 2 to the 21.
\<close>

theorem is_utf8_iff_patterns:
  "(is_utf8 s \<longleftrightarrow> utf8_text s)
   \<and> ((\<forall>cp \<in> set cps. cp < 0x200000) \<longrightarrow> is_utf8 (concat (map utf8_encode cps)))"
proof -
  have iff: "is_utf8 t \<longleftrightarrow> utf8_text t" for t
    by (simp add: is_utf8_def is_utf8_loop_text)
  have "utf8_text (concat (map utf8_encode cps))" if "\<forall>cp \<in> set cps. cp < 0x200000"
    unfolding utf8_text_def
    by (intro exI [of _ "map utf8_encode cps"]) (use that in \<open>auto simp: list_all_iff intro: utf8_seq_encode\<close>)
  with iff show ?thesis by blast
qed

theorem is_utf8_iff_patterns_witness: "is_utf8 (concat (map utf8_encode [0x41, 0xE9, 0x20AC, 0x1F600]))"
  using is_utf8_iff_patterns [of "[]" "[0x41, 0xE9, 0x20AC, 0x1F600]"] by simp

text \<open>
  The ranges of the table are not checked: the overlong encoding of NUL, an encoded
  surrogate and a value above the largest code point are all accepted.
\<close>

lemma is_utf8_accepts_overlong:
  "is_utf8 [0xC0, 0x80] \<and> is_utf8 [0xED, 0xA0, 0x80] \<and> is_utf8 [0xF7, 0xBF, 0xBF, 0xBF]"
  by (simp add: is_utf8_def is_utf8_loop.simps utf8_next_def upt_rec)

text \<open>
  \<open>str2int\<close> reads back every decimal numeral of an unsigned 32-bit number; a larger
  numeral is reported as a success too, with the largest value; anything else (no string,
  an empty one, a character that is no digit) is rejected and leaves the output alone.
\<close>

lemma str2int_roundtrip:
  "(n < 2 ^ 32 \<longrightarrow> str2int (Some (dec_string n)) out = (0, of_nat n))
   \<and> (2 ^ 32 \<le> n \<longrightarrow> str2int (Some (dec_string n)) out = (0, - 1))
   \<and> str2int None out = (- 1, out)
   \<and> ((c_str p = [] \<or> \<not> list_all is_digit (c_str p)) \<longrightarrow> str2int (Some p) out = (- 1, out))"
proof -
  have "is_all_digit (dec_string n)" and "c_str (dec_string n) = dec_string n"
    using dec_string_digits [of n] dec_string_nonempty [of n]
    by (simp_all add: is_all_digit_iff c_str_digits)
  then show ?thesis
    by (auto simp: str2int_def strtodigit_def dec_value_dec_string is_all_digit_iff Let_def)
qed

lemma str2int_roundtrip_witness:
  "str2int (Some (dec_string 8080)) 7 = (0, 8080) \<and> str2int (Some (dec_string (2 ^ 32 + 80))) 7 = (0, - 1)
   \<and> str2int (Some ''80a'') 7 = (- 1, 7)"
proof -
  have "\<not> list_all is_digit (c_str ''80a'')" by (simp add: c_str_def is_digit_def)
  then show ?thesis
    using str2int_roundtrip [of 8080 7 "''80a''"] str2int_roundtrip [of "2 ^ 32 + 80" 7 "''80a''"] by simp
qed

end
