(* ===== verification/Timer.thy ===== *)
theory Timer
  imports Prelude
begin

text \<open>
  The timer manager of \<open>timer.h\<close> and \<open>timer.cpp\<close>. Callbacks are pointers; what a callback
  returns is up to the environment, which sees all earlier calls. Callbacks that
  call the manager while it iterates over the list are in \<open>Timer_Reentrant\<close>.
  \<open>time_t\<close> is an \<open>int\<close>; an interval is an unsigned 32-bit number.
\<close>

section \<open>State and operations\<close>

datatype timer_call =
    Timer_callback nat nat
  | Time_now

type_synonym timer_env = "(timer_call, int) env"
type_synonym timer_history = "(timer_call, int) history"

record timer_event =
  m_interval :: u32
  m_last_event_time :: int
  m_callback :: "nat option"
  m_callback_arg :: nat

type_synonym timer_list = "timer_event list"

definition make_event :: "u32 \<Rightarrow> nat option \<Rightarrow> nat \<Rightarrow> timer_event" where
  "make_event interval cb cb_arg =
     \<lparr>m_interval = interval, m_last_event_time = 0, m_callback = cb, m_callback_arg = cb_arg\<rparr>"

definition is_valid :: "timer_event \<Rightarrow> bool" where
  "is_valid te \<longleftrightarrow> m_interval te \<noteq> 0 \<and> m_callback te \<noteq> None"

text \<open>\<open>operator ==\<close>, of an element of the list (left) with the event to remove (right).\<close>

definition event_eq :: "timer_event \<Rightarrow> timer_event \<Rightarrow> bool" where
  "event_eq te rhs = (if \<not> is_valid te then True
     else m_interval te = m_interval rhs \<and> m_callback te = m_callback rhs
        \<and> m_callback_arg te = m_callback_arg rhs)"

text \<open>\<open>operator !=\<close> negates itself: the recursion of the code, \<open>None\<close> when it does not return.\<close>

partial_function (option) event_ne :: "timer_event \<Rightarrow> timer_event \<Rightarrow> bool option" where
  "event_ne te rhs = Option.bind (event_ne te rhs) (\<lambda>r. Some (\<not> r))"

definition max_time_event_count :: nat where
  "max_time_event_count = 1000"

definition process_timer_event ::
  "timer_env \<Rightarrow> int \<Rightarrow> timer_history \<Rightarrow> timer_event \<Rightarrow> int \<times> timer_event \<times> timer_history" where
  "process_timer_event env now h te =
     (if now - m_last_event_time te \<ge> uint (m_interval te)
      then let (ret, h') = invoke env h (Timer_callback (the (m_callback te)) (m_callback_arg te))
           in (ret, te\<lparr>m_last_event_time := now\<rparr>, h')
      else (0, te, h))"

definition add_timer :: "timer_list \<Rightarrow> u32 \<Rightarrow> nat option \<Rightarrow> nat \<Rightarrow> int \<times> timer_list" where
  "add_timer ts itv cb cb_arg =
     (if length ts \<ge> max_time_event_count then (- 1, ts)
      else let te = make_event itv cb cb_arg
           in if \<not> is_valid te then (- 1, ts) else (0, ts @ [te]))"

definition remove_timer :: "timer_list \<Rightarrow> u32 \<Rightarrow> nat option \<Rightarrow> nat \<Rightarrow> int \<times> timer_list" where
  "remove_timer ts itv cb cb_arg =
     (let te = make_event itv cb cb_arg
      in if \<not> is_valid te then (- 1, ts) else (0, filter (\<lambda>e. \<not> event_eq e te) ts))"

definition clear_timers :: "timer_list \<Rightarrow> timer_list" where
  "clear_timers ts = []"

fun process_loop :: "timer_env \<Rightarrow> int \<Rightarrow> timer_history \<Rightarrow> timer_list \<Rightarrow> timer_list \<times> timer_history" where
  "process_loop env now h [] = ([], h)"
| "process_loop env now h (te # ts) =
     (let (ret, te', h1) = process_timer_event env now h te;
          (ts', h2) = process_loop env now h1 ts
      in (if ret = 1 then ts' else te' # ts', h2))"

definition process_timer :: "timer_env \<Rightarrow> timer_history \<Rightarrow> timer_list \<Rightarrow> int \<Rightarrow> int \<times> timer_list \<times> timer_history" where
  "process_timer env h ts now0 =
     (let (now, h0) = (if now0 = 0 then invoke env h Time_now else (now0, h));
          (ts', h') = process_loop env now h0 ts
      in (0, ts', h'))"

section \<open>Invariant\<close>

definition timers_ok :: "timer_list \<Rightarrow> bool" where
  "timers_ok ts \<longleftrightarrow> length ts \<le> max_time_event_count \<and> list_all is_valid ts"

definition is_due :: "int \<Rightarrow> timer_event \<Rightarrow> bool" where
  "is_due now te \<longleftrightarrow> now - m_last_event_time te \<ge> uint (m_interval te)"

text \<open>The calls made to callbacks since a history.\<close>

definition calls_since :: "('c, 'r) history \<Rightarrow> ('c, 'r) history \<Rightarrow> 'c list" where
  "calls_since h h' = map fst (drop (length h) h')"

definition event_call :: "timer_event \<Rightarrow> timer_call" where
  "event_call te = Timer_callback (the (m_callback te)) (m_callback_arg te)"

lemma is_valid_update [simp]: "is_valid (te\<lparr>m_last_event_time := t\<rparr>) = is_valid te"
  by (simp add: is_valid_def)

lemma valid_interval: "is_valid te \<Longrightarrow> 0 < uint (m_interval te)"
  by (auto simp: is_valid_def word_neq_0_conv word_less_def)

lemma process_event_eq:
  "process_timer_event env now h te =
     (if is_due now te
      then (env h (event_call te), te\<lparr>m_last_event_time := now\<rparr>, h @ [(event_call te, env h (event_call te))])
      else (0, te, h))"
  by (simp add: process_timer_event_def is_due_def event_call_def invoke_def)

lemma process_loop_ok:
  "list_all is_valid ts \<Longrightarrow> process_loop env now h ts = (ts', h') \<Longrightarrow>
   list_all is_valid ts' \<and> length ts' \<le> length ts"
  by (induction ts arbitrary: h ts' h')
    (fastforce simp: process_event_eq Let_def split: prod.splits if_splits)+

text \<open>
  One pass: exactly the due timers are called, in list order, each once; the timers left are
  those not due, unchanged, and those due whose callback did not return 1, with their time
  set.
\<close>

definition left_after :: "int \<Rightarrow> timer_event \<Rightarrow> timer_event" where
  "left_after now te = (if is_due now te then te\<lparr>m_last_event_time := now\<rparr> else te)"

lemma process_loop_calls:
  "process_loop env now h ts = (ts', h') \<Longrightarrow>
   \<exists>tail. h' = h @ tail \<and> map fst tail = map event_call (filter (is_due now) ts)"
proof (induction ts arbitrary: h ts' h')
  case (Cons te ts)
  show ?case
  proof (cases "is_due now te")
    case True
    let ?h1 = "h @ [(event_call te, env h (event_call te))]"
    obtain ts1 where l: "process_loop env now ?h1 ts = (ts1, h')"
      using Cons.prems True by (auto simp: process_event_eq split: prod.splits)
    from Cons.IH [OF l] True show ?thesis by auto
  next
    case False
    obtain ts1 where l: "process_loop env now h ts = (ts1, h')"
      using Cons.prems False by (auto simp: process_event_eq split: prod.splits)
    from Cons.IH [OF l] False show ?thesis by auto
  qed
qed simp

lemma process_loop_left:
  "process_loop env now h ts = (ts', h') \<Longrightarrow> te' \<in> set ts' \<Longrightarrow> \<exists>te \<in> set ts. te' = left_after now te"
  by (induction ts arbitrary: h ts' h')
    (fastforce simp: process_event_eq left_after_def split: prod.splits if_splits)+

lemma process_loop_keeps:
  "process_loop env now h ts = (ts', h') \<Longrightarrow> te \<in> set ts \<Longrightarrow> \<not> is_due now te \<Longrightarrow> te \<in> set ts'"
  by (induction ts arbitrary: h ts' h')
    (fastforce simp: process_event_eq split: prod.splits if_splits)+

lemma left_after_not_due: "is_valid te \<Longrightarrow> \<not> is_due now (left_after now te)"
  using valid_interval [of te] by (simp add: left_after_def is_due_def)

section \<open>Sequences of calls\<close>

datatype timer_op =
    Op_add u32 "nat option" nat
  | Op_remove u32 "nat option" nat
  | Op_clear
  | Op_process int

fun timer_apply :: "timer_env \<Rightarrow> timer_list \<times> timer_history \<Rightarrow> timer_op \<Rightarrow> timer_list \<times> timer_history" where
  "timer_apply env (ts, h) (Op_add itv cb arg) = (snd (add_timer ts itv cb arg), h)"
| "timer_apply env (ts, h) (Op_remove itv cb arg) = (snd (remove_timer ts itv cb arg), h)"
| "timer_apply env (ts, h) Op_clear = (clear_timers ts, h)"
| "timer_apply env (ts, h) (Op_process now) = snd (process_timer env h ts now)"

definition timer_run :: "timer_env \<Rightarrow> timer_list \<Rightarrow> timer_history \<Rightarrow> timer_op list \<Rightarrow> timer_list \<times> timer_history" where
  "timer_run env ts h ops = foldl (timer_apply env) (ts, h) ops"

lemma process_timer_nonzero:
  "now \<noteq> 0 \<Longrightarrow> process_timer env h ts now = (0, process_loop env now h ts)"
  by (simp add: process_timer_def split: prod.splits)

lemma timer_apply_ok: "timers_ok ts \<Longrightarrow> timers_ok (fst (timer_apply env (ts, h) op))"
proof (cases op)
  case (Op_process now)
  assume ok: "timers_ok ts"
  obtain now' h0 where n: "(if now = 0 then invoke env h Time_now else (now, h)) = (now', h0)" by fastforce
  obtain ts' h' where l: "process_loop env now' h0 ts = (ts', h')" by fastforce
  have "list_all is_valid ts" using ok by (simp add: timers_ok_def)
  from process_loop_ok [OF this l] ok have "timers_ok ts'"
    by (simp add: timers_ok_def)
  then show ?thesis using Op_process n l by (simp add: process_timer_def)
qed (auto simp: timers_ok_def add_timer_def remove_timer_def clear_timers_def Let_def list_all_iff
    intro: le_trans [OF length_filter_le])

lemma timer_run_ok: "timers_ok ts \<Longrightarrow> timers_ok (fst (timer_run env ts h ops))"
  unfolding timer_run_def
proof (induction ops arbitrary: ts h)
  case (Cons op ops)
  obtain ts1 h1 where "timer_apply env (ts, h) op = (ts1, h1)" by fastforce
  with Cons timer_apply_ok [of ts env h op] show ?case by simp
qed simp

section \<open>How often one timer is called\<close>

lemma event_call_left_after [simp]: "event_call (left_after now te) = event_call te"
  by (simp add: event_call_def left_after_def)

lemma process_loop_events:
  "process_loop env now h ts = (ts', h') \<Longrightarrow>
   set (map event_call ts') \<subseteq> set (map event_call ts) \<and> (distinct (map event_call ts) \<longrightarrow> distinct (map event_call ts'))"
proof (induction ts arbitrary: h ts' h')
  case (Cons te ts)
  obtain ret te1 h1 where p: "process_timer_event env now h te = (ret, te1, h1)" by (cases "process_timer_event env now h te") auto
  obtain ts1 where l: "process_loop env now h1 ts = (ts1, h')" "ts' = (if ret = 1 then ts1 else te1 # ts1)"
    using Cons.prems p by (auto split: prod.splits)
  have "event_call te1 = event_call te"
    using p by (auto simp: process_event_eq event_call_def split: if_splits)
  with Cons.IH [OF l(1)] l(2) show ?case by auto
qed simp

fun process_times :: "timer_env \<Rightarrow> timer_history \<Rightarrow> timer_list \<Rightarrow> int list \<Rightarrow> timer_list \<times> timer_history" where
  "process_times env h ts [] = (ts, h)"
| "process_times env h ts (now # nows) =
     (let (_, ts', h') = process_timer env h ts now in process_times env h' ts' nows)"

lemma count_due:
  "distinct (map event_call ts) \<Longrightarrow>
   count_list (map event_call (filter P ts)) (event_call te) =
     (if \<exists>e \<in> set ts. P e \<and> event_call e = event_call te then 1 else 0)"
  by (induction ts) (auto simp: count_list_0_iff image_iff)

text \<open>The times of the passes in which a call is made, once for each time it is made.\<close>

fun call_times :: "timer_call \<Rightarrow> timer_env \<Rightarrow> timer_history \<Rightarrow> timer_list \<Rightarrow> int list \<Rightarrow> int list" where
  "call_times c env h ts [] = []"
| "call_times c env h ts (now # nows) =
     (let (_, ts', h') = process_timer env h ts now
      in replicate (count_list (calls_since h h') c) now @ call_times c env h' ts' nows)"

text \<open>The passes a timer waits for: each at least its interval after the one before.\<close>

fun due_times :: "int \<Rightarrow> int \<Rightarrow> int list \<Rightarrow> int list" where
  "due_times itv last_time [] = []"
| "due_times itv last_time (now # nows) =
     (if now - last_time \<ge> itv then now # due_times itv now nows else due_times itv last_time nows)"

definition apart :: "int \<Rightarrow> int list \<Rightarrow> bool" where
  "apart itv = successively (\<lambda>a b. b - a \<ge> itv)"

lemma apart_simps [simp]: "apart itv []" "apart itv [a]" "apart itv (a # b # xs) \<longleftrightarrow> b - a \<ge> itv \<and> apart itv (b # xs)"
  by (simp_all add: apart_def)

lemma due_times_apart: "apart itv (t # due_times itv t nows)"
  by (induction nows arbitrary: t) simp_all

lemma apart_take: "apart itv (t # xs) \<Longrightarrow> apart itv (t # take k xs)"
proof (induction xs arbitrary: t k)
  case (Cons x xs)
  then show ?case by (cases k) simp_all
qed simp

lemma call_times_count:
  "process_times env h ts nows = (ts', h') \<Longrightarrow> 0 \<notin> set nows \<Longrightarrow>
   (\<exists>tail. h' = h @ tail) \<and> length (call_times c env h ts nows) = count_list (calls_since h h') c"
proof (induction nows arbitrary: h ts)
  case (Cons now nows)
  obtain ts1 h1 where p: "process_loop env now h ts = (ts1, h1)" by fastforce
  then have rest: "process_times env h1 ts1 nows = (ts', h')"
    using Cons.prems by (simp add: process_timer_nonzero)
  obtain t1 where "h1 = h @ t1" using process_loop_calls [OF p] by blast
  moreover obtain t2 where "h' = h1 @ t2" "length (call_times c env h1 ts1 nows) = count_list (calls_since h1 h') c"
    using Cons.IH [OF rest] Cons.prems(2) by auto
  ultimately show ?case using p Cons.prems(2) by (simp add: process_timer_nonzero calls_since_def)
qed (simp add: calls_since_def)

lemma call_times_none:
  "c \<notin> event_call ` set ts \<Longrightarrow> 0 \<notin> set nows \<Longrightarrow> call_times c env h ts nows = []"
proof (induction nows arbitrary: h ts)
  case (Cons now nows)
  obtain ts1 h1 where p: "process_loop env now h ts = (ts1, h1)" by fastforce
  have "calls_since h h1 = map event_call (filter (is_due now) ts)"
    using process_loop_calls [OF p] by (auto simp: calls_since_def)
  then have "count_list (calls_since h h1) c = 0" using Cons.prems(1) by (auto simp: count_list_0_iff)
  moreover have "c \<notin> event_call ` set ts1" using process_loop_events [OF p] Cons.prems(1) by auto
  ultimately show ?case using Cons p by (simp add: process_timer_nonzero)
qed simp

text \<open>What a pass makes of one timer: it stays, or its callback returned 1 and it is gone.\<close>

lemma process_loop_one:
  "process_loop env now h ts = (ts', h') \<Longrightarrow> distinct (map event_call ts) \<Longrightarrow> e \<in> set ts \<Longrightarrow>
   left_after now e \<in> set ts'
   \<or> is_due now e \<and> (\<exists>k. env k (event_call e) = 1) \<and> event_call e \<notin> event_call ` set ts'"
proof (induction ts arbitrary: h ts' h')
  case (Cons te ts)
  obtain ret te1 h1 where p: "process_timer_event env now h te = (ret, te1, h1)" by (cases "process_timer_event env now h te") auto
  obtain ts1 where l: "process_loop env now h1 ts = (ts1, h')" "ts' = (if ret = 1 then ts1 else te1 # ts1)"
    using Cons.prems(1) p by (auto split: prod.splits)
  have te1: "te1 = left_after now te" "ret = 1 \<Longrightarrow> is_due now te \<and> (\<exists>k. env k (event_call te) = 1)"
    using p by (auto simp: process_event_eq left_after_def split: if_splits)
  show ?case
  proof (cases "e = te")
    case True
    have "event_call te \<notin> event_call ` set ts1" using process_loop_events [OF l(1)] Cons.prems(2) by auto
    with True l(2) te1 show ?thesis by auto
  next
    case False
    then have e: "e \<in> set ts" using Cons.prems(3) by simp
    have diff: "event_call e \<noteq> event_call te" using Cons.prems(2) imageI [OF e, of event_call] by fastforce
    have "event_call te1 \<noteq> event_call e" using diff te1(1) by simp
    with Cons.IH [OF l(1) _ e] Cons.prems(2) l(2) show ?thesis by auto
  qed
qed simp

lemma call_times_due:
  "distinct (map event_call ts) \<Longrightarrow> e \<in> set ts \<Longrightarrow> 0 \<notin> set nows \<Longrightarrow>
   (\<exists>k. call_times (event_call e) env h ts nows = take k (due_times (uint (m_interval e)) (m_last_event_time e) nows))
   \<and> ((\<forall>k. env k (event_call e) \<noteq> 1) \<longrightarrow>
        call_times (event_call e) env h ts nows = due_times (uint (m_interval e)) (m_last_event_time e) nows)"
proof (induction nows arbitrary: h ts e)
  case (Cons now nows)
  obtain ts1 h1 where p: "process_loop env now h ts = (ts1, h1)" by fastforce
  have "calls_since h h1 = map event_call (filter (is_due now) ts)"
    using process_loop_calls [OF p] by (auto simp: calls_since_def)
  moreover have "(\<exists>e' \<in> set ts. is_due now e' \<and> event_call e' = event_call e) \<longleftrightarrow> is_due now e"
    using Cons.prems(1,2) by (auto simp: distinct_map inj_on_def)
  ultimately have n: "count_list (calls_since h h1) (event_call e) = (if is_due now e then 1 else 0)"
    using count_due [OF Cons.prems(1), of "is_due now" e] by simp
  then have step: "call_times (event_call e) env h ts (now # nows)
      = (if is_due now e then [now] else []) @ call_times (event_call e) env h1 ts1 nows"
    using Cons.prems(3) p by (simp add: process_timer_nonzero)
  have due: "due_times (uint (m_interval e)) (m_last_event_time e) (now # nows)
      = (if is_due now e then [now] else []) @ due_times (uint (m_interval e)) (m_last_event_time (left_after now e)) nows"
    by (simp add: is_due_def left_after_def)
  have itv: "m_interval (left_after now e) = m_interval e" by (simp add: left_after_def)
  from process_loop_one [OF p Cons.prems(1,2)] show ?case
  proof
    assume kept: "left_after now e \<in> set ts1"
    have "distinct (map event_call ts1)" using process_loop_events [OF p] Cons.prems(1) by blast
    note ih = Cons.IH [OF this kept, of h1, unfolded event_call_left_after itv]
    have "0 \<notin> set nows" using Cons.prems(3) by simp
    from ih [OF this] obtain k where
      k: "call_times (event_call e) env h1 ts1 nows
          = take k (due_times (uint (m_interval e)) (m_last_event_time (left_after now e)) nows)"
      and eq: "(\<forall>k. env k (event_call e) \<noteq> 1) \<longrightarrow> call_times (event_call e) env h1 ts1 nows
          = due_times (uint (m_interval e)) (m_last_event_time (left_after now e)) nows" by blast
    show ?thesis unfolding step due
      by (intro conjI exI [of _ "k + (if is_due now e then 1 else 0)"]) (use k eq in auto)
  next
    assume gone: "is_due now e \<and> (\<exists>k. env k (event_call e) = 1) \<and> event_call e \<notin> event_call ` set ts1"
    then have "call_times (event_call e) env h1 ts1 nows = []" using Cons.prems(3) by (simp add: call_times_none)
    with gone show ?thesis unfolding step due by (intro conjI exI [of _ 1]) auto
  qed
qed simp

section \<open>Properties\<close>

text \<open>
  Whatever is added, removed, cleared and processed, in any order, the manager never
  holds more than 1000 timers, and every timer in it has a non-zero interval and a callback,
  so that no null callback is ever called and the comparison never takes its shortcut for
  invalid elements.
\<close>

lemma timer_run_valid:
  "length (fst (timer_run env [] h ops)) \<le> 1000 \<and> list_all is_valid (fst (timer_run env [] h ops))"
  using timer_run_ok [of "[]" env h ops] by (simp add: timers_ok_def max_time_event_count_def)

text \<open>
  C29: One pass at a given time calls exactly the callbacks of the timers that are due, in
  the order they were added and once each, keeps every timer that is not due as it is, and
  leaves only timers that are not due any more: a second pass at the same time calls nothing.
\<close>

theorem process_timer_pass:
  assumes "timers_ok ts" and "now \<noteq> 0" and "process_timer env h ts now = (r, ts', h')"
  shows "r = 0 \<and> calls_since h h' = map event_call (filter (is_due now) ts)
       \<and> (\<forall>te \<in> set ts. \<not> is_due now te \<longrightarrow> te \<in> set ts')
       \<and> snd (snd (process_timer env h' ts' now)) = h'"
proof -
  have l: "process_loop env now h ts = (ts', h')" and r: "r = 0"
    using assms(2,3) by (auto simp: process_timer_nonzero)
  from process_loop_calls [OF l] have calls: "calls_since h h' = map event_call (filter (is_due now) ts)"
    by (auto simp: calls_since_def)
  have "\<not> is_due now te'" if "te' \<in> set ts'" for te'
  proof -
    from process_loop_left [OF l that] obtain te where "te \<in> set ts" "te' = left_after now te" by blast
    with assms(1) left_after_not_due [of te now] show ?thesis by (simp add: timers_ok_def list_all_iff)
  qed
  then have none: "filter (is_due now) ts' = []" by (simp add: filter_empty_conv)
  obtain ts2 h2 where l2: "process_loop env now h' ts' = (ts2, h2)" by fastforce
  from process_loop_calls [OF l2] none have "h2 = h'" by auto
  with l2 r calls assms(2) process_loop_keeps [OF l] show ?thesis
    by (simp add: process_timer_nonzero)
qed

definition two_timers :: timer_list where
  "two_timers = [make_event 5 (Some 1) 10, make_event 100 (Some 2) 20]"

theorem process_timer_pass_witness:
  "calls_since [] (snd (snd (process_timer (\<lambda>_ _. 0) [] two_timers 7))) = [Timer_callback 1 10]"
proof -
  have "timers_ok two_timers"
    by (simp add: timers_ok_def two_timers_def make_event_def is_valid_def max_time_event_count_def)
  moreover obtain r ts' h' where p: "process_timer (\<lambda>_ _. 0) [] two_timers 7 = (r, ts', h')"
    by (cases "process_timer (\<lambda>_ _. 0) [] two_timers 7") auto
  ultimately have "calls_since [] h' = map event_call (filter (is_due 7) two_timers)"
    using process_timer_pass [of two_timers 7 "\<lambda>_ _. 0" "[]" r ts' h'] by simp
  with p show ?thesis
    by (simp add: two_timers_def make_event_def is_due_def event_call_def)
qed



text \<open>
  \<open>remove_timer\<close> removes exactly the timers with the given interval, callback and
  argument, all of them, and keeps the order of the others; it undoes an addition.
\<close>

lemma remove_timer_exact:
  assumes "timers_ok ts" and "itv \<noteq> 0"
  shows "remove_timer ts itv (Some cb) arg =
           (0, filter (\<lambda>e. \<not> (m_interval e = itv \<and> m_callback e = Some cb \<and> m_callback_arg e = arg)) ts)
       \<and> (length ts < 1000 \<longrightarrow>
            snd (remove_timer (snd (add_timer ts itv (Some cb) arg)) itv (Some cb) arg)
              = snd (remove_timer ts itv (Some cb) arg))"
proof -
  have valid: "is_valid (make_event itv (Some cb) arg)"
    using assms(2) by (simp add: is_valid_def make_event_def)
  have "filter (\<lambda>e. \<not> event_eq e (make_event itv (Some cb) arg)) ts =
        filter (\<lambda>e. \<not> (m_interval e = itv \<and> m_callback e = Some cb \<and> m_callback_arg e = arg)) ts"
    using assms(1) by (intro filter_cong) (auto simp: timers_ok_def list_all_iff event_eq_def make_event_def)
  moreover have "event_eq (make_event itv (Some cb) arg) (make_event itv (Some cb) arg)"
    by (simp add: event_eq_def)
  ultimately show ?thesis
    using valid by (simp add: remove_timer_def add_timer_def Let_def max_time_event_count_def)
qed

lemma remove_timer_exact_witness:
  "remove_timer two_timers 5 (Some 1) 10 = (0, [make_event 100 (Some 2) 20])"
proof -
  have "timers_ok two_timers"
    by (simp add: timers_ok_def two_timers_def make_event_def is_valid_def max_time_event_count_def)
  from remove_timer_exact [OF this, of 5 1 10] show ?thesis
    by (simp add: two_timers_def make_event_def)
qed

text \<open>
  The inequality operator of \<open>TimerEvent\<close> calls itself instead of the equality
  operator: it returns for no two events.
\<close>

lemma event_ne_never_returns: "event_ne te rhs = None"
proof -
  have False if "event_ne te rhs = Some r" for r
    by (rule event_ne.raw_induct [where P = "\<lambda>_ _ _. False", OF _ that]) (auto simp: bind_eq_Some_conv)
  then show ?thesis by (cases "event_ne te rhs") auto
qed

end
