(* ===== verification/Timer_Reentrant.thy ===== *)
theory Timer_Reentrant
  imports Timer
begin

text \<open>
  \<open>TimerManager::process_timer\<close> of \<open>timer.cpp\<close> when callbacks call the manager. The list is a
  \<open>std::list\<close>: a node stays where it is until it is erased, and the loop holds an iterator to a node. The
  operations a callback performs, and what it returns, are its environment's answer. Using
  a node that has been erased is the fault \<open>UseAfterFree\<close>, and a pass that does not end is \<open>None\<close>. Callbacks
  that call \<open>process_timer\<close> itself are in \<open>Timer_Nested\<close>.
\<close>

section \<open>Nodes\<close>

datatype cb_op =
    Cb_add u32 "nat option" nat
  | Cb_remove u32 "nat option" nat
  | Cb_clear

record cb_answer =
  cb_ops :: "cb_op list"
  cb_ret :: int

type_synonym cb_env = "(timer_call, cb_answer) env"
type_synonym cb_history = "(timer_call, cb_answer) history"

text \<open>Nodes are numbered in the order of their creation.\<close>

record timer_nodes =
  nodes :: "(nat \<times> timer_event) list"
  next_node :: nat

definition nodes_ok :: "timer_nodes \<Rightarrow> bool" where
  "nodes_ok st \<longleftrightarrow> distinct (map fst (nodes st)) \<and> (\<forall>k \<in> fst ` set (nodes st). k < next_node st)
     \<and> timers_ok (map snd (nodes st))"

fun cb_apply :: "timer_nodes \<Rightarrow> cb_op \<Rightarrow> timer_nodes" where
  "cb_apply st (Cb_add itv cb arg) =
     (if length (nodes st) \<ge> max_time_event_count \<or> \<not> is_valid (make_event itv cb arg) then st
      else st\<lparr>nodes := nodes st @ [(next_node st, make_event itv cb arg)], next_node := Suc (next_node st)\<rparr>)"
| "cb_apply st (Cb_remove itv cb arg) =
     (if \<not> is_valid (make_event itv cb arg) then st
      else st\<lparr>nodes := filter (\<lambda>n. \<not> event_eq (snd n) (make_event itv cb arg)) (nodes st)\<rparr>)"
| "cb_apply st Cb_clear = st\<lparr>nodes := []\<rparr>"

definition cb_run :: "timer_nodes \<Rightarrow> cb_op list \<Rightarrow> timer_nodes" where
  "cb_run st ops = foldl cb_apply st ops"

definition set_time :: "nat \<Rightarrow> int \<Rightarrow> (nat \<times> timer_event) list \<Rightarrow> (nat \<times> timer_event) list" where
  "set_time k now ns = map (\<lambda>n. if fst n = k then (k, (snd n)\<lparr>m_last_event_time := now\<rparr>) else n) ns"

text \<open>The loop. After the callback the time is stored in the node, whether or not the node is still there.\<close>

partial_function (option) process_nodes ::
  "cb_env \<Rightarrow> int \<Rightarrow> cb_history \<Rightarrow> timer_nodes \<Rightarrow> nat option \<Rightarrow> (fault + timer_nodes \<times> cb_history) option" where
  "process_nodes env now h st it =
     (case it of None \<Rightarrow> Some (Inr (st, h))
      | Some k \<Rightarrow>
         (case map_of (nodes st) k of None \<Rightarrow> Some (Inl UseAfterFree)
          | Some te \<Rightarrow>
             if \<not> is_due now te then process_nodes env now h st (node_behind k (nodes st))
             else let (a, h1) = invoke env h (event_call te); st1 = cb_run st (cb_ops a)
                  in if map_of (nodes st1) k = None then Some (Inl UseAfterFree)
                     else let ns = set_time k now (nodes st1)
                          in process_nodes env now h1
                               (st1\<lparr>nodes := (if cb_ret a = 1 then erase_node k ns else ns)\<rparr>) (node_behind k ns)))"

definition process_timer_nodes :: "cb_env \<Rightarrow> int \<Rightarrow> cb_history \<Rightarrow> timer_nodes \<Rightarrow> (fault + timer_nodes \<times> cb_history) option" where
  "process_timer_nodes env now h st = process_nodes env now h st (first_node (nodes st))"

section \<open>A step of the loop\<close>

lemma set_time_other: "k \<notin> fst ` set ns \<Longrightarrow> set_time k now ns = ns"
  by (induction ns) (auto simp: set_time_def)

lemma set_time_split:
  assumes "distinct (map fst (bs @ (k, te) # rest))"
  shows "set_time k now (bs @ (k, te) # rest) = bs @ (k, te\<lparr>m_last_event_time := now\<rparr>) # rest"
    and "erase_node k (bs @ (k, te) # rest) = bs @ rest"
proof -
  have "set_time k now bs = bs" "set_time k now rest = rest" "erase_node k bs = bs" "erase_node k rest = rest"
    using assms by (auto intro!: set_time_other erase_node_other)
  then show "set_time k now (bs @ (k, te) # rest) = bs @ (k, te\<lparr>m_last_event_time := now\<rparr>) # rest"
    and "erase_node k (bs @ (k, te) # rest) = bs @ rest"
    by (simp_all add: set_time_def erase_node_def)
qed

lemma process_end: "process_nodes env now h st None = Some (Inr (st, h))"
  by (simp add: process_nodes.simps)

lemma process_not_due:
  assumes "nodes st = bs @ (k, te) # rest" and "k \<notin> fst ` set bs" and "\<not> is_due now te"
  shows "process_nodes env now h st (Some k) = process_nodes env now h st (first_node rest)"
proof -
  have "map_of (nodes st) k = Some te" "node_behind k (nodes st) = first_node rest"
    unfolding assms(1) by (rule map_of_split [OF assms(2)], rule node_behind_split [OF assms(2)])
  then show ?thesis by (subst process_nodes.simps) (simp add: assms(3))
qed

lemma process_due:
  assumes "nodes st = bs @ (k, te) # rest" and "k \<notin> fst ` set bs" and "is_due now te"
    and "cb_run st (cb_ops (env h (event_call te))) = st1"
    and "nodes st1 = bs1 @ (k, te1) # rest1" and "distinct (map fst (nodes st1))"
  shows "process_nodes env now h st (Some k) =
    process_nodes env now (h @ [(event_call te, env h (event_call te))])
      (st1\<lparr>nodes := (if cb_ret (env h (event_call te)) = 1 then bs1 @ rest1
                      else bs1 @ (k, te1\<lparr>m_last_event_time := now\<rparr>) # rest1)\<rparr>) (first_node rest1)"
proof -
  have k1: "k \<notin> fst ` set bs1" and d: "distinct (map fst (bs1 @ (k, te1) # rest1))" using assms(5,6) by auto
  have d2: "distinct (map fst (bs1 @ (k, te1\<lparr>m_last_event_time := now\<rparr>) # rest1))" using d by simp
  have "map_of (nodes st) k = Some te" unfolding assms(1) by (rule map_of_split [OF assms(2)])
  moreover have "map_of (nodes st1) k = Some te1" unfolding assms(5) by (rule map_of_split [OF k1])
  moreover have "set_time k now (nodes st1) = bs1 @ (k, te1\<lparr>m_last_event_time := now\<rparr>) # rest1"
    unfolding assms(5) by (rule set_time_split(1) [OF d])
  ultimately show ?thesis
    by (subst process_nodes.simps)
      (simp add: assms(3,4) set_time_split(2) [OF d2] node_behind_split [OF k1] invoke_def Let_def)
qed

lemma process_erased:
  assumes "nodes st = bs @ (k, te) # rest" and "k \<notin> fst ` set bs" and "is_due now te"
    and "k \<notin> fst ` set (nodes (cb_run st (cb_ops (env h (event_call te)))))"
  shows "process_nodes env now h st (Some k) = Some (Inl UseAfterFree)"
proof -
  have "map_of (nodes st) k = Some te" unfolding assms(1) by (rule map_of_split [OF assms(2)])
  moreover have "map_of (nodes (cb_run st (cb_ops (env h (event_call te))))) k = None"
    using assms(4) by (simp add: map_of_eq_None_iff)
  ultimately show ?thesis by (subst process_nodes.simps) (simp add: assms(3) invoke_def Let_def)
qed

section \<open>Callbacks that do not call the manager\<close>

definition plain_history :: "cb_history \<Rightarrow> timer_history" where
  "plain_history h = map (\<lambda>(c, a). (c, cb_ret a)) h"

definition plain_env :: "timer_env \<Rightarrow> cb_env" where
  "plain_env env h c = \<lparr>cb_ops = [], cb_ret = env (plain_history h) c\<rparr>"

lemma cb_run_Nil [simp]: "cb_run st [] = st"
  by (simp add: cb_run_def)

lemma process_plain:
  assumes "nodes st = bs @ rest" and "distinct (map fst (bs @ rest))"
  shows "\<exists>rest' h'. process_nodes (plain_env env) now h st (first_node rest) = Some (Inr (st\<lparr>nodes := bs @ rest'\<rparr>, h'))
    \<and> process_loop env now (plain_history h) (map snd rest) = (map snd rest', plain_history h')"
  using assms
proof (induction rest arbitrary: bs h st)
  case Nil
  then show ?case by (intro exI [of _ "[]"] exI [of _ h]) (simp add: process_end)
next
  case (Cons n rest)
  obtain k te where n: "n = (k, te)" by fastforce
  have k: "k \<notin> fst ` set bs" and d: "distinct (map fst (bs @ rest))" using Cons.prems(2) n by auto
  show ?case
  proof (cases "is_due now te")
    case False
    have "nodes st = (bs @ [n]) @ rest" "distinct (map fst ((bs @ [n]) @ rest))" using Cons.prems by simp_all
    from Cons.IH [OF this, of h] obtain rest' h' where
      "process_nodes (plain_env env) now h st (first_node rest) = Some (Inr (st\<lparr>nodes := (bs @ [n]) @ rest'\<rparr>, h'))"
      "process_loop env now (plain_history h) (map snd rest) = (map snd rest', plain_history h')" by blast
    then show ?thesis
      using process_not_due [of st bs k te rest now, OF _ k False] Cons.prems(1) n False
      by (intro exI [of _ "n # rest'"] exI [of _ h']) (simp add: process_event_eq)
  next
    case True
    let ?a = "plain_env env h (event_call te)"
    let ?h1 = "h @ [(event_call te, ?a)]" and ?te = "te\<lparr>m_last_event_time := now\<rparr>"
    let ?bs = "if cb_ret ?a = 1 then bs else bs @ [(k, ?te)]"
    let ?st = "st\<lparr>nodes := ?bs @ rest\<rparr>"
    have step: "process_nodes (plain_env env) now h st (Some k) = process_nodes (plain_env env) now ?h1 ?st (first_node rest)"
      using process_due [of st bs k te rest now "plain_env env" h st bs te rest] Cons.prems n k True
      by (auto simp: plain_env_def)
    have "distinct (map fst (?bs @ rest))" using Cons.prems(2) n by simp
    from Cons.IH [of ?st ?bs ?h1, OF _ this] obtain rest' h' where
      r: "process_nodes (plain_env env) now ?h1 ?st (first_node rest) = Some (Inr (?st\<lparr>nodes := ?bs @ rest'\<rparr>, h'))"
      "process_loop env now (plain_history ?h1) (map snd rest) = (map snd rest', plain_history h')" by auto
    have h1: "plain_history ?h1 = plain_history h @ [(event_call te, cb_ret ?a)]" "cb_ret ?a = env (plain_history h) (event_call te)"
      by (simp_all add: plain_history_def plain_env_def)
    show ?thesis
      by (intro exI [of _ "if cb_ret ?a = 1 then rest' else (k, ?te) # rest'"] exI [of _ h'])
        (use step r True n h1 in \<open>simp add: process_event_eq\<close>)
  qed
qed

section \<open>Considerate callbacks\<close>

text \<open>A callback does not remove its own timer, other than by returning 1, and does not clear the list.\<close>

definition spares :: "timer_call \<Rightarrow> cb_op \<Rightarrow> bool" where
  "spares c p = (case p of Cb_add itv cb arg \<Rightarrow> True | Cb_clear \<Rightarrow> False
     | Cb_remove itv cb arg \<Rightarrow> c \<noteq> Timer_callback (the cb) arg)"

fun is_add :: "cb_op \<Rightarrow> bool" where
  "is_add (Cb_add itv cb arg) = True"
| "is_add _ = False"

lemma event_call_eq: "is_valid te \<Longrightarrow> event_eq te (make_event itv cb arg) \<Longrightarrow> event_call te = Timer_callback (the cb) arg"
  by (auto simp: event_eq_def make_event_def event_call_def)

lemma cb_apply_ok:
  assumes "nodes_ok st" and "nodes st = bs @ (k, te) # rest" and "spares (event_call te) p"
  obtains bs1 rest1 where "nodes_ok (cb_apply st p)" and "nodes (cb_apply st p) = bs1 @ (k, te) # rest1"
    and "\<not> is_add p \<Longrightarrow> length rest1 \<le> length rest"
    and "is_add p \<Longrightarrow> length bs1 = length bs" and "set bs1 \<subseteq> set bs"
proof (cases p)
  case (Cb_add itv cb arg)
  let ?new = "if length (nodes st) \<ge> max_time_event_count \<or> \<not> is_valid (make_event itv cb arg) then []
    else [(next_node st, make_event itv cb arg)]"
  have "nodes_ok (cb_apply st p)"
    using assms(1) by (auto simp: Cb_add nodes_ok_def timers_ok_def)
  then show ?thesis
    using assms(2) Cb_add by (intro that [of bs "rest @ ?new"]) auto
next
  case (Cb_remove itv cb arg)
  let ?e = "make_event itv cb arg"
  let ?keep = "filter (\<lambda>n. \<not> is_valid ?e \<or> \<not> event_eq (snd n) ?e)"
  have "is_valid te" using assms(1,2) by (simp add: nodes_ok_def timers_ok_def list_all_iff)
  then have te: "\<not> event_eq te ?e" using event_call_eq assms(3) by (auto simp: spares_def Cb_remove)
  have "nodes (cb_apply st p) = ?keep (nodes st)" by (simp add: Cb_remove)
  then have eq: "nodes (cb_apply st p) = ?keep bs @ (k, te) # ?keep rest" using assms(2) te by simp
  have "nodes_ok (cb_apply st p)"
    using assms(1) by (auto simp: Cb_remove nodes_ok_def timers_ok_def list_all_iff distinct_map_filter
        intro: le_trans [OF length_filter_le])
  then show ?thesis using eq Cb_remove by (intro that [of "?keep bs" "?keep rest"]) (auto simp: length_filter_le)
next
  case Cb_clear
  then show ?thesis using assms(3) by (simp add: spares_def)
qed

lemma cb_run_ok:
  assumes "nodes_ok st" and "nodes st = bs @ (k, te) # rest" and "list_all (spares (event_call te)) ops"
  shows "\<exists>bs1 rest1. nodes_ok (cb_run st ops) \<and> nodes (cb_run st ops) = bs1 @ (k, te) # rest1
    \<and> (list_all (\<lambda>p. \<not> is_add p) ops \<longrightarrow> length rest1 \<le> length rest)
    \<and> (list_all is_add ops \<longrightarrow> length bs1 = length bs) \<and> set bs1 \<subseteq> set bs"
  using assms
proof (induction ops arbitrary: st bs rest)
  case Nil
  then show ?case by auto
next
  case (Cons p ops)
  obtain bs1 rest1 where 1: "nodes_ok (cb_apply st p)" "nodes (cb_apply st p) = bs1 @ (k, te) # rest1"
    "\<not> is_add p \<Longrightarrow> length rest1 \<le> length rest" "is_add p \<Longrightarrow> length bs1 = length bs" "set bs1 \<subseteq> set bs"
    by (rule cb_apply_ok [OF Cons.prems(1,2), of p]) (use Cons.prems(3) in auto)
  have "cb_run st (p # ops) = cb_run (cb_apply st p) ops" by (simp add: cb_run_def)
  moreover have "list_all (spares (event_call te)) ops" using Cons.prems(3) by simp
  ultimately show ?case using Cons.IH [OF 1(1,2)] 1(3-5) by fastforce
qed


text \<open>
  Either no callback adds a timer, or none removes one: in the first case the rest of the list gets shorter,
  in the second its beginning longer, up to the limit of the manager.
\<close>

definition callbacks_end :: "bool \<Rightarrow> cb_env \<Rightarrow> bool" where
  "callbacks_end adding env \<longleftrightarrow> (\<forall>h c. let a = env h c in list_all (spares c) (cb_ops a)
     \<and> (if adding then list_all is_add (cb_ops a) \<and> cb_ret a \<noteq> 1 else list_all (\<lambda>p. \<not> is_add p) (cb_ops a)))"

definition still_to_do :: "bool \<Rightarrow> (nat \<times> timer_event) list \<Rightarrow> (nat \<times> timer_event) list \<Rightarrow> nat" where
  "still_to_do adding bs rest = (if adding then max_time_event_count - length bs else length rest)"

lemma nodes_ok_visited:
  assumes "nodes_ok st" and "nodes st = bs @ (k, te) # rest"
  shows "nodes_ok (st\<lparr>nodes := bs @ rest\<rparr>)" and "nodes_ok (st\<lparr>nodes := bs @ (k, te\<lparr>m_last_event_time := now\<rparr>) # rest\<rparr>)"
  using assms by (auto simp: nodes_ok_def timers_ok_def)

lemma process_returns:
  assumes "callbacks_end adding env" and "nodes_ok st" and "nodes st = bs @ rest" and "\<forall>n \<in> set bs. \<not> is_due now (snd n)"
  shows "\<exists>st' h'. process_nodes env now h st (first_node rest) = Some (Inr (st', h')) \<and> nodes_ok st'
    \<and> (\<forall>n \<in> set (nodes st'). \<not> is_due now (snd n))"
  using assms(2-4)
proof (induction "still_to_do adding bs rest" arbitrary: st bs rest h rule: less_induct)
  case less
  show ?case
  proof (cases rest)
    case Nil
    then show ?thesis using less.prems by (auto simp: process_end)
  next
    case (Cons n rest2)
    obtain k te where n: "n = (k, te)" by fastforce
    then have st: "nodes st = bs @ (k, te) # rest2" using less.prems(2) Cons by simp
    have k: "k \<notin> fst ` set bs" and len: "length bs < max_time_event_count"
      using less.prems(1) st by (auto simp: nodes_ok_def timers_ok_def)
    show ?thesis
    proof (cases "is_due now te")
      case False
      have "still_to_do adding (bs @ [(k, te)]) rest2 < still_to_do adding bs rest"
        using len Cons by (auto simp: still_to_do_def)
      from less.hyps [OF this less.prems(1)] less.prems(3) st False
      show ?thesis using process_not_due [OF st k False] Cons n by auto
    next
      case True
      let ?a = "env h (event_call te)"
      have sp: "list_all (spares (event_call te)) (cb_ops ?a)"
        and ends: "if adding then list_all is_add (cb_ops ?a) \<and> cb_ret ?a \<noteq> 1 else list_all (\<lambda>p. \<not> is_add p) (cb_ops ?a)"
        using assms(1) by (simp_all add: callbacks_end_def Let_def)
      define st1 where "st1 = cb_run st (cb_ops ?a)"
      obtain bs1 rest1 where ok1: "nodes_ok st1" and st1: "nodes st1 = bs1 @ (k, te) # rest1"
        and l1: "list_all (\<lambda>p. \<not> is_add p) (cb_ops ?a) \<longrightarrow> length rest1 \<le> length rest2"
        and l2: "list_all is_add (cb_ops ?a) \<longrightarrow> length bs1 = length bs" and sub: "set bs1 \<subseteq> set bs"
        using cb_run_ok [OF less.prems(1) st sp] unfolding st1_def by blast
      let ?bs = "if cb_ret ?a = 1 then bs1 else bs1 @ [(k, te\<lparr>m_last_event_time := now\<rparr>)]"
      let ?st = "st1\<lparr>nodes := ?bs @ rest1\<rparr>"
      have "distinct (map fst (nodes st1))" using ok1 by (simp add: nodes_ok_def)
      from process_due [of st bs k te rest2 now env h st1 bs1 te rest1, OF st k True st1_def [symmetric] st1 this]
      have step: "process_nodes env now h st (Some k)
          = process_nodes env now (h @ [(event_call te, ?a)]) ?st (first_node rest1)" by simp
      have "still_to_do adding ?bs rest1 < still_to_do adding bs rest"
        using ends l1 l2 len Cons by (auto simp: still_to_do_def)
      moreover have "nodes_ok ?st" using nodes_ok_visited [OF ok1 st1] by simp
      moreover have "\<forall>n \<in> set ?bs. \<not> is_due now (snd n)"
      proof -
        have "is_valid te" using less.prems(1) st by (simp add: nodes_ok_def timers_ok_def)
        then have "0 < uint (m_interval te)" by (rule valid_interval)
        then show ?thesis using sub less.prems(3) by (auto simp: is_due_def)
      qed
      ultimately show ?thesis using less.hyps [of ?bs rest1 ?st "h @ [(event_call te, ?a)]"] step Cons n by auto
    qed
  qed
qed

section \<open>Callbacks that are not\<close>

text \<open>A timer that removes itself with \<open>remove_timer\<close>, and one that is to run once and adds itself again.\<close>

definition removes_itself :: "timer_event \<Rightarrow> cb_env" where
  "removes_itself te h c = \<lparr>cb_ops = [Cb_remove (m_interval te) (m_callback te) (m_callback_arg te)], cb_ret = 0\<rparr>"

definition adds_itself :: "timer_event \<Rightarrow> cb_env" where
  "adds_itself te h c = \<lparr>cb_ops = [Cb_add (m_interval te) (m_callback te) (m_callback_arg te)], cb_ret = 1\<rparr>"

lemma process_self_removal:
  assumes "nodes_ok st" and "nodes st = (k, te) # rest" and "is_due now te"
  shows "process_timer_nodes (removes_itself te) now h st = Some (Inl UseAfterFree)"
proof -
  have "is_valid te" using assms(1,2) by (simp add: nodes_ok_def timers_ok_def)
  then have "event_eq te (make_event (m_interval te) (m_callback te) (m_callback_arg te))"
    "is_valid (make_event (m_interval te) (m_callback te) (m_callback_arg te))"
    by (simp_all add: event_eq_def make_event_def is_valid_def)
  moreover have "k \<notin> fst ` set rest" using assms(1,2) by (simp add: nodes_ok_def)
  ultimately have "k \<notin> fst ` set (nodes (cb_run st (cb_ops (removes_itself te h (event_call te)))))"
    using assms(2) by (auto simp: cb_run_def removes_itself_def)
  from process_erased [of st "[]" k te rest now "removes_itself te" h, OF _ _ assms(3) this] assms(2)
  show ?thesis by (simp add: process_timer_nodes_def)
qed

text \<open>Each node is erased, and the one added meanwhile is due, since it has not run before.\<close>

lemma process_rearming:
  assumes "is_valid te" and "uint (m_interval te) \<le> now" and "is_due now te" and "nodes st = [(k, te)]" and "k < next_node st"
  shows "process_timer_nodes (adds_itself te) now h st = None"
proof -
  let ?new = "make_event (m_interval te) (m_callback te) (m_callback_arg te)"
  have new: "is_valid ?new" "is_due now ?new" using assms(1,2) by (simp_all add: is_valid_def make_event_def is_due_def)
  have run: "cb_run st' [Cb_add (m_interval te) (m_callback te) (m_callback_arg te)]
      = st'\<lparr>nodes := [(k', te'), (next_node st', ?new)], next_node := Suc (next_node st')\<rparr>"
    if "nodes st' = [(k', te')]" for st' k' te'
    using that new(1) by (simp add: cb_run_def max_time_event_count_def)
  let ?P = "\<lambda>e t s i. e = adds_itself te \<and> t = now \<and> (\<exists>k te'. i = Some k \<and> nodes s = [(k, te')] \<and> is_due now te' \<and> k < next_node s)"
  have "\<not> ?P e t s i" if "process_nodes e t h' s i = Some r" for e t h' s i r
  proof (rule process_nodes.raw_induct [where P = "\<lambda>e t h' s i r. \<not> ?P e t s i", OF _ that], goal_cases)
    case (1 f e t h s i r)
    show ?case
    proof (rule notI, elim conjE exE)
      fix k te' assume e: "e = adds_itself te" "t = now" "i = Some k" "nodes s = [(k, te')]" "is_due now te'" "k < next_node s"
      let ?s = "s\<lparr>next_node := Suc (next_node s), nodes := [(next_node s, ?new)]\<rparr>"
      have "f (adds_itself te) now (h @ [(event_call te', adds_itself te h (event_call te'))]) ?s (Some (next_node s)) = Some r"
        using 1(2) e(1-3,5,6) run [OF e(4)] e(4)
        by (simp add: invoke_def Let_def set_time_def erase_node_def adds_itself_def)
      from 1(1) [OF this] new(2) show False by simp
    qed
  qed
  from this [of "adds_itself te" now h st "Some k"] assms(3-5) show ?thesis
    by (cases "process_timer_nodes (adds_itself te) now h st") (auto simp: process_timer_nodes_def)
qed

section \<open>Properties\<close>

text \<open>
  When no callback calls the manager, a pass over the nodes of the list, with its iterator, returns without a fault
  and does what \<open>process_timer\<close> of \<open>Timer\<close> does: the same calls in the same order, and the same timers left.
\<close>

lemma process_nodes_refines:
  assumes "nodes_ok st"
  shows "\<exists>ns' h'. process_timer_nodes (plain_env env) now h st = Some (Inr (st\<lparr>nodes := ns'\<rparr>, h'))
    \<and> process_loop env now (plain_history h) (map snd (nodes st)) = (map snd ns', plain_history h')"
  using process_plain [of st "[]" "nodes st"] assms by (simp add: process_timer_nodes_def nodes_ok_def)

text \<open>Two timers, the second not due at 20.\<close>

definition sample_nodes :: timer_nodes where
  "sample_nodes = \<lparr>nodes = [(0, make_event 5 (Some 7) 1), (1, (make_event 9 (Some 8) 2)\<lparr>m_last_event_time := 15\<rparr>)], next_node = 2\<rparr>"

lemma sample_nodes_ok: "nodes_ok sample_nodes"
  by (simp add: sample_nodes_def nodes_ok_def timers_ok_def is_valid_def make_event_def max_time_event_count_def)

lemma process_nodes_refines_witness:
  "\<exists>ns' h'. process_timer_nodes (plain_env (\<lambda>h c. 1)) 20 [] sample_nodes = Some (Inr (sample_nodes\<lparr>nodes := ns'\<rparr>, h'))
     \<and> process_loop (\<lambda>h c. 1) 20 [] (map snd (nodes sample_nodes)) = (map snd ns', plain_history h')"
  using process_nodes_refines [OF sample_nodes_ok, of "\<lambda>h c. 1" 20 "[]"] by (simp add: plain_history_def)

text \<open>
  C15: Callbacks may call the manager as long as none clears the list or removes the timer it was called for
  (other than by returning 1), and one of two things holds: no callback adds a timer; or no callback
  removes one and none returns 1. Then a pass returns, uses no erased
  node, leaves at most the allowed number of valid timers, and none of them is due, those added meanwhile included.
  Callbacks of which some add timers and some return 1 are left out: two that add each other and return 1
  keep a pass going for ever, as does one that adds itself (\<open>inconsiderate_callbacks\<close>).
\<close>

theorem considerate_callbacks:
  assumes "callbacks_end adding env" and "nodes_ok st"
  shows "\<exists>st' h'. process_timer_nodes env now h st = Some (Inr (st', h')) \<and> timers_ok (map snd (nodes st'))
    \<and> (\<forall>n \<in> set (nodes st'). \<not> is_due now (snd n))"
  using process_returns [OF assms, of "[]" "nodes st" now h] by (auto simp: process_timer_nodes_def nodes_ok_def)

text \<open>A callback that adds another timer whenever it is called.\<close>

theorem considerate_callbacks_witness:
  "\<exists>st' h'. process_timer_nodes (\<lambda>h c. \<lparr>cb_ops = [Cb_add 3 (Some 9) 0], cb_ret = 0\<rparr>) 20 [] sample_nodes = Some (Inr (st', h'))
    \<and> length (nodes st') \<le> 1000"
proof -
  have "callbacks_end True (\<lambda>h c. \<lparr>cb_ops = [Cb_add 3 (Some 9) 0], cb_ret = 0\<rparr>)"
    by (simp add: callbacks_end_def spares_def)
  from considerate_callbacks [OF this sample_nodes_ok, of 20 "[]"] show ?thesis
    by (auto simp: timers_ok_def max_time_event_count_def)
qed

text \<open>
  A callback that removes its own timer makes the loop store the time in a node that has been
  erased. A timer that is to run once (its callback returns 1) and adds itself again for the next time is
  called for ever in one pass: a new timer has never run, so it is due at once.
\<close>

lemma inconsiderate_callbacks:
  assumes "nodes_ok st" and "nodes st = [(k, te)]" and "is_due now te" and "uint (m_interval te) \<le> now"
  shows "process_timer_nodes (removes_itself te) now h st = Some (Inl UseAfterFree)
    \<and> process_timer_nodes (adds_itself te) now h st = None"
proof
  show "process_timer_nodes (removes_itself te) now h st = Some (Inl UseAfterFree)"
    using process_self_removal [OF assms(1) _ assms(3)] assms(2) by simp
  have "is_valid te" "k < next_node st" using assms(1,2) by (simp_all add: nodes_ok_def timers_ok_def)
  then show "process_timer_nodes (adds_itself te) now h st = None" using process_rearming assms(2-4) by simp
qed

lemma inconsiderate_callbacks_witness:
  "process_timer_nodes (adds_itself (make_event 5 (Some 7) 1)) 20 [] \<lparr>nodes = [(0, make_event 5 (Some 7) 1)], next_node = 1\<rparr> = None"
proof -
  have "nodes_ok \<lparr>nodes = [(0, make_event 5 (Some 7) 1)], next_node = 1\<rparr>"
    by (simp add: nodes_ok_def timers_ok_def is_valid_def make_event_def max_time_event_count_def)
  from inconsiderate_callbacks [OF this, of 0 "make_event 5 (Some 7) 1" 20 "[]"] show ?thesis
    by (simp add: is_due_def make_event_def)
qed

end
