(* ===== verification/Timer_Nested.thy ===== *)
theory Timer_Nested
  imports Timer_Reentrant
begin

text \<open>
  \<open>TimerManager::process_timer\<close> of \<open>timer.cpp\<close> when a callback may also call \<open>process_timer\<close> itself, so
  that passes over the list run inside each other. The calls in progress are a stack of frames: a pass
  at its iterator, or a timer whose callback has operations left to perform. Nodes, operations on
  the list and faults are those of \<open>Timer_Reentrant\<close>, which this refines.
\<close>

section \<open>Frames\<close>

datatype nest_op = Nest_op cb_op | Nest_process int

record nest_answer =
  nest_ops :: "nest_op list"
  nest_ret :: int

type_synonym nest_env = "(timer_call, nest_answer) env"
type_synonym nest_history = "(timer_call, nest_answer) history"

text \<open>A pass at time \<open>now\<close> with its iterator; in it, the callback of a node, with what it has left to do.\<close>

datatype timer_frame = Pass int "nat option" | Callback int nat "nest_op list" int

fun nest_step ::
  "nest_env \<Rightarrow> nest_history \<Rightarrow> timer_nodes \<Rightarrow> timer_frame \<Rightarrow> fault + timer_nodes \<times> nest_history \<times> timer_frame list" where
  "nest_step env h st (Pass now None) = Inr (st, h, [])"
| "nest_step env h st (Pass now (Some k)) =
     (case map_of (nodes st) k of None \<Rightarrow> Inl UseAfterFree
      | Some te \<Rightarrow>
          if \<not> is_due now te then Inr (st, h, [Pass now (node_behind k (nodes st))])
          else let (a, h1) = invoke env h (event_call te) in Inr (st, h1, [Callback now k (nest_ops a) (nest_ret a)]))"
| "nest_step env h st (Callback now k (Nest_op p # ops) ret) = Inr (cb_apply st p, h, [Callback now k ops ret])"
| "nest_step env h st (Callback now k (Nest_process now0 # ops) ret) =
     (let (now1, h1) = (if now0 = 0 then let (a, h1) = invoke env h Time_now in (nest_ret a, h1) else (now0, h))
      in Inr (st, h1, [Pass now1 (first_node (nodes st)), Callback now k ops ret]))"
| "nest_step env h st (Callback now k [] ret) =
     (if map_of (nodes st) k = None then Inl UseAfterFree
      else let ns = set_time k now (nodes st)
           in Inr (st\<lparr>nodes := (if ret = 1 then erase_node k ns else ns)\<rparr>, h, [Pass now (node_behind k ns)]))"

partial_function (option) nest_run ::
  "nest_env \<Rightarrow> timer_frame list \<Rightarrow> timer_nodes \<Rightarrow> nest_history \<Rightarrow> (fault + timer_nodes \<times> nest_history) option" where
  "nest_run env fs st h =
     (case fs of [] \<Rightarrow> Some (Inr (st, h))
      | f # gs \<Rightarrow>
         (case nest_step env h st f of
            Inl e \<Rightarrow> Some (Inl e)
          | Inr (st1, h1, new) \<Rightarrow> nest_run env (new @ gs) st1 h1))"

definition process_timer_nested ::
  "nest_env \<Rightarrow> int \<Rightarrow> nest_history \<Rightarrow> timer_nodes \<Rightarrow> (fault + timer_nodes \<times> nest_history) option" where
  "process_timer_nested env now h st = nest_run env [Pass now (first_node (nodes st))] st h"

lemma nest_run_end [simp]: "nest_run env [] st h = Some (Inr (st, h))"
  by (simp add: nest_run.simps)

lemma nest_run_fault: "nest_step env h st f = Inl e \<Longrightarrow> nest_run env (f # fs) st h = Some (Inl e)"
  by (simp add: nest_run.simps)

lemma nest_run_step: "nest_step env h st f = Inr (st1, h1, gs) \<Longrightarrow> nest_run env (f # fs) st h = nest_run env (gs @ fs) st1 h1"
  by (simp add: nest_run.simps)

section \<open>Callbacks without nested passes\<close>

fun op_within :: "nest_op \<Rightarrow> cb_op" where
  "op_within (Nest_op p) = p"
| "op_within (Nest_process now) = Cb_clear"

definition flat_history :: "nest_history \<Rightarrow> cb_history" where
  "flat_history h = map (\<lambda>(c, a). (c, \<lparr>cb_ops = map op_within (nest_ops a), cb_ret = nest_ret a\<rparr>)) h"

definition nest_env_of :: "cb_env \<Rightarrow> nest_env" where
  "nest_env_of env h c = (let a = env (flat_history h) c in \<lparr>nest_ops = map Nest_op (cb_ops a), nest_ret = cb_ret a\<rparr>)"

definition flat_result :: "fault + timer_nodes \<times> nest_history \<Rightarrow> fault + timer_nodes \<times> cb_history" where
  "flat_result r = (case r of Inl e \<Rightarrow> Inl e | Inr (st, h) \<Rightarrow> Inr (st, flat_history h))"

lemma flat_result_simps [simp]:
  "flat_result (Inl e) = Inl e"
  "flat_result (Inr (st, h)) = Inr (st, flat_history h)"
  by (simp_all add: flat_result_def)

lemma flat_result_Inl [simp]: "flat_result r = Inl e \<longleftrightarrow> r = Inl e"
  by (cases r) (auto simp: flat_result_def)

lemma op_within_of [simp]: "op_within \<circ> Nest_op = id"
  by (simp add: fun_eq_iff)

lemma flat_history_snoc:
  "flat_history (h @ [(c, nest_env_of env h c)]) = flat_history h @ [(c, env (flat_history h) c)]"
  by (simp add: flat_history_def nest_env_of_def Let_def)

text \<open>What the loop does once the callback of a node has returned.\<close>

definition after_callback ::
  "cb_env \<Rightarrow> int \<Rightarrow> cb_history \<Rightarrow> timer_nodes \<Rightarrow> nat \<Rightarrow> int \<Rightarrow> (fault + timer_nodes \<times> cb_history) option" where
  "after_callback env now h st k ret =
     (if map_of (nodes st) k = None then Some (Inl UseAfterFree)
      else let ns = set_time k now (nodes st)
           in process_nodes env now h (st\<lparr>nodes := (if ret = 1 then erase_node k ns else ns)\<rparr>) (node_behind k ns))"

lemma process_nodes_unfold:
  "process_nodes env now h st (Some k) =
     (case map_of (nodes st) k of None \<Rightarrow> Some (Inl UseAfterFree)
      | Some te \<Rightarrow>
          if \<not> is_due now te then process_nodes env now h st (node_behind k (nodes st))
          else let a = env h (event_call te)
               in after_callback env now (h @ [(event_call te, a)]) (cb_run st (cb_ops a)) k (cb_ret a))"
  by (subst process_nodes.simps) (simp add: after_callback_def invoke_def Let_def split: option.split)

text \<open>The operations of a callback, one after the other.\<close>

lemma nest_ops_run:
  "nest_run env (Callback now k (map Nest_op ops) ret # fs) st h = nest_run env (Callback now k [] ret # fs) (cb_run st ops) h"
proof (induction ops arbitrary: st)
  case (Cons p ops)
  then show ?case
    using nest_run_step [of env h st "Callback now k (map Nest_op (p # ops)) ret"] by (simp add: cb_run_def)
qed (simp add: cb_run_def)

text \<open>One round of the loop, up to the return of the callback.\<close>

lemma nest_due:
  fixes env :: cb_env
  assumes "map_of (nodes st) k = Some te" and "is_due now te"
  shows "nest_run (nest_env_of env) (Pass now (Some k) # fs) st h
    = nest_run (nest_env_of env) (Callback now k [] (cb_ret (env (flat_history h) (event_call te))) # fs)
        (cb_run st (cb_ops (env (flat_history h) (event_call te)))) (h @ [(event_call te, nest_env_of env h (event_call te))])"
proof -
  let ?a = "env (flat_history h) (event_call te)" and ?c = "nest_env_of env h (event_call te)"
  have "nest_step (nest_env_of env) h st (Pass now (Some k))
      = Inr (st, h @ [(event_call te, ?c)], [Callback now k (map Nest_op (cb_ops ?a)) (cb_ret ?a)])"
    using assms by (simp add: invoke_def nest_env_of_def Let_def)
  then show ?thesis by (simp add: nest_run_step nest_ops_run)
qed

lemma nest_run_follows:
  "process_nodes env now (flat_history h) st it = Some r \<Longrightarrow>
   \<exists>r'. nest_run (nest_env_of env) [Pass now it] st h = Some r' \<and> flat_result r' = r"
proof -
  let ?P = "\<lambda>env now g st it r. \<forall>h. g = flat_history h \<longrightarrow>
    (\<exists>r'. nest_run (nest_env_of env) [Pass now it] st h = Some r' \<and> flat_result r' = r)"
  have "?P env now g st it r" if "process_nodes env now g st it = Some r" for env now g st it r
  proof (rule process_nodes.raw_induct [where P = ?P, OF _ that], goal_cases)
    case (1 f env now g st it r)
    show ?case
    proof (intro allI impI)
      fix h assume g: "g = flat_history h"
      show "\<exists>r'. nest_run (nest_env_of env) [Pass now it] st h = Some r' \<and> flat_result r' = r"
      proof (cases it)
        case None
        with 1(2) g show ?thesis by (auto simp: nest_run_step)
      next
        case (Some k)
        show ?thesis
        proof (cases "map_of (nodes st) k")
          case None
          with 1(2) Some show ?thesis by (auto simp: nest_run_fault)
        next
          case te: (Some te)
          let ?a = "env g (event_call te)" and ?c = "nest_env_of env h (event_call te)"
          let ?st = "cb_run st (cb_ops ?a)"
          show ?thesis
          proof (cases "is_due now te")
            case False
            with 1(2) Some te have "f env now g st (node_behind k (nodes st)) = Some r" by simp
            from 1(1) [OF this] g Some te False show ?thesis by (simp add: nest_run_step)
          next
            case due: True
            have round: "nest_run (nest_env_of env) [Pass now it] st h
                = nest_run (nest_env_of env) [Callback now k [] (cb_ret ?a)] ?st (h @ [(event_call te, ?c)])"
              using nest_due [OF te due, of env "[]" h] g Some by simp
            show ?thesis
            proof (cases "map_of (nodes ?st) k = None")
              case True
              then have "r = Inl UseAfterFree" using 1(2) Some te due by (simp add: invoke_def Let_def)
              with True round show ?thesis by (simp add: nest_run_fault)
            next
              case False
              let ?ns = "set_time k now (nodes ?st)"
              let ?st2 = "?st\<lparr>nodes := (if cb_ret ?a = 1 then erase_node k ?ns else ?ns)\<rparr>"
              have rest: "f env now (g @ [(event_call te, ?a)]) ?st2 (node_behind k ?ns) = Some r"
                using 1(2) Some te due False by (simp add: invoke_def Let_def)
              have "nest_run (nest_env_of env) [Pass now it] st h
                  = nest_run (nest_env_of env) [Pass now (node_behind k ?ns)] ?st2 (h @ [(event_call te, ?c)])"
                unfolding round using False by (simp add: nest_run_step Let_def)
              moreover have "g @ [(event_call te, ?a)] = flat_history (h @ [(event_call te, ?c)])"
                by (simp add: g flat_history_snoc)
              ultimately show ?thesis using 1(1) [OF rest] by metis
            qed
          qed
        qed
      qed
    qed
  qed
  then show "process_nodes env now (flat_history h) st it = Some r \<Longrightarrow> ?thesis" by blast
qed

text \<open>Conversely, what a stack of one frame returns is what is left of the pass.\<close>

definition frame_left :: "cb_env \<Rightarrow> timer_frame list \<Rightarrow> timer_nodes \<Rightarrow> nest_history \<Rightarrow> fault + timer_nodes \<times> nest_history \<Rightarrow> bool" where
  "frame_left env fs st h r \<longleftrightarrow>
     (case fs of
        [] \<Rightarrow> r = Inr (st, h)
      | [Pass now it] \<Rightarrow> process_nodes env now (flat_history h) st it = Some (flat_result r)
      | [Callback now k ops ret] \<Rightarrow> (\<forall>ps. ops = map Nest_op ps \<longrightarrow>
          after_callback env now (flat_history h) (cb_run st ps) k ret = Some (flat_result r))
      | _ \<Rightarrow> True)"

lemma frame_left_simps [simp]:
  "frame_left env [] st h r \<longleftrightarrow> r = Inr (st, h)"
  "frame_left env [Pass now it] st h r \<longleftrightarrow> process_nodes env now (flat_history h) st it = Some (flat_result r)"
  "frame_left env [Callback now k ops ret] st h r \<longleftrightarrow> (\<forall>ps. ops = map Nest_op ps \<longrightarrow>
     after_callback env now (flat_history h) (cb_run st ps) k ret = Some (flat_result r))"
  by (simp_all add: frame_left_def)

lemma frame_left_step:
  assumes "nest_step (nest_env_of env) h st fr = Inr (st1, h1, new)" and "frame_left env new st1 h1 r"
    and "fr = Callback now k (map Nest_op ps) ret \<or> fr = Pass now it"
  shows "frame_left env [fr] st h r"
  using assms(3)
proof
  assume fr: "fr = Callback now k (map Nest_op ps) ret"
  show ?thesis
  proof (cases ps)
    case Nil
    with fr assms(1,2) show ?thesis by (auto simp: after_callback_def Let_def cb_run_def split: if_splits)
  next
    case (Cons p qs)
    with fr assms(1,2) show ?thesis by (auto simp: cb_run_def)
  qed
next
  assume fr: "fr = Pass now it"
  show ?thesis
  proof (cases it)
    case None
    with fr assms(1,2) show ?thesis by (simp add: process_end)
  next
    case (Some k)
    then obtain te where te: "map_of (nodes st) k = Some te" using fr assms(1) by (cases "map_of (nodes st) k") auto
    show ?thesis
    proof (cases "is_due now te")
      case False
      then have "st1 = st" "h1 = h" "new = [Pass now (node_behind k (nodes st))]" using fr Some te assms(1) by auto
      with False fr Some te assms(2) show ?thesis by (simp add: process_nodes_unfold)
    next
      case True
      let ?a = "env (flat_history h) (event_call te)" and ?c = "nest_env_of env h (event_call te)"
      have "st1 = st" "h1 = h @ [(event_call te, ?c)]" "new = [Callback now k (map Nest_op (cb_ops ?a)) (cb_ret ?a)]"
        using True fr Some te assms(1) by (auto simp: invoke_def nest_env_of_def Let_def)
      then have "after_callback env now (flat_history h @ [(event_call te, ?a)]) (cb_run st (cb_ops ?a)) k (cb_ret ?a) = Some (flat_result r)"
        using assms(2) by (simp add: flat_history_snoc)
      with True fr Some te show ?thesis by (simp add: process_nodes_unfold Let_def)
    qed
  qed
qed

lemma nest_run_left: "nest_run (nest_env_of env) fs st h = Some r \<Longrightarrow> frame_left env fs st h r"
proof -
  let ?P = "\<lambda>e fs st h r. e = nest_env_of env \<longrightarrow> frame_left env fs st h r"
  have "?P e fs st h r" if "nest_run e fs st h = Some r" for e fs st h r
  proof (rule nest_run.raw_induct [where P = ?P, OF _ that], goal_cases)
    case (1 f e fs st h r)
    show ?case
    proof (rule impI)
      assume e: "e = nest_env_of env"
      show "frame_left env fs st h r"
      proof (cases "\<exists>fr. fs = [fr] \<and> (\<exists>now k ps ret it. fr = Callback now k (map Nest_op ps) ret \<or> fr = Pass now it)")
        case True
        then obtain fr now k ps ret it where fs: "fs = [fr]" and fr: "fr = Callback now k (map Nest_op ps) ret \<or> fr = Pass now it"
          by blast
        show ?thesis
        proof (cases "nest_step e h st fr")
          case (Inl x)
          with 1(2) fs have r: "r = Inl x" by simp
          from Inl r fs fr show ?thesis
            by (cases ps; cases it) (auto simp: cb_run_def after_callback_def process_nodes_unfold Let_def split: if_splits option.splits prod.splits)
        next
          case (Inr y)
          obtain st1 h1 new where y: "y = (st1, h1, new)" by (rule prod_cases3)
          with 1(2) fs Inr have "f e new st1 h1 = Some r" by simp
          from 1(1) [OF this] e have "frame_left env new st1 h1 r" by simp
          with frame_left_step [OF _ this fr] Inr y e fs show ?thesis by simp
        qed
      next
        case False
        show ?thesis
        proof (cases "fs = []")
          case True
          with 1(2) show ?thesis by simp
        next
          case nonempty: False
          with False show ?thesis by (auto simp: frame_left_def neq_Nil_conv split: list.splits timer_frame.splits)
        qed
      qed
    qed
  qed
  then show "nest_run (nest_env_of env) fs st h = Some r \<Longrightarrow> ?thesis" by blast
qed

text \<open>
  When no callback calls \<open>process_timer\<close>, a pass of the stack of frames is the pass of \<open>Timer_Reentrant\<close>: it returns if
  and only if that one does, with the same timers and the same calls.
\<close>

lemma nested_refines:
  "map_option flat_result (process_timer_nested (nest_env_of env) now h st) = process_timer_nodes env now (flat_history h) st"
proof (cases "process_timer_nodes env now (flat_history h) st")
  case None
  then show ?thesis
    using nest_run_left [of env "[Pass now (first_node (nodes st))]" st h]
    by (cases "process_timer_nested (nest_env_of env) now h st") (auto simp: process_timer_nested_def process_timer_nodes_def)
next
  case (Some r)
  then show ?thesis
    using nest_run_follows [of env now h st "first_node (nodes st)" r]
    by (auto simp: process_timer_nested_def process_timer_nodes_def)
qed

section \<open>Callbacks with nested passes\<close>

text \<open>Every callback begins with a pass, at a time that is not earlier.\<close>

definition nests_always :: "int \<Rightarrow> nest_env \<Rightarrow> bool" where
  "nests_always now env \<longleftrightarrow> (\<forall>h cb arg. \<exists>ops. nest_ops (env h (Timer_callback cb arg)) = Nest_process now # ops)"

text \<open>The first callback contains a pass, the others do nothing; all return \<open>ret\<close>.\<close>

definition nests_once :: "int \<Rightarrow> int \<Rightarrow> nest_env" where
  "nests_once now ret h c = \<lparr>nest_ops = (if h = [] then [Nest_process now] else []), nest_ret = ret\<rparr>"

text \<open>
  The time of a timer is stored after its callback, so the timer whose callback runs is still due: a
  pass that has not yet come to the last due timer, and a callback that is about to begin another pass,
  lead from one to the other.
\<close>

definition nest_bound :: "int \<Rightarrow> timer_frame list \<Rightarrow> timer_nodes \<Rightarrow> bool" where
  "nest_bound now fs st \<longleftrightarrow> distinct (map fst (nodes st)) \<and> (\<exists>fr gs bs rest n. fs = fr # gs \<and> nodes st = bs @ rest
     \<and> n \<in> set rest \<and> is_due now (snd n)
     \<and> ((\<exists>t. t \<le> now \<and> fr = Pass t (first_node rest) \<and> is_due t (snd n))
        \<or> (\<exists>t k ops ret. fr = Callback t k (Nest_process now # ops) ret)))"

lemma nest_bound_pass:
  assumes "distinct (map fst (nodes st))" and "nodes st = bs @ rest" and "n \<in> set rest" and "is_due now (snd n)"
    and "t \<le> now" and "is_due t (snd n)"
  shows "nest_bound now (Pass t (first_node rest) # gs) st"
  unfolding nest_bound_def using assms
  by (intro conjI exI [of _ "Pass t (first_node rest)"] exI [of _ gs] exI [of _ bs] exI [of _ rest]
      exI [of _ n] disjI1 exI [of _ t]) simp_all

lemma nest_bound_start:
  "distinct (map fst (nodes st)) \<Longrightarrow> n \<in> set (nodes st) \<Longrightarrow> is_due now (snd n) \<Longrightarrow>
   nest_bound now (Pass now (first_node (nodes st)) # gs) st"
  using nest_bound_pass [of st "[]" "nodes st" n now now gs] by simp

lemma nest_bound_callback:
  assumes "distinct (map fst (nodes st))" and "n \<in> set (nodes st)" and "is_due now (snd n)"
  shows "nest_bound now (Callback t k (Nest_process now # ops) ret # gs) st"
  unfolding nest_bound_def using assms
  by (intro conjI exI [of _ "Callback t k (Nest_process now # ops) ret"] exI [of _ gs] exI [of _ "[]"] exI [of _ "nodes st"]
      exI [of _ n] disjI2) auto

lemma nest_bound_step:
  assumes "nest_bound now (fr # gs) st" and "nests_always now env" and "now \<noteq> 0"
  obtains st1 h1 new where "nest_step env h st fr = Inr (st1, h1, new)" and "nest_bound now (new @ gs) st1"
proof -
  obtain bs rest n where b: "distinct (map fst (nodes st))" "nodes st = bs @ rest" "n \<in> set rest" "is_due now (snd n)"
    and fr: "(\<exists>t. t \<le> now \<and> fr = Pass t (first_node rest) \<and> is_due t (snd n))
      \<or> (\<exists>t k ops ret. fr = Callback t k (Nest_process now # ops) ret)"
    using assms(1) by (auto simp: nest_bound_def)
  from fr show ?thesis
  proof (elim disjE exE conjE)
    fix t k ops ret assume fr: "fr = Callback t k (Nest_process now # ops) ret"
    have "nest_step env h st fr = Inr (st, h, [Pass now (first_node (nodes st)), Callback t k ops ret])"
      using fr assms(3) by simp
    moreover have "nest_bound now ([Pass now (first_node (nodes st)), Callback t k ops ret] @ gs) st"
      using nest_bound_start [OF b(1) _ b(4)] b(2,3) by simp
    ultimately show ?thesis by (rule that)
  next
    fix t assume t: "t \<le> now" "is_due t (snd n)" and fr: "fr = Pass t (first_node rest)"
    obtain k te rest2 where rest: "rest = (k, te) # rest2" using b(3) by (cases rest) auto
    have k: "k \<notin> fst ` set bs" and te: "map_of (nodes st) k = Some te" and behind: "node_behind k (nodes st) = first_node rest2"
      using b(1,2) rest map_of_split [of k bs te rest2] node_behind_split [of k bs te rest2] by auto
    show ?thesis
    proof (cases "is_due t te")
      case False
      then have n: "n \<in> set rest2" using b(3) rest t(2) by auto
      have "nest_step env h st fr = Inr (st, h, [Pass t (first_node rest2)])" using fr rest te behind False by simp
      moreover have "nest_bound now ([Pass t (first_node rest2)] @ gs) st"
        using nest_bound_pass [OF b(1), of "bs @ [(k, te)]" rest2] b(2,4) n rest t by simp
      ultimately show ?thesis by (rule that)
    next
      case True
      obtain ops where ops: "nest_ops (env h (event_call te)) = Nest_process now # ops"
        using assms(2) unfolding nests_always_def event_call_def by blast
      let ?a = "env h (event_call te)"
      have "nest_step env h st fr = Inr (st, h @ [(event_call te, ?a)], [Callback t k (Nest_process now # ops) (nest_ret ?a)])"
        using fr rest te True ops by (simp add: invoke_def)
      moreover have "nest_bound now ([Callback t k (Nest_process now # ops) (nest_ret ?a)] @ gs) st"
        using nest_bound_callback [OF b(1) _ b(4)] b(2,3) by simp
      ultimately show ?thesis by (rule that)
    qed
  qed
qed

lemma nest_bound_forever:
  assumes "nest_bound now fs st" and "nests_always now env" and "now \<noteq> 0"
  shows "nest_run env fs st h = None"
proof -
  let ?P = "\<lambda>e fs st h r. \<not> (e = env \<and> nest_bound now fs st)"
  have "?P e fs st h r" if "nest_run e fs st h = Some r" for e fs st h r
  proof (rule nest_run.raw_induct [where P = ?P, OF _ that], goal_cases)
    case (1 f e fs st h r)
    show ?case
    proof (rule notI, elim conjE)
      assume e: "e = env" and b: "nest_bound now fs st"
      then obtain fr gs where fs: "fs = fr # gs" by (auto simp: nest_bound_def)
      obtain st1 h1 new where s: "nest_step env h st fr = Inr (st1, h1, new)" "nest_bound now (new @ gs) st1"
        using nest_bound_step [OF _ assms(2,3)] b fs by metis
      then have "f env (new @ gs) st1 h1 = Some r" using 1(2) e fs by simp
      from 1(1) [OF this] s(2) show False by simp
    qed
  qed
  from this [of env fs st h] assms(1) show ?thesis by (cases "nest_run env fs st h") auto
qed

lemma nested_forever:
  assumes "nodes_ok st" and "n \<in> set (nodes st)" and "is_due now (snd n)" and "nests_always now env" and "now \<noteq> 0"
  shows "process_timer_nested env now h st = None"
  unfolding process_timer_nested_def
proof (rule nest_bound_forever [OF _ assms(4,5)])
  show "nest_bound now [Pass now (first_node (nodes st))] st"
    using nest_bound_start [OF _ assms(2,3)] assms(1) by (simp add: nodes_ok_def)
qed

text \<open>A single pass inside the callback of the only timer: the callback runs twice.\<close>

lemma nested_once:
  assumes "nodes st = [(k, te)]" and "is_due now te" and "is_valid te" and "now \<noteq> 0"
  shows "process_timer_nested (nests_once now ret) now [] st
    = (if ret = 1 then Some (Inl UseAfterFree)
       else Some (Inr (st\<lparr>nodes := [(k, te\<lparr>m_last_event_time := now\<rparr>)]\<rparr>,
              [(event_call te, nests_once now ret [] c), (event_call te, \<lparr>nest_ops = [], nest_ret = ret\<rparr>)])))"
  using assms
  by (simp add: process_timer_nested_def nest_run.simps invoke_def nests_once_def Let_def set_time_def erase_node_def)

section \<open>Properties\<close>

text \<open>
  C35: What a callback must not do. If it removes its own timer, the loop stores the time in a node that has
  been erased. If a timer is to run once (its callback returns 1) and adds itself again, it is called for ever in one pass: a new
  timer has never run, so it is due at once. If callbacks call \<open>process_timer\<close> at the time of the pass, a pass with a
  timer due never returns, whatever else they do: the time is stored after the callback, so the timer is
  still due inside it. Even if only the first callback does so, its timer runs twice in the pass, and if it is
  to run once, its node is erased by the inner pass and used by the outer one.
\<close>

theorem careless_callbacks:
  assumes "nodes_ok st" and "nodes st = [(k, te)]" and "is_due now te" and "uint (m_interval te) \<le> now"
  shows "process_timer_nested (nest_env_of (removes_itself te)) now [] st = Some (Inl UseAfterFree)
    \<and> process_timer_nested (nest_env_of (adds_itself te)) now [] st = None
    \<and> process_timer_nested (nests_once now 1) now [] st = Some (Inl UseAfterFree)
    \<and> (\<exists>a b. process_timer_nested (nests_once now 0) now [] st
          = Some (Inr (st\<lparr>nodes := [(k, te\<lparr>m_last_event_time := now\<rparr>)]\<rparr>, [(event_call te, a), (event_call te, b)])))
    \<and> (\<forall>env h st1 t n. nests_always t env \<and> t \<noteq> 0 \<and> nodes_ok st1 \<and> n \<in> set (nodes st1) \<and> is_due t (snd n)
          \<longrightarrow> process_timer_nested env t h st1 = None)"
proof -
  have valid: "is_valid te" using assms(1,2) by (simp add: nodes_ok_def timers_ok_def)
  then have "now \<noteq> 0" using valid_interval [OF valid] assms(4) by simp
  note once = nested_once [OF assms(2,3) valid this]
  note careless = inconsiderate_callbacks [OF assms, of "flat_history []"]
  have "process_timer_nested (nest_env_of (removes_itself te)) now [] st = Some (Inl UseAfterFree)"
    using nested_refines [of "removes_itself te" now "[]" st] careless by auto
  moreover have "process_timer_nested (nest_env_of (adds_itself te)) now [] st = None"
    using nested_refines [of "adds_itself te" now "[]" st] careless by simp
  ultimately show ?thesis using once [of 1] once [of 0] nested_forever by auto
qed

theorem careless_callbacks_witness:
  "process_timer_nested (nests_once 20 1) 20 [] \<lparr>nodes = [(0, make_event 5 (Some 7) 1)], next_node = 1\<rparr> = Some (Inl UseAfterFree)"
proof -
  have "nodes_ok \<lparr>nodes = [(0, make_event 5 (Some 7) 1)], next_node = 1\<rparr>"
    by (simp add: nodes_ok_def timers_ok_def is_valid_def make_event_def max_time_event_count_def)
  from careless_callbacks [OF this, of 0 "make_event 5 (Some 7) 1" 20] show ?thesis
    by (simp add: is_due_def make_event_def)
qed

end
