(* ===== verification/Proto_Dispatcher.thy ===== *)
theory Proto_Dispatcher
  imports Prelude
begin

text \<open>
  The protocol dispatcher of \<open>proto_dispatcher.cpp\<close> and the handler interface of
  \<open>proto_handler.h\<close>. Handlers are pointers (\<open>None\<close> is NULL); their virtual functions are
  answered by the environment and recorded, lifecycle calls included. The handler table is
  an unordered map: a traversal follows an order the library picks, the parameter \<open>enum\<close>.
  Handlers that call back into the dispatcher are in \<open>Dispatcher_Reentrant\<close>.
\<close>

section \<open>State and operations\<close>

type_synonym proto_id = u16

datatype handler_call =
    H_init nat
  | H_uninit nat
  | H_process nat int "byte list option" u32
  | H_timer_event nat proto_id
  | Log_proto proto_id nat

type_synonym handler_env = "(handler_call, int) env"
type_synonym handler_history = "(handler_call, int) history"
type_synonym handler_mgr = "proto_id \<rightharpoonup> nat option"
type_synonym table_order = "handler_history \<Rightarrow> handler_mgr \<Rightarrow> proto_id list"

definition phr_print_protos :: int where
  "phr_print_protos = 100"

definition register_proto ::
  "handler_env \<Rightarrow> handler_mgr \<Rightarrow> handler_history \<Rightarrow> proto_id \<Rightarrow> nat option \<Rightarrow> int \<times> handler_mgr \<times> handler_history" where
  "register_proto env m h proto_id handler =
     (case handler of
        None \<Rightarrow> (- 1, m, h)
      | Some p \<Rightarrow>
          let (r, h1) = invoke env h (H_init p)
          in if r \<noteq> 0 then (- 1, m, h1)
             else if m proto_id \<noteq> None
                  then let (_, h2) = invoke env h1 (H_uninit p) in (1, m, h2)
                  else (0, m(proto_id \<mapsto> Some p), h1))"

definition unregister_proto ::
  "handler_env \<Rightarrow> handler_mgr \<Rightarrow> handler_history \<Rightarrow> proto_id \<Rightarrow> int \<times> handler_mgr \<times> handler_history" where
  "unregister_proto env m h proto_id =
     (case m proto_id of
        Some (Some p) \<Rightarrow> let (_, h1) = invoke env h (H_uninit p) in (0, m(proto_id := None), h1)
      | _ \<Rightarrow> (- 1, m, h))"

fun clear_loop :: "handler_env \<Rightarrow> handler_mgr \<Rightarrow> handler_history \<Rightarrow> proto_id list \<Rightarrow> handler_mgr \<times> handler_history" where
  "clear_loop env m h [] = (m, h)"
| "clear_loop env m h (pid # pids) =
     (let (_, m1, h1) = unregister_proto env m h pid in clear_loop env m1 h1 pids)"

definition clear_protos ::
  "table_order \<Rightarrow> handler_env \<Rightarrow> handler_mgr \<Rightarrow> handler_history \<Rightarrow> handler_mgr \<times> handler_history" where
  "clear_protos enum env m h = (let (_, h1) = clear_loop env m h (enum h m) in (Map.empty, h1))"

fun print_loop :: "handler_env \<Rightarrow> handler_mgr \<Rightarrow> handler_history \<Rightarrow> proto_id list \<Rightarrow> handler_history" where
  "print_loop env m h [] = h"
| "print_loop env m h (pid # pids) =
     (case m pid of Some (Some p) \<Rightarrow> print_loop env m (snd (invoke env h (Log_proto pid p))) pids
      | _ \<Rightarrow> print_loop env m h pids)"

definition print_supported_protocols ::
  "table_order \<Rightarrow> handler_env \<Rightarrow> handler_mgr \<Rightarrow> handler_history \<Rightarrow> handler_history" where
  "print_supported_protocols enum env m h = print_loop env m h (enum h m)"

definition dispatch ::
  "table_order \<Rightarrow> handler_env \<Rightarrow> handler_mgr \<Rightarrow> handler_history \<Rightarrow> proto_id \<Rightarrow> int \<Rightarrow> byte list option \<Rightarrow> u32
     \<Rightarrow> int \<times> handler_history" where
  "dispatch enum env m h proto_id fd buf len =
     (case m proto_id of
        Some (Some p) \<Rightarrow>
          let (r, h1) = invoke env h (H_process p fd buf len)
          in (0, if r = phr_print_protos then print_supported_protocols enum env m h1 else h1)
      | _ \<Rightarrow> (- 1, h))"

definition timer_event_one :: "handler_env \<Rightarrow> handler_mgr \<Rightarrow> handler_history \<Rightarrow> proto_id \<Rightarrow> handler_history" where
  "timer_event_one env m h proto_id =
     (case m proto_id of Some (Some p) \<Rightarrow> snd (invoke env h (H_timer_event p proto_id)) | _ \<Rightarrow> h)"

fun timer_event_loop :: "handler_env \<Rightarrow> handler_mgr \<Rightarrow> handler_history \<Rightarrow> proto_id list \<Rightarrow> handler_history" where
  "timer_event_loop env m h [] = h"
| "timer_event_loop env m h (pid # pids) =
     timer_event_loop env m
       (case m pid of Some (Some p) \<Rightarrow> snd (invoke env h (H_timer_event p pid)) | _ \<Rightarrow> h) pids"

definition timer_event_all :: "table_order \<Rightarrow> handler_env \<Rightarrow> handler_mgr \<Rightarrow> handler_history \<Rightarrow> handler_history" where
  "timer_event_all enum env m h = timer_event_loop env m h (enum h m)"

section \<open>Sequences of calls\<close>

datatype dispatcher_op =
    D_register proto_id "nat option"
  | D_unregister proto_id
  | D_clear
  | D_dispatch proto_id int "byte list option" u32
  | D_timer
  | D_timer_one proto_id

fun dispatcher_step ::
  "table_order \<Rightarrow> handler_env \<Rightarrow> handler_mgr \<times> handler_history \<Rightarrow> dispatcher_op \<Rightarrow> handler_mgr \<times> handler_history" where
  "dispatcher_step enum env (m, h) (D_register pid p) = snd (register_proto env m h pid p)"
| "dispatcher_step enum env (m, h) (D_unregister pid) = snd (unregister_proto env m h pid)"
| "dispatcher_step enum env (m, h) D_clear = clear_protos enum env m h"
| "dispatcher_step enum env (m, h) (D_dispatch pid fd buf len) = (m, snd (dispatch enum env m h pid fd buf len))"
| "dispatcher_step enum env (m, h) D_timer = (m, timer_event_all enum env m h)"
| "dispatcher_step enum env (m, h) (D_timer_one pid) = (m, timer_event_one env m h pid)"

definition dispatcher_run ::
  "table_order \<Rightarrow> handler_env \<Rightarrow> dispatcher_op list \<Rightarrow> handler_mgr \<times> handler_history" where
  "dispatcher_run enum env ops = foldl (dispatcher_step enum env) (Map.empty, []) ops"

section \<open>The table\<close>

text \<open>A traversal visits every key once.\<close>

definition order_ok :: "table_order \<Rightarrow> bool" where
  "order_ok enum \<longleftrightarrow> (\<forall>h m. finite (dom m) \<longrightarrow> distinct (enum h m) \<and> set (enum h m) = dom m)"

definition sorted_order :: table_order where
  "sorted_order h m = sorted_list_of_set (dom m)"

lemma order_ok_sorted: "order_ok sorted_order"
  by (simp add: order_ok_def sorted_order_def)

definition table_ok :: "handler_mgr \<Rightarrow> bool" where
  "table_ok m \<longleftrightarrow> finite (dom m) \<and> None \<notin> ran m"

lemma table_ok_entry: "table_ok m \<Longrightarrow> m pid = Some e \<Longrightarrow> \<exists>p. e = Some p"
  by (cases e) (auto simp: table_ok_def ran_def)

lemma finite_word16 [simp]: "finite (dom (m :: handler_mgr))"
  by (rule finite_subset [OF subset_UNIV]) simp

text \<open>How many protocols a handler is registered for, and its lifecycle calls so far.\<close>

definition registrations :: "handler_mgr \<Rightarrow> nat \<Rightarrow> nat" where
  "registrations m p = card {pid. m pid = Some (Some p)}"

definition inits :: "handler_history \<Rightarrow> nat \<Rightarrow> nat" where
  "inits h p = length (filter (\<lambda>c. c = (H_init p, 0)) h)"

definition uninits :: "handler_history \<Rightarrow> nat \<Rightarrow> nat" where
  "uninits h p = length (filter (\<lambda>c. fst c = H_uninit p) h)"

definition lifecycle_ok :: "handler_mgr \<Rightarrow> handler_history \<Rightarrow> bool" where
  "lifecycle_ok m h \<longleftrightarrow> table_ok m \<and> (\<forall>p. inits h p = uninits h p + registrations m p)"

lemma inits_append [simp]: "inits (h @ h') p = inits h p + inits h' p"
  by (simp add: inits_def)

lemma uninits_append [simp]: "uninits (h @ h') p = uninits h p + uninits h' p"
  by (simp add: uninits_def)

lemma lifecycle_calls [simp]:
  "inits [] p = 0" "uninits [] p = 0"
  "inits [(H_init q, r)] p = (if q = p \<and> r = 0 then 1 else 0)" "uninits [(H_init q, r)] p = 0"
  "inits [(H_uninit q, r)] p = 0" "uninits [(H_uninit q, r)] p = (if q = p then 1 else 0)"
  "inits [(H_process q fd buf len, r)] p = 0" "uninits [(H_process q fd buf len, r)] p = 0"
  "inits [(H_timer_event q i, r)] p = 0" "uninits [(H_timer_event q i, r)] p = 0"
  "inits [(Log_proto i q, r)] p = 0" "uninits [(Log_proto i q, r)] p = 0"
  by (simp_all add: inits_def uninits_def)

lemma lifecycle_Cons2 [simp]:
  "inits (c # d # h) p = inits [c] p + inits (d # h) p"
  "uninits (c # d # h) p = uninits [c] p + uninits (d # h) p"
  by (simp_all add: inits_def uninits_def)

lemma registrations_empty [simp]: "registrations Map.empty p = 0"
  by (simp add: registrations_def)

lemma finite_ids [simp]: "finite {pid. (m :: handler_mgr) pid = Some (Some p)}"
  by (rule finite_subset [OF subset_UNIV]) simp

lemma registrations_insert:
  "m pid = None \<Longrightarrow> registrations (m(pid \<mapsto> Some q)) p = registrations m p + (if q = p then 1 else 0)"
proof -
  assume "m pid = None"
  then have "{i. (m(pid \<mapsto> Some q)) i = Some (Some p)} =
      (if q = p then insert pid {i. m i = Some (Some p)} else {i. m i = Some (Some p)})"
    by auto
  moreover have "pid \<notin> {i. m i = Some (Some p)}" using \<open>m pid = None\<close> by simp
  ultimately show ?thesis by (simp add: registrations_def)
qed

lemma registrations_delete:
  "m pid = Some (Some q) \<Longrightarrow> registrations m p = registrations (m(pid := None)) p + (if q = p then 1 else 0)"
  using registrations_insert [of "m(pid := None)" pid q p]
  by (metis fun_upd_same fun_upd_triv fun_upd_upd)

section \<open>Every operation keeps the lifecycle balanced\<close>

lemma register_lifecycle:
  assumes "lifecycle_ok m h" and "register_proto env m h pid p = (r, m', h')"
  shows "lifecycle_ok m' h'"
proof (cases p)
  case (Some q)
  show ?thesis
  proof (cases "env h (H_init q) = 0 \<and> m pid = None")
    case True
    then have "m' = m(pid \<mapsto> Some q)" "h' = h @ [(H_init q, 0)]"
      using assms(2) Some by (auto simp: register_proto_def invoke_def)
    moreover have "table_ok (m(pid \<mapsto> Some q))"
      using assms(1) True by (auto simp: lifecycle_ok_def table_ok_def ran_def split: if_splits)
    ultimately show ?thesis
      using assms(1) True registrations_insert [of m pid q] by (simp add: lifecycle_ok_def)
  next
    case False
    then show ?thesis
      using assms Some by (auto simp: register_proto_def invoke_def lifecycle_ok_def split: if_splits)
  qed
qed (use assms in \<open>simp add: register_proto_def\<close>)

lemma unregister_lifecycle:
  assumes "lifecycle_ok m h" and "unregister_proto env m h pid = (r, m', h')"
  shows "lifecycle_ok m' h'"
proof (cases "m pid")
  case (Some e)
  with assms(1) obtain q where q: "m pid = Some (Some q)"
    using table_ok_entry [of m pid e] by (auto simp: lifecycle_ok_def)
  then have "m' = m(pid := None)" "h' = h @ [(H_uninit q, env h (H_uninit q))]"
    using assms(2) by (auto simp: unregister_proto_def invoke_def)
  moreover have "table_ok (m(pid := None))"
    using assms(1) by (auto simp: lifecycle_ok_def table_ok_def ran_def split: if_splits)
  ultimately show ?thesis
    using assms(1) registrations_delete [where m = m, OF q] by (simp add: lifecycle_ok_def)
qed (use assms in \<open>simp add: unregister_proto_def\<close>)

lemma clear_loop_lifecycle:
  "lifecycle_ok m h \<Longrightarrow> clear_loop env m h pids = (m', h') \<Longrightarrow>
   lifecycle_ok m' h' \<and> dom m' = dom m - set pids"
proof (induction pids arbitrary: m h)
  case (Cons pid pids)
  obtain r m1 h1 where u: "unregister_proto env m h pid = (r, m1, h1)"
    by (cases "unregister_proto env m h pid") auto
  then have ok: "lifecycle_ok m1 h1" using Cons.prems(1) unregister_lifecycle by blast
  have "dom m1 = dom m - {pid}"
  proof (cases "m pid")
    case None
    with u show ?thesis by (auto simp: unregister_proto_def)
  next
    case (Some e)
    with Cons.prems(1) obtain q where "m pid = Some (Some q)"
      using table_ok_entry [of m pid e] by (auto simp: lifecycle_ok_def)
    with u show ?thesis by (auto simp: unregister_proto_def invoke_def split: if_splits)
  qed
  with Cons.IH [OF ok] Cons.prems(2) u show ?case by auto
qed simp

lemma clear_lifecycle:
  assumes "order_ok enum" and "lifecycle_ok m h" and "clear_protos enum env m h = (m', h')"
  shows "m' = Map.empty \<and> lifecycle_ok m' h'"
proof -
  obtain m1 h1 where l: "clear_loop env m h (enum h m) = (m1, h1)" by fastforce
  note c = clear_loop_lifecycle [OF assms(2) l]
  have ok: "lifecycle_ok m1 h1" by (rule conjunct1 [OF c])
  have "dom m1 = {}" using conjunct2 [OF c] assms(1) by (simp add: order_ok_def)
  then have "m1 = Map.empty" by simp
  with ok have "lifecycle_ok Map.empty h1" by (simp only:)
  with l assms(3) show ?thesis by (simp add: clear_protos_def)
qed

text \<open>The other operations make no lifecycle call.\<close>

lemma print_loop_neutral: "inits (print_loop env m h pids) p = inits h p \<and> uninits (print_loop env m h pids) p = uninits h p"
  by (induction pids arbitrary: h) (auto simp: invoke_def split: option.splits)

lemma timer_loop_neutral:
  "inits (timer_event_loop env m h pids) p = inits h p \<and> uninits (timer_event_loop env m h pids) p = uninits h p"
  by (induction pids arbitrary: h) (auto simp: invoke_def split: option.splits)

lemma dispatch_neutral:
  "inits (snd (dispatch enum env m h pid fd buf len)) p = inits h p
   \<and> uninits (snd (dispatch enum env m h pid fd buf len)) p = uninits h p"
  by (auto simp: dispatch_def print_supported_protocols_def print_loop_neutral invoke_def split: option.splits)

lemma dispatcher_step_lifecycle:
  assumes "order_ok enum" and "lifecycle_ok m h" and "dispatcher_step enum env (m, h) op = (m', h')"
  shows "lifecycle_ok m' h'"
proof (cases op)
  case (D_register pid p)
  with assms show ?thesis by (cases "register_proto env m h pid p") (auto intro: register_lifecycle)
next
  case (D_unregister pid)
  with assms show ?thesis by (cases "unregister_proto env m h pid") (auto intro: unregister_lifecycle)
next
  case D_clear
  with assms show ?thesis by (auto dest: clear_lifecycle)
next
  case (D_dispatch pid fd buf len)
  with assms show ?thesis by (auto simp: lifecycle_ok_def dispatch_neutral)
next
  case D_timer
  with assms show ?thesis by (auto simp: lifecycle_ok_def timer_event_all_def timer_loop_neutral)
next
  case (D_timer_one pid)
  with assms show ?thesis by (auto simp: lifecycle_ok_def timer_event_one_def invoke_def split: option.splits)
qed

lemma dispatcher_run_lifecycle:
  assumes "order_ok enum"
  shows "lifecycle_ok (fst (dispatcher_run enum env ops)) (snd (dispatcher_run enum env ops))"
proof -
  have "lifecycle_ok (fst s) (snd s) \<Longrightarrow>
    lifecycle_ok (fst (foldl (dispatcher_step enum env) s ops)) (snd (foldl (dispatcher_step enum env) s ops))" for s
  proof (induction ops arbitrary: s)
    case (Cons op ops)
    obtain m1 h1 where "dispatcher_step enum env s op = (m1, h1)" by fastforce
    with Cons dispatcher_step_lifecycle [OF assms, of "fst s" "snd s" env op m1 h1] show ?case by simp
  qed simp
  then show ?thesis by (simp add: dispatcher_run_def lifecycle_ok_def table_ok_def)
qed

section \<open>The registry interface\<close>

text \<open>
  What a plugin and the plugin loader rely on: registering a fresh id makes dispatching reach
  that handler, unregistering it again restores the table, other ids are not touched.
\<close>

locale registry =
  fixes lookup :: "'m \<Rightarrow> 'k \<Rightarrow> 'p option"
    and insert_entry :: "'m \<Rightarrow> 'k \<Rightarrow> 'p \<Rightarrow> 'm"
    and remove_entry :: "'m \<Rightarrow> 'k \<Rightarrow> 'm"
    and valid :: "'m \<Rightarrow> bool"
  assumes lookup_insert: "valid m \<Longrightarrow> lookup m k = None \<Longrightarrow>
      lookup (insert_entry m k p) j = (if j = k then Some p else lookup m j)"
    and lookup_remove: "valid m \<Longrightarrow> lookup (remove_entry m k) j = (if j = k then None else lookup m j)"
    and valid_insert: "valid m \<Longrightarrow> valid (insert_entry m k p)"
    and valid_remove: "valid m \<Longrightarrow> valid (remove_entry m k)"
    and extensional: "valid m \<Longrightarrow> valid m' \<Longrightarrow> (\<And>k. lookup m k = lookup m' k) \<Longrightarrow> m = m'"
begin

lemma insert_remove:
  assumes "valid m" and "lookup m k = None"
  shows "remove_entry (insert_entry m k p) k = m"
  by (rule extensional) (use assms in \<open>auto simp: lookup_insert lookup_remove valid_insert valid_remove\<close>)

lemma insert_lookup: "valid m \<Longrightarrow> lookup m k = None \<Longrightarrow> lookup (insert_entry m k p) k = Some p"
  by (simp add: lookup_insert)

lemma insert_other: "valid m \<Longrightarrow> lookup m k = None \<Longrightarrow> j \<noteq> k \<Longrightarrow> lookup (insert_entry m k p) j = lookup m j"
  by (simp add: lookup_insert)

lemma remove_missing: "valid m \<Longrightarrow> lookup m k = None \<Longrightarrow> remove_entry m k = m"
  by (rule extensional) (auto simp: lookup_remove valid_remove)

end

text \<open>The handler \<open>dispatch\<close> would call, and the table after a registration that succeeds.\<close>

definition handler_of :: "handler_mgr \<Rightarrow> proto_id \<Rightarrow> nat option" where
  "handler_of m pid = (case m pid of Some e \<Rightarrow> e | None \<Rightarrow> None)"

definition ok_env :: handler_env where
  "ok_env h c = 0"

definition table_after_register :: "handler_mgr \<Rightarrow> proto_id \<Rightarrow> nat \<Rightarrow> handler_mgr" where
  "table_after_register m pid p = fst (snd (register_proto ok_env m [] pid (Some p)))"

definition table_after_unregister :: "handler_mgr \<Rightarrow> proto_id \<Rightarrow> handler_mgr" where
  "table_after_unregister m pid = fst (snd (unregister_proto ok_env m [] pid))"

lemma handler_of_None: "table_ok m \<Longrightarrow> handler_of m pid = None \<longleftrightarrow> m pid = None"
  by (auto simp: handler_of_def dest: table_ok_entry split: option.splits)

lemma table_after_register_eq:
  "table_after_register m pid p = (if m pid = None then m(pid \<mapsto> Some p) else m)"
  by (auto simp: table_after_register_def register_proto_def invoke_def ok_env_def)

lemma table_after_unregister_eq:
  "table_ok m \<Longrightarrow> table_after_unregister m pid = m(pid := None)"
  by (auto simp: table_after_unregister_def unregister_proto_def invoke_def dest: table_ok_entry split: option.splits)

lemma table_ok_update: "table_ok m \<Longrightarrow> table_ok (m(pid \<mapsto> Some p))" "table_ok m \<Longrightarrow> table_ok (m(pid := None))"
  by (auto simp: table_ok_def ran_def split: if_splits)

interpretation dispatcher: registry handler_of table_after_register table_after_unregister table_ok
proof (unfold_locales, goal_cases)
  case (1 m k p j)
  then have "m k = None" by (simp add: handler_of_None)
  then show ?case by (simp add: table_after_register_eq handler_of_def)
next
  case (2 m k j)
  then show ?case by (auto simp: table_after_unregister_eq handler_of_def)
next
  case (3 m k p)
  then show ?case by (simp add: table_after_register_eq table_ok_update)
next
  case (4 m k)
  then show ?case by (simp add: table_after_unregister_eq table_ok_update)
next
  case (5 m m')
  show ?case
  proof
    fix k
    show "m k = m' k"
      using 5(3) [of k] handler_of_None [OF 5(1), of k] handler_of_None [OF 5(2), of k]
      by (cases "m k"; cases "m' k") (auto simp: handler_of_def)
  qed
qed

lemma register_fresh:
  assumes "env h (H_init p) = 0" and "m pid = None"
  shows "register_proto env m h pid (Some p) = (0, table_after_register m pid p, h @ [(H_init p, 0)])"
  using assms by (simp add: register_proto_def invoke_def table_after_register_eq)

lemma unregister_eq:
  assumes "table_ok m" and "handler_of m pid = Some p"
  shows "unregister_proto env m h pid =
           (0, table_after_unregister m pid, h @ [(H_uninit p, env h (H_uninit p))])"
  using assms by (auto simp: unregister_proto_def invoke_def table_after_unregister_eq handler_of_def split: option.splits)

lemma print_loop_appends: "\<exists>rest. print_loop env m h pids = h @ rest"
proof (induction pids arbitrary: h)
  case (Cons a pids)
  show ?case
  proof (cases "\<exists>p. m a = Some (Some p)")
    case True
    then obtain p where "m a = Some (Some p)" by blast
    with Cons [of "h @ [(Log_proto a p, env h (Log_proto a p))]"] show ?thesis
      by (auto simp: invoke_def)
  next
    case False
    with Cons show ?thesis by (auto split: option.splits)
  qed
qed simp

lemma dispatch_reaches:
  assumes "handler_of m pid = Some p"
  shows "fst (dispatch enum env m h pid fd buf len) = 0
       \<and> (\<exists>rest. snd (dispatch enum env m h pid fd buf len)
              = h @ (H_process p fd buf len, env h (H_process p fd buf len)) # rest)"
proof -
  have m: "m pid = Some (Some p)" using assms by (auto simp: handler_of_def split: option.splits)
  from print_loop_appends [of env m "h @ [(H_process p fd buf len, env h (H_process p fd buf len))]"
      "enum (h @ [(H_process p fd buf len, env h (H_process p fd buf len))]) m"] show ?thesis
    by (auto simp: dispatch_def m invoke_def print_supported_protocols_def)
qed

section \<open>Properties\<close>

text \<open>
  C18: Over any sequence of operations, whatever the handlers answer and in whatever order
  the table is traversed, every handler has been initialised successfully exactly as often as
  it has been uninitialised plus the protocols it is registered for now; no entry is null.
  After \<open>clear_protos\<close>, as the destructor calls it, the table is empty and the two counts agree.
\<close>

theorem handler_lifecycle_balanced:
  assumes "order_ok enum" and "dispatcher_run enum env ops = (m, h)"
  shows "None \<notin> ran m \<and> inits h p = uninits h p + registrations m p
       \<and> (\<forall>m' h'. clear_protos enum env m h = (m', h') \<longrightarrow> m' = Map.empty \<and> inits h' p = uninits h' p)"
proof -
  have ok: "lifecycle_ok m h"
    using dispatcher_run_lifecycle [OF assms(1), of env ops] assms(2) by simp
  then have "m' = Map.empty \<and> inits h' p = uninits h' p" if "clear_protos enum env m h = (m', h')" for m' h'
    using clear_lifecycle [OF assms(1) ok that] by (auto simp: lifecycle_ok_def)
  with ok show ?thesis by (simp add: lifecycle_ok_def table_ok_def)
qed

theorem handler_lifecycle_balanced_witness:
  "inits (snd (dispatcher_run sorted_order ok_env [D_register 1 (Some 7), D_register 1 (Some 7), D_register 2 (Some 7)])) 7
   = uninits (snd (dispatcher_run sorted_order ok_env [D_register 1 (Some 7), D_register 1 (Some 7), D_register 2 (Some 7)])) 7
     + registrations (fst (dispatcher_run sorted_order ok_env [D_register 1 (Some 7), D_register 1 (Some 7), D_register 2 (Some 7)])) 7"
  using handler_lifecycle_balanced [OF order_ok_sorted prod.collapse [symmetric], of ok_env _ 7] by blast

text \<open>
  A successful registration makes \<open>dispatch\<close> hand the packet to exactly that handler and
  return 0, leaves every other protocol as it was, and is undone by unregistering; a packet
  for an unknown protocol is refused without calling anything.
\<close>

lemma register_then_dispatch:
  assumes "table_ok m" and "handler_of m pid = None" and "env h (H_init p) = 0"
  shows "\<exists>m' h'. register_proto env m h pid (Some p) = (0, m', h')
           \<and> handler_of m' pid = Some p \<and> (\<forall>j. j \<noteq> pid \<longrightarrow> handler_of m' j = handler_of m j)
           \<and> fst (dispatch enum env m' h' pid fd buf len) = 0
           \<and> (\<exists>rest. snd (dispatch enum env m' h' pid fd buf len)
                  = h' @ (H_process p fd buf len, env h' (H_process p fd buf len)) # rest)
           \<and> fst (snd (unregister_proto env m' h' pid)) = m
           \<and> dispatch enum env m h pid fd buf len = (- 1, h)"
proof -
  let ?m = "table_after_register m pid p"
  have none: "m pid = None" using assms(1,2) by (simp add: handler_of_None)
  have look: "handler_of ?m pid = Some p" by (rule dispatcher.insert_lookup [OF assms(1,2)])
  have "fst (snd (unregister_proto env ?m (h @ [(H_init p, 0)]) pid)) = m"
    using unregister_eq [OF dispatcher.valid_insert [OF assms(1)] look]
    by (simp add: dispatcher.insert_remove [OF assms(1,2)])
  moreover have "dispatch enum env m h pid fd buf len = (- 1, h)"
    using none by (simp add: dispatch_def)
  ultimately show ?thesis
    using register_fresh [where env = env and m = m, OF assms(3) none] look
      dispatcher.insert_other [OF assms(1,2)]
      dispatch_reaches [OF look, of enum env "h @ [(H_init p, 0)]" fd buf len]
    by blast
qed

lemma register_then_dispatch_witness:
  "\<exists>m' h'. register_proto ok_env Map.empty [] 5 (Some 7) = (0, m', h') \<and> handler_of m' 5 = Some 7
     \<and> fst (dispatch sorted_order ok_env m' h' 5 3 None 0) = 0"
proof -
  have "table_ok Map.empty" "handler_of Map.empty 5 = None" "ok_env [] (H_init 7) = 0"
    by (simp_all add: table_ok_def handler_of_def ok_env_def)
  then show ?thesis
    using register_then_dispatch [of Map.empty 5 ok_env "[]" 7 sorted_order 3 None 0] by blast
qed

text \<open>
  Registering the same handler again under an id it already serves is refused, but only
  after its \<open>init\<close> and \<open>uninit\<close> have run: the handler stays in the table, and packets still
  go to it, although the last lifecycle call it saw was \<open>uninit\<close>.
\<close>

lemma re_register_uninitialises_live_handler:
  assumes "handler_of m pid = Some p" and "env h (H_init p) = 0"
  shows "\<exists>r. register_proto env m h pid (Some p) = (1, m, h @ [(H_init p, 0), (H_uninit p, r)])
       \<and> handler_of m pid = Some p"
proof -
  have "m pid = Some (Some p)" using assms(1) by (auto simp: handler_of_def split: option.splits)
  with assms show ?thesis by (simp add: register_proto_def invoke_def)
qed

lemma re_register_uninitialises_live_handler_witness:
  "\<exists>r. register_proto ok_env [5 \<mapsto> Some 7] [] 5 (Some 7) = (1, [5 \<mapsto> Some 7], [(H_init 7, 0), (H_uninit 7, r)])"
  using re_register_uninitialises_live_handler [of "[5 \<mapsto> Some 7]" 5 7 ok_env "[]"]
  by (simp add: handler_of_def ok_env_def)

end
