(* ===== verification/Dispatcher_Reentrant.thy ===== *)
theory Dispatcher_Reentrant
  imports Proto_Dispatcher "HOL-Library.Multiset_Order"
begin

text \<open>
  The dispatcher of \<open>proto_dispatcher.cpp\<close> when handlers call it back. The table is a
  \<open>std::unordered_map\<close>: its nodes, in the order of iteration; where a new node goes, and whether the
  insertion rehashes, is up to the library (\<open>place\<close>). An iterator is a node and the number of rehashes so
  far: one to an erased node, or older than a rehash, is invalid, and using it is the fault \<open>UseAfterFree\<close>. Which
  calls a handler makes, and what it returns, are its environment's answer. The calls in progress are a stack of frames.
\<close>

section \<open>State\<close>

record handler_answer =
  h_calls :: "dispatcher_op list"
  h_ret :: int

type_synonym reentrant_env = "(handler_call, handler_answer) env"
type_synonym reentrant_history = "(handler_call, handler_answer) history"
type_synonym slot = "nat \<times> proto_id \<times> nat option"
type_synonym iterator = "nat \<times> nat"
type_synonym slot_order = "reentrant_history \<Rightarrow> slot list \<Rightarrow> slot \<Rightarrow> slot list \<times> bool"

record handler_slots =
  slots :: "slot list"
  next_slot :: nat
  rehashed :: nat

datatype frame =
    DF_calls "dispatcher_op list"
  | DF_init proto_id nat int
  | DF_uninit iterator
  | DF_process int
  | DF_timer "iterator option"
  | DF_next iterator
  | DF_clear "iterator option"

definition find_slot :: "handler_slots \<Rightarrow> proto_id \<Rightarrow> slot option" where
  "find_slot t pid = find (\<lambda>s. fst (snd s) = pid) (slots t)"

definition it_valid :: "handler_slots \<Rightarrow> iterator \<Rightarrow> bool" where
  "it_valid t it \<longleftrightarrow> snd it = rehashed t \<and> fst it \<in> fst ` set (slots t)"

text \<open>\<open>begin()\<close>, and \<open>++it\<close>; \<open>None\<close> is \<open>end()\<close>.\<close>

definition it_begin :: "handler_slots \<Rightarrow> iterator option" where
  "it_begin t = map_option (\<lambda>k. (k, rehashed t)) (first_node (slots t))"

definition it_next :: "handler_slots \<Rightarrow> iterator \<Rightarrow> iterator option" where
  "it_next t it = map_option (\<lambda>k. (k, rehashed t)) (node_behind (fst it) (slots t))"

definition insert_slot :: "slot_order \<Rightarrow> reentrant_history \<Rightarrow> handler_slots \<Rightarrow> proto_id \<Rightarrow> nat \<Rightarrow> handler_slots" where
  "insert_slot place h t pid p =
     (let (ss, moved) = place h (slots t) (next_slot t, pid, Some p)
      in t\<lparr>slots := ss, next_slot := Suc (next_slot t), rehashed := (if moved then Suc (rehashed t) else rehashed t)\<rparr>)"

section \<open>The operations\<close>

text \<open>What an operation does until its first call of a handler, and the frames it leaves, topmost first.\<close>

fun start_call ::
  "reentrant_env \<Rightarrow> handler_slots \<Rightarrow> reentrant_history \<Rightarrow> dispatcher_op \<Rightarrow> reentrant_history \<times> frame list" where
  "start_call env t h (D_register pid None) = (h, [])"
| "start_call env t h (D_register pid (Some p)) =
     (let (a, h1) = invoke env h (H_init p) in (h1, [DF_calls (h_calls a), DF_init pid p (h_ret a)]))"
| "start_call env t h (D_unregister pid) =
     (case find_slot t pid of
        Some (k, _, Some p) \<Rightarrow>
          let (a, h1) = invoke env h (H_uninit p) in (h1, [DF_calls (h_calls a), DF_uninit (k, rehashed t)])
      | _ \<Rightarrow> (h, []))"
| "start_call env t h (D_dispatch pid fd buf len) =
     (case find_slot t pid of
        Some (k, _, Some p) \<Rightarrow>
          let (a, h1) = invoke env h (H_process p fd buf len) in (h1, [DF_calls (h_calls a), DF_process (h_ret a)])
      | _ \<Rightarrow> (h, []))"
| "start_call env t h (D_timer_one pid) =
     (case find_slot t pid of
        Some (k, _, Some p) \<Rightarrow> let (a, h1) = invoke env h (H_timer_event p pid) in (h1, [DF_calls (h_calls a)])
      | _ \<Rightarrow> (h, []))"
| "start_call env t h D_timer = (h, [DF_timer (it_begin t)])"
| "start_call env t h D_clear = (h, [DF_clear (it_begin t)])"

fun print_slots :: "reentrant_env \<Rightarrow> reentrant_history \<Rightarrow> slot list \<Rightarrow> reentrant_history" where
  "print_slots env h [] = h"
| "print_slots env h ((k, pid, Some p) # ss) = print_slots env (snd (invoke env h (Log_proto pid p))) ss"
| "print_slots env h ((k, pid, None) # ss) = print_slots env h ss"

text \<open>The next part of the operation that is on top of the stack.\<close>

fun resume ::
  "slot_order \<Rightarrow> reentrant_env \<Rightarrow> handler_slots \<Rightarrow> reentrant_history \<Rightarrow> frame
     \<Rightarrow> fault + handler_slots \<times> reentrant_history \<times> frame list" where
  "resume place env t h (DF_calls []) = Inr (t, h, [])"
| "resume place env t h (DF_calls (c # cs)) = (let (h1, fs) = start_call env t h c in Inr (t, h1, fs @ [DF_calls cs]))"
| "resume place env t h (DF_init pid p r) =
     (if r \<noteq> 0 then Inr (t, h, [])
      else if find_slot t pid \<noteq> None
           then let (a, h1) = invoke env h (H_uninit p) in Inr (t, h1, [DF_calls (h_calls a)])
           else Inr (insert_slot place h t pid p, h, []))"
| "resume place env t h (DF_uninit it) =
     (if it_valid t it then Inr (t\<lparr>slots := erase_node (fst it) (slots t)\<rparr>, h, []) else Inl UseAfterFree)"
| "resume place env t h (DF_process r) =
     Inr (t, if r = phr_print_protos then print_slots env h (slots t) else h, [])"
| "resume place env t h (DF_timer None) = Inr (t, h, [])"
| "resume place env t h (DF_timer (Some it)) =
     (if \<not> it_valid t it then Inl UseAfterFree
      else case map_of (slots t) (fst it) of
             Some (pid, Some p) \<Rightarrow>
               let (a, h1) = invoke env h (H_timer_event p pid) in Inr (t, h1, [DF_calls (h_calls a), DF_next it])
           | _ \<Rightarrow> Inr (t, h, [DF_next it]))"
| "resume place env t h (DF_next it) =
     (if it_valid t it then Inr (t, h, [DF_timer (it_next t it)]) else Inl UseAfterFree)"
| "resume place env t h (DF_clear None) = Inr (t\<lparr>slots := []\<rparr>, h, [])"
| "resume place env t h (DF_clear (Some it)) =
     (if \<not> it_valid t it then Inl UseAfterFree
      else case map_of (slots t) (fst it) of
             Some (pid, _) \<Rightarrow>
               let (h1, fs) = start_call env t h (D_unregister pid) in Inr (t, h1, fs @ [DF_clear (it_next t it)])
           | None \<Rightarrow> Inl UseAfterFree)"

text \<open>\<open>None\<close> is a run that does not return.\<close>

partial_function (option) disp_run ::
  "slot_order \<Rightarrow> reentrant_env \<Rightarrow> handler_slots \<Rightarrow> reentrant_history \<Rightarrow> frame list
     \<Rightarrow> (fault + handler_slots \<times> reentrant_history) option" where
  "disp_run place env t h fs =
     (case fs of [] \<Rightarrow> Some (Inr (t, h))
      | f # gs \<Rightarrow> (case resume place env t h f of
            Inl e \<Rightarrow> Some (Inl e)
          | Inr (t1, h1, new) \<Rightarrow> disp_run place env t1 h1 (new @ gs)))"

text \<open>Calls from outside, one after another.\<close>

definition disp_calls ::
  "slot_order \<Rightarrow> reentrant_env \<Rightarrow> handler_slots \<Rightarrow> reentrant_history \<Rightarrow> dispatcher_op list
     \<Rightarrow> (fault + handler_slots \<times> reentrant_history) option" where
  "disp_calls place env t h ops = disp_run place env t h [DF_calls ops]"

definition no_slots :: handler_slots where
  "no_slots = \<lparr>slots = [], next_slot = 0, rehashed = 0\<rparr>"

section \<open>Considerate handlers\<close>

text \<open>
  A handler makes no call in \<open>uninit\<close>, and in \<open>timer_event\<close> it only unregisters other protocols. In \<open>init\<close> and
  \<open>process\<close> it may call what it likes.
\<close>

fun unregisters_other :: "proto_id \<Rightarrow> dispatcher_op \<Rightarrow> bool" where
  "unregisters_other pid (D_unregister q) = (q \<noteq> pid)"
| "unregisters_other pid _ = False"

definition considerate :: "reentrant_env \<Rightarrow> bool" where
  "considerate env \<longleftrightarrow> (\<forall>h p. h_calls (env h (H_uninit p)) = [])
     \<and> (\<forall>h p pid. list_all (unregisters_other pid) (h_calls (env h (H_timer_event p pid))))"

definition place_ok :: "slot_order \<Rightarrow> bool" where
  "place_ok place \<longleftrightarrow> (\<forall>h ss s. mset (fst (place h ss s)) = add_mset s (mset ss))"

definition slots_ok :: "handler_slots \<Rightarrow> bool" where
  "slots_ok t \<longleftrightarrow> distinct (map fst (slots t)) \<and> distinct (map (\<lambda>s. fst (snd s)) (slots t))
     \<and> (\<forall>s \<in> set (slots t). fst s < next_slot t \<and> snd (snd s) \<noteq> None)"

text \<open>The iterator of a frame is valid, and which frames may be above a frame.\<close>

fun own_ok :: "handler_slots \<Rightarrow> frame \<Rightarrow> bool" where
  "own_ok t (DF_uninit it) = it_valid t it"
| "own_ok t (DF_next it) = it_valid t it"
| "own_ok t (DF_timer (Some it)) = it_valid t it"
| "own_ok t (DF_clear (Some it)) = it_valid t it"
| "own_ok t _ = True"

definition it_pid :: "handler_slots \<Rightarrow> iterator \<Rightarrow> proto_id" where
  "it_pid t it = fst (the (map_of (slots t) (fst it)))"

fun above_ok :: "handler_slots \<Rightarrow> frame \<Rightarrow> frame \<Rightarrow> bool" where
  "above_ok t (DF_uninit it) f = (f = DF_calls [])"
| "above_ok t (DF_next it) f = (case f of DF_calls cs \<Rightarrow> list_all (unregisters_other (it_pid t it)) cs
     | DF_uninit j \<Rightarrow> fst j \<noteq> fst it | _ \<Rightarrow> False)"
| "above_ok t (DF_clear x) f = (case f of DF_calls cs \<Rightarrow> cs = []
     | DF_uninit j \<Rightarrow> x = None \<or> fst j \<noteq> fst (the x) | _ \<Rightarrow> False)"
| "above_ok t (DF_timer x) f = False"
| "above_ok t _ f = True"

fun stack_ok :: "handler_slots \<Rightarrow> frame list \<Rightarrow> bool" where
  "stack_ok t [] = True"
| "stack_ok t (f # fs) = (own_ok t f \<and> (\<forall>g \<in> set fs. above_ok t g f) \<and> stack_ok t fs)"

text \<open>\<open>clear_protos\<close> is at the first of the nodes that are not being erased.\<close>

fun clear_ok :: "slot list \<Rightarrow> frame list \<Rightarrow> bool" where
  "clear_ok ss [] = True"
| "clear_ok ss (DF_uninit it # fs) = clear_ok (erase_node (fst it) ss) fs"
| "clear_ok ss (DF_clear x # fs) = (map_option fst x = first_node ss)"
| "clear_ok ss (f # fs) = clear_ok ss fs"

text \<open>
  Every successful \<open>init\<close> of a handler is paid back by an \<open>uninit\<close>, a protocol it is registered for, or one it is
  about to be registered for; an entry about to be erased counts no more.
\<close>

definition returned :: "reentrant_history \<Rightarrow> handler_history" where
  "returned h = map (\<lambda>(c, a). (c, h_ret a)) h"

definition slots_of :: "handler_slots \<Rightarrow> nat \<Rightarrow> nat" where
  "slots_of t p = length (filter (\<lambda>s. snd (snd s) = Some p) (slots t))"

fun coming :: "nat \<Rightarrow> frame \<Rightarrow> nat" where
  "coming p (DF_init pid q r) = (if q = p \<and> r = 0 then 1 else 0)"
| "coming p _ = 0"

fun going :: "handler_slots \<Rightarrow> nat \<Rightarrow> frame \<Rightarrow> nat" where
  "going t p (DF_uninit it) = (if snd (the (map_of (slots t) (fst it))) = Some p then 1 else 0)"
| "going t p _ = 0"

definition balanced :: "handler_slots \<Rightarrow> reentrant_history \<Rightarrow> frame list \<Rightarrow> bool" where
  "balanced t h fs \<longleftrightarrow> (\<forall>p. inits (returned h) p + sum_list (map (going t p) fs)
     = uninits (returned h) p + slots_of t p + sum_list (map (coming p) fs))"

definition disp_inv :: "handler_slots \<Rightarrow> reentrant_history \<Rightarrow> frame list \<Rightarrow> bool" where
  "disp_inv t h fs \<longleftrightarrow> slots_ok t \<and> stack_ok t fs \<and> clear_ok (slots t) fs \<and> balanced t h fs"

subsection \<open>Frames that hold nothing\<close>

fun free_frame :: "frame \<Rightarrow> bool" where
  "free_frame (DF_calls cs) = True"
| "free_frame (DF_init pid p r) = True"
| "free_frame (DF_process r) = True"
| "free_frame _ = False"

lemma above_free: "free_frame g \<Longrightarrow> above_ok t g f"
  by (cases g) simp_all

lemma own_free: "free_frame g \<Longrightarrow> own_ok t g"
  by (cases g) simp_all

lemma stack_free: "\<forall>g \<in> set fs. free_frame g \<Longrightarrow> stack_ok t fs"
  by (induction fs) (auto intro: above_free own_free)

lemma clear_no_clear: "\<forall>x. DF_clear x \<notin> set fs \<Longrightarrow> clear_ok ss fs"
proof (induction fs arbitrary: ss)
  case (Cons f fs)
  then show ?case by (cases f) auto
qed simp

lemma clear_free: "\<forall>g \<in> set fs. free_frame g \<Longrightarrow> clear_ok ss fs"
proof (induction fs)
  case (Cons f fs)
  then show ?case by (cases f) simp_all
qed simp

lemma going_free: "\<forall>g \<in> set fs. free_frame g \<Longrightarrow> sum_list (map (going t p) fs) = 0"
proof (induction fs)
  case (Cons f fs)
  then show ?case by (cases f) simp_all
qed simp

text \<open>Only calls and erasures may be above a frame that holds an iterator.\<close>

fun mild :: "frame \<Rightarrow> bool" where
  "mild (DF_calls cs) = True"
| "mild (DF_uninit it) = True"
| "mild _ = False"

lemma above_strict: "above_ok t g f \<Longrightarrow> \<not> mild f \<Longrightarrow> free_frame g"
  by (cases g; cases f) simp_all

lemma above_calls:
  "above_ok t g (DF_calls (c # cs)) \<Longrightarrow> \<not> free_frame g \<Longrightarrow>
   \<exists>it q. g = DF_next it \<and> c = D_unregister q \<and> q \<noteq> it_pid t it \<and> list_all (unregisters_other (it_pid t it)) cs"
  by (cases g; cases c) simp_all

lemma find_SomeD: "find P xs = Some x \<Longrightarrow> x \<in> set xs \<and> P x"
  by (induction xs) (auto split: if_splits)

lemma find_slotD:
  assumes "slots_ok t" and "find_slot t pid = Some (k, q, e)"
  obtains p where "q = pid" and "e = Some p" and "map_of (slots t) k = Some (pid, Some p)"
    and "it_valid t (k, rehashed t)" and "(k, pid, Some p) \<in> set (slots t)"
proof -
  note f = find_SomeD [OF assms(2) [unfolded find_slot_def], unfolded fst_conv snd_conv]
  then have q: "q = pid" and s: "(k, pid, e) \<in> set (slots t)" by auto
  then obtain p where e: "e = Some p" using assms(1) by (fastforce simp: slots_ok_def)
  moreover have "map_of (slots t) k = Some (pid, e)" using s assms(1) by (simp add: slots_ok_def)
  moreover have "it_valid t (k, rehashed t)" using s by (force simp: it_valid_def)
  ultimately show ?thesis using q s by (intro that) simp_all
qed

lemma find_slot_other: "find_slot t pid = Some (k, q, e) \<Longrightarrow> map_of (slots t) j = Some (q', e') \<Longrightarrow> q' \<noteq> pid \<Longrightarrow> slots_ok t \<Longrightarrow> j \<noteq> k"
  by (auto elim: find_slotD)

lemma find_slot_None: "find_slot t pid = None \<longleftrightarrow> pid \<notin> (\<lambda>s. fst (snd s)) ` set (slots t)"
  by (auto simp: find_slot_def find_None_iff image_iff)

lemma it_validD: "it_valid t it \<Longrightarrow> slots_ok t \<Longrightarrow> \<exists>pid p. map_of (slots t) (fst it) = Some (pid, Some p) \<and> it_pid t it = pid"
proof -
  assume v: "it_valid t it" and ok: "slots_ok t"
  then obtain pid e where s: "(fst it, pid, e) \<in> set (slots t)" by (auto simp: it_valid_def)
  then obtain p where "e = Some p" using ok by (fastforce simp: slots_ok_def)
  moreover have "map_of (slots t) (fst it) = Some (pid, e)" using s ok by (simp add: slots_ok_def)
  ultimately show ?thesis by (simp add: it_pid_def)
qed

subsection \<open>Bookkeeping\<close>

lemma returned_append [simp]: "returned (h @ h') = returned h @ returned h'" "returned [] = []"
  "returned ((c, a) # h) = (c, h_ret a) # returned h"
  by (simp_all add: returned_def)

lemma balanced_same:
  assumes "balanced t h fs" and "\<And>p. inits (returned h') p + sum_list (map (coming p) fs) + sum_list (map (going t p) fs')
    + uninits (returned h) p = inits (returned h) p + sum_list (map (coming p) fs') + sum_list (map (going t p) fs) + uninits (returned h') p"
  shows "balanced t h' fs'"
  unfolding balanced_def
proof
  fix p
  show "inits (returned h') p + sum_list (map (going t p) fs') = uninits (returned h') p + slots_of t p + sum_list (map (coming p) fs')"
    using assms(2) [of p] assms(1) [unfolded balanced_def, rule_format, of p] by linarith
qed

lemma returned_print: "inits (returned (print_slots env h ss)) p = inits (returned h) p \<and> uninits (returned (print_slots env h ss)) p = uninits (returned h) p"
  by (induction env h ss rule: print_slots.induct) (simp_all add: invoke_def)

text \<open>The erasure of a node whose handler has been told.\<close>

definition erased :: "iterator \<Rightarrow> handler_slots \<Rightarrow> handler_slots" where
  "erased it t = t\<lparr>slots := erase_node (fst it) (slots t)\<rparr>"

lemma slots_ok_erased: "slots_ok t \<Longrightarrow> slots_ok (erased it t)"
  by (auto simp: slots_ok_def erased_def erase_node_def distinct_map_filter)

lemma it_valid_erased: "it_valid t j \<Longrightarrow> fst j \<noteq> fst it \<Longrightarrow> it_valid (erased it t) j"
  by (simp add: it_valid_def erased_def erase_node_set)

lemma map_of_erased: "j \<noteq> fst it \<Longrightarrow> map_of (slots (erased it t)) j = map_of (slots t) j"
  by (simp add: erased_def erase_node_map_of)

lemma frame_erased:
  assumes "above_ok t g (DF_uninit it)"
  shows "own_ok t g \<Longrightarrow> own_ok (erased it t) g" and "above_ok t g f \<Longrightarrow> above_ok (erased it t) g f"
    and "going (erased it t) p g = going t p g"
proof -
  show "own_ok t g \<Longrightarrow> own_ok (erased it t) g"
    using assms by (induction t g rule: own_ok.induct) (simp_all add: it_valid_erased)
  show "above_ok t g f \<Longrightarrow> above_ok (erased it t) g f"
    using assms by (cases g) (auto simp: it_pid_def map_of_erased split: frame.splits)
  show "going (erased it t) p g = going t p g"
    using assms by (cases g) simp_all
qed

lemma stack_erased:
  "stack_ok t fs \<Longrightarrow> (\<And>g. g \<in> set fs \<Longrightarrow> above_ok t g (DF_uninit it)) \<Longrightarrow> stack_ok (erased it t) fs"
  by (induction fs) (auto intro: frame_erased)

lemma slots_of_erased:
  assumes "slots_ok t" and "it_valid t it"
  shows "slots_of t p = slots_of (erased it t) p + going t p (DF_uninit it)"
proof -
  obtain e where "(fst it, e) \<in> set (slots t)" using assms(2) by (auto simp: it_valid_def)
  then obtain bs rest where s: "slots t = bs @ (fst it, e) # rest" by (auto dest: split_list)
  have d: "fst it \<notin> fst ` set bs" "fst it \<notin> fst ` set rest" using assms(1) s by (auto simp: slots_ok_def)
  have "erase_node (fst it) (slots t) = bs @ rest"
    using erase_node_other [OF d(1)] erase_node_other [OF d(2)] by (simp add: s erase_node_def)
  moreover have "map_of (slots t) (fst it) = Some e" unfolding s by (rule map_of_split [OF d(1)])
  ultimately show ?thesis by (simp add: slots_of_def erased_def s)
qed

lemma inv_erase:
  assumes "disp_inv t h (DF_uninit it # fs)"
  shows "it_valid t it \<and> disp_inv (erased it t) h fs"
proof -
  have v: "it_valid t it" and ok: "slots_ok t" and fs: "\<And>g. g \<in> set fs \<Longrightarrow> above_ok t g (DF_uninit it)" "stack_ok t fs"
    using assms by (auto simp: disp_inv_def)
  have going: "map (going (erased it t) p) fs = map (going t p) fs" for p using frame_erased(3) [OF fs(1)] by simp
  have "balanced (erased it t) h fs"
    unfolding balanced_def going
  proof
    fix p
    have "inits (returned h) p + sum_list (map (going t p) (DF_uninit it # fs))
        = uninits (returned h) p + slots_of t p + sum_list (map (coming p) (DF_uninit it # fs))"
      using assms unfolding disp_inv_def balanced_def by blast
    then show "inits (returned h) p + sum_list (map (going t p) fs)
        = uninits (returned h) p + slots_of (erased it t) p + sum_list (map (coming p) fs)"
      unfolding slots_of_erased [OF ok v, of p] by simp
  qed
  moreover have "clear_ok (slots (erased it t)) fs" using assms by (simp add: disp_inv_def erased_def)
  ultimately show ?thesis
    using v slots_ok_erased [OF ok] stack_erased [OF fs(2,1)] by (simp add: disp_inv_def)
qed

lemma insert_slot_ok:
  assumes "slots_ok t" and "find_slot t pid = None" and "place_ok place"
  shows "mset (slots (insert_slot place h t pid p)) = add_mset (next_slot t, pid, Some p) (mset (slots t))"
    and "slots_ok (insert_slot place h t pid p)"
proof -
  let ?s = "(next_slot t, pid, Some p)" and ?t = "insert_slot place h t pid p"
  have "mset (fst (place h (slots t) ?s)) = add_mset ?s (mset (slots t))" using assms(3) by (simp only: place_ok_def)
  then have m: "mset (slots ?t) = mset (?s # slots t)" and n: "next_slot ?t = Suc (next_slot t)"
    by (simp_all add: insert_slot_def case_prod_unfold Let_def)
  then show "mset (slots ?t) = add_mset ?s (mset (slots t))" by simp
  have dist: "distinct (map f (slots ?t)) = distinct (map f (?s # slots t))" for f :: "slot \<Rightarrow> 'z"
    by (rule mset_eq_imp_distinct_iff) (simp only: mset_map m)
  have set: "set (slots ?t) = insert ?s (set (slots t))" using mset_eq_setD [OF m] by simp
  have "fst ?s \<notin> fst ` set (slots t)" using assms(1) by (fastforce simp: slots_ok_def)
  moreover have "pid \<notin> (\<lambda>s. fst (snd s)) ` set (slots t)" using assms(2) by (simp only: find_slot_None) simp
  ultimately show "slots_ok ?t"
    using assms(1) unfolding slots_ok_def dist set n by auto
qed

lemma inv_insert:
  assumes "disp_inv t h (DF_init pid p 0 # fs)" and "find_slot t pid = None" and "place_ok place"
  shows "disp_inv (insert_slot place h t pid p) h fs"
proof -
  let ?t = "insert_slot place h t pid p"
  have ok: "slots_ok t" using assms(1) by (simp add: disp_inv_def)
  have free: "\<forall>g \<in> set fs. free_frame g"
    using assms(1) above_strict [of t _ "DF_init pid p 0"] by (auto simp: disp_inv_def)
  note ins = insert_slot_ok [OF ok assms(2,3), of h p]
  have "slots_of ?t q = slots_of t q + (if p = q then 1 else 0)" for q
  proof -
    have "slots_of ?t q = size (filter_mset (\<lambda>s. snd (snd s) = Some q) (mset (slots ?t)))"
      by (simp only: slots_of_def size_mset [symmetric] mset_filter)
    also have "\<dots> = slots_of t q + (if p = q then 1 else 0)"
      unfolding ins(1) by (simp add: slots_of_def flip: mset_filter)
    finally show ?thesis .
  qed
  then have "balanced ?t h fs"
    using assms(1) going_free [OF free] unfolding disp_inv_def balanced_def by (auto split: if_splits)
  then show ?thesis
    using ins(2) stack_free [OF free] clear_free [OF free] by (simp add: disp_inv_def)
qed

subsection \<open>Every part of an operation keeps the invariant\<close>

lemma inv_free:
  assumes "balanced t h fs" and "slots_ok t" and "\<forall>g \<in> set fs'. free_frame g"
    and "\<And>p. inits (returned h') p + sum_list (map (coming p) fs) + sum_list (map (going t p) fs') + uninits (returned h) p
      = inits (returned h) p + sum_list (map (coming p) fs') + sum_list (map (going t p) fs) + uninits (returned h') p"
  shows "disp_inv t h' fs'"
  unfolding disp_inv_def
  by (intro conjI assms(2) stack_free [OF assms(3)] clear_free [OF assms(3)] balanced_same [OF assms(1,4)])

lemma start_unregister:
  assumes "considerate env" and "slots_ok t"
  obtains "find_slot t pid = None" and "start_call env t h (D_unregister pid) = (h, [])"
  | k p where "find_slot t pid = Some (k, pid, Some p)"
      and "start_call env t h (D_unregister pid) = (h @ [(H_uninit p, env h (H_uninit p))], [DF_calls [], DF_uninit (k, rehashed t)])"
proof (cases "find_slot t pid")
  case None
  then show ?thesis using that(1) by simp
next
  case (Some s)
  obtain k q e where s: "s = (k, q, e)" by (cases s) auto
  from find_slotD [OF assms(2) Some [unfolded s]] obtain p where "q = pid" "e = Some p" by blast
  then show ?thesis
    using that(2) [of k p] Some s assms(1) by (simp add: invoke_def considerate_def)
qed

lemma push_unregister:
  assumes "slots_ok t" and "stack_ok t rest" and "balanced t h rest" and "find_slot t pid = Some (k, pid, Some p)"
    and "\<And>g. g \<in> set rest \<Longrightarrow> above_ok t g (DF_uninit (k, rehashed t)) \<and> above_ok t g (DF_calls [])"
    and "clear_ok (erase_node k (slots t)) rest"
  shows "disp_inv t (h @ [(H_uninit p, a)]) (DF_calls [] # DF_uninit (k, rehashed t) # rest)"
proof -
  have m: "map_of (slots t) k = Some (pid, Some p)" and v: "it_valid t (k, rehashed t)"
    by (rule find_slotD [OF assms(1,4)], simp)+
  have "stack_ok t (DF_calls [] # DF_uninit (k, rehashed t) # rest)" using assms(2,5) v by simp
  moreover have "balanced t (h @ [(H_uninit p, a)]) (DF_calls [] # DF_uninit (k, rehashed t) # rest)"
    by (rule balanced_same [OF assms(3)]) (simp add: m)
  ultimately show ?thesis using assms(1,6) by (simp add: disp_inv_def)
qed

lemma it_begin_ok: "own_ok t (DF_timer (it_begin t))" "own_ok t (DF_clear (it_begin t))"
  by (cases "slots t"; simp add: it_begin_def it_valid_def)+

lemma it_next_ok: "slots_ok t \<Longrightarrow> own_ok t (DF_timer (it_next t it)) \<and> own_ok t (DF_clear (it_next t it))"
  by (cases "node_behind (fst it) (slots t)")
    (auto simp: it_next_def it_valid_def slots_ok_def dest: node_behind_in)

lemma inv_calls:
  assumes "considerate env" and "disp_inv t h (DF_calls (c # cs) # fs)" and "start_call env t h c = (h1, new)"
  shows "disp_inv t h1 (new @ DF_calls cs # fs)"
proof -
  have ok: "slots_ok t" and st: "stack_ok t fs" and ab: "\<And>g. g \<in> set fs \<Longrightarrow> above_ok t g (DF_calls (c # cs))"
    and bal: "balanced t h (DF_calls (c # cs) # fs)"
    using assms(2) by (auto simp: disp_inv_def)
  show ?thesis
  proof (cases "\<exists>q. c = D_unregister q")
    case True
    then obtain q where c: "c = D_unregister q" by blast
    have below: "free_frame g \<or> (\<exists>it. g = DF_next it \<and> q \<noteq> it_pid t it \<and> list_all (unregisters_other (it_pid t it)) cs)"
      if "g \<in> set fs" for g using above_calls [OF ab [OF that]] c by auto
    have rest: "stack_ok t (DF_calls cs # fs)" using st below by (fastforce intro: above_free)
    have "\<forall>x. DF_clear x \<notin> set fs" using below by fastforce
    then have clear: "clear_ok ss (DF_calls cs # fs)" for ss by (simp add: clear_no_clear)
    have bal': "balanced t h (DF_calls cs # fs)" by (rule balanced_same [OF bal]) simp
    show ?thesis
    proof (rule start_unregister [OF assms(1) ok, of q h])
      assume "start_call env t h (D_unregister q) = (h, [])"
      then show ?thesis using assms(3) c ok rest bal' clear by (simp add: disp_inv_def)
    next
      fix k p
      assume f: "find_slot t q = Some (k, q, Some p)"
        and new: "start_call env t h (D_unregister q) = (h @ [(H_uninit p, env h (H_uninit p))], [DF_calls [], DF_uninit (k, rehashed t)])"
      have "above_ok t g (DF_uninit (k, rehashed t)) \<and> above_ok t g (DF_calls [])" if mem: "g \<in> set (DF_calls cs # fs)" for g
      proof (cases "free_frame g")
        case False
        then have fs: "g \<in> set fs" using mem by auto
        then obtain it where g: "g = DF_next it" "q \<noteq> it_pid t it" using below False by blast
        have "it_valid t it" using st g(1) fs by (induction fs) auto
        then obtain p' where "map_of (slots t) (fst it) = Some (it_pid t it, Some p')" using it_validD [OF _ ok] by blast
        then have "fst it \<noteq> k" using find_slot_other [OF f _ _ ok] g(2) by metis
        then show ?thesis using g(1) by simp
      qed (simp add: above_free)
      note push = push_unregister [OF ok rest bal' f this clear, where a = "env h (H_uninit p)"]
      have "h1 = h @ [(H_uninit p, env h (H_uninit p))]" "new = [DF_calls [], DF_uninit (k, rehashed t)]"
        using new assms(3) unfolding c by simp_all
      then show ?thesis using push by simp
    qed
  next
    case False
    have free: "\<forall>g \<in> set fs. free_frame g" using above_calls [OF ab] False by blast
    show ?thesis
    proof (cases "c = D_timer \<or> c = D_clear")
      case True
      then obtain f where f: "new = [f]" "h1 = h" "f = DF_timer (it_begin t) \<or> f = DF_clear (it_begin t)"
        using assms(3) by auto
      have "balanced t h (f # DF_calls cs # fs)" by (rule balanced_same [OF bal]) (use f(3) in auto)
      moreover have "clear_ok (slots t) (f # DF_calls cs # fs)"
        using f(3) clear_free [OF free] by (auto simp: it_begin_def option.map_comp comp_def option.map_ident)
      moreover have "stack_ok t (f # DF_calls cs # fs)"
        using f(3) free it_begin_ok [of t] by (auto intro: above_free stack_free)
      ultimately show ?thesis using ok f(1,2) by (simp add: disp_inv_def)
    next
      case other: False
      have "\<forall>g \<in> set (new @ DF_calls cs # fs). free_frame g"
        using assms(3) free False other by (cases "(env, t, h, c)" rule: start_call.cases) (auto simp: invoke_def split: option.splits prod.splits)
      moreover have "inits (returned h1) p + sum_list (map (coming p) (DF_calls (c # cs) # fs))
            + sum_list (map (going t p) (new @ DF_calls cs # fs)) + uninits (returned h) p
          = inits (returned h) p + sum_list (map (coming p) (new @ DF_calls cs # fs))
            + sum_list (map (going t p) (DF_calls (c # cs) # fs)) + uninits (returned h1) p" for p
        using assms(3) False other by (cases "(env, t, h, c)" rule: start_call.cases) (auto simp: invoke_def split: option.splits prod.splits)
      ultimately show ?thesis by (rule inv_free [OF bal ok])
    qed
  qed
qed

lemma inv_clear:
  assumes "considerate env" and "disp_inv t h (DF_clear (Some it) # fs)"
  shows "\<exists>h1 new. resume place env t h (DF_clear (Some it)) = Inr (t, h1, new) \<and> disp_inv t h1 (new @ fs)"
proof -
  have ok: "slots_ok t" and v: "it_valid t it" and st: "stack_ok t fs" and cl: "first_node (slots t) = Some (fst it)"
    and free: "\<forall>g \<in> set fs. free_frame g" and bal: "balanced t h (DF_clear (Some it) # fs)"
    using assms(2) above_strict [of t _ "DF_clear (Some it)"] by (auto simp: disp_inv_def)
  obtain pid p where m: "map_of (slots t) (fst it) = Some (pid, Some p)" using it_validD [OF v ok] by blast
  then obtain rest where s: "slots t = (fst it, pid, Some p) # rest"
    using cl by (cases "slots t") auto
  have f: "find_slot t pid = Some (fst it, pid, Some p)" by (simp add: find_slot_def s)
  have n: "fst it \<notin> fst ` set rest" using ok s by (simp add: slots_ok_def)
  have nxt: "it_next t it = map_option (\<lambda>k. (k, rehashed t)) (first_node rest)" by (simp add: it_next_def s)
  let ?rest = "DF_clear (it_next t it) # fs"
  have "stack_ok t ?rest" using it_next_ok [OF ok, of it] st free by (auto intro: above_free)
  moreover have "balanced t h ?rest" by (rule balanced_same [OF bal]) simp
  moreover have "above_ok t g (DF_uninit (fst it, rehashed t)) \<and> above_ok t g (DF_calls [])" if "g \<in> set ?rest" for g
  proof (cases "free_frame g")
    case False
    then have "g = DF_clear (it_next t it)" using that free by auto
    moreover have "it_next t it = None \<or> fst (the (it_next t it)) \<noteq> fst it"
      using n first_node_in [of rest "fst it"] by (cases "first_node rest"; simp add: nxt; blast)
    ultimately show ?thesis by auto
  qed (simp add: above_free)
  moreover have "clear_ok (erase_node (fst it) (slots t)) ?rest"
    using erase_node_other [OF n] by (simp add: s nxt erase_node_def option.map_comp comp_def option.map_ident)
  ultimately have "disp_inv t (h @ [(H_uninit p, env h (H_uninit p))]) (DF_calls [] # DF_uninit (fst it, rehashed t) # ?rest)"
    using f by (intro push_unregister [OF ok])
  then show ?thesis
    using assms(1) v m f by (simp add: invoke_def considerate_def Let_def)
qed

lemma inv_timer:
  assumes "considerate env" and "disp_inv t h (DF_timer (Some it) # fs)"
  shows "\<exists>h1 new. resume place env t h (DF_timer (Some it)) = Inr (t, h1, new) \<and> disp_inv t h1 (new @ fs)"
proof -
  have ok: "slots_ok t" and v: "it_valid t it" and st: "stack_ok t fs"
    and free: "\<forall>g \<in> set fs. free_frame g" and bal: "balanced t h (DF_timer (Some it) # fs)"
    using assms(2) above_strict [of t _ "DF_timer (Some it)"] by (auto simp: disp_inv_def)
  obtain pid p where m: "map_of (slots t) (fst it) = Some (pid, Some p)" and "it_pid t it = pid" using it_validD [OF v ok] by blast
  let ?a = "env h (H_timer_event p pid)"
  have "list_all (unregisters_other pid) (h_calls ?a)" using assms(1) by (simp add: considerate_def)
  then have "stack_ok t ([DF_calls (h_calls ?a), DF_next it] @ fs)"
    using v st free \<open>it_pid t it = pid\<close> by (auto intro: above_free)
  moreover have "balanced t (h @ [(H_timer_event p pid, ?a)]) ([DF_calls (h_calls ?a), DF_next it] @ fs)"
    by (rule balanced_same [OF bal]) simp
  ultimately show ?thesis using v m ok clear_free [OF free] by (simp add: disp_inv_def invoke_def)
qed

lemma resume_inv:
  assumes "considerate env" and "place_ok place" and "disp_inv t h (f # fs)"
  shows "\<exists>t1 h1 new. resume place env t h f = Inr (t1, h1, new) \<and> disp_inv t1 h1 (new @ fs)"
proof -
  have ok: "slots_ok t" and st: "stack_ok t fs" and ab: "\<And>g. g \<in> set fs \<Longrightarrow> above_ok t g f" and own: "own_ok t f"
    and bal: "balanced t h (f # fs)" and cl: "clear_ok (slots t) (f # fs)"
    using assms(3) by (auto simp: disp_inv_def)
  have free: "\<not> mild f \<Longrightarrow> \<forall>g \<in> set fs. free_frame g" using above_strict ab by blast
  show ?thesis
  proof (cases f)
    case (DF_calls cs)
    show ?thesis
    proof (cases cs)
      case Nil
      have "balanced t h fs" by (rule balanced_same [OF bal]) (simp add: DF_calls)
      then show ?thesis using ok st cl DF_calls Nil by (simp add: disp_inv_def)
    next
      case (Cons c cs')
      obtain h1 new where "start_call env t h c = (h1, new)" by fastforce
      then show ?thesis using inv_calls [OF assms(1) assms(3) [unfolded DF_calls Cons]] DF_calls Cons by simp
    qed
  next
    case (DF_init pid p r)
    then have free: "\<forall>g \<in> set fs. free_frame g" using free by simp
    consider "r \<noteq> 0" | "r = 0" "find_slot t pid = None" | "r = 0" "find_slot t pid \<noteq> None" by blast
    then show ?thesis
    proof cases
      case 1
      have "disp_inv t h fs" by (rule inv_free [OF bal ok free]) (simp add: DF_init 1)
      then show ?thesis using 1 DF_init by simp
    next
      case 2
      then show ?thesis using inv_insert [OF _ 2(2) assms(2)] assms(3) DF_init by simp
    next
      case 3
      let ?a = "env h (H_uninit p)"
      have "disp_inv t (h @ [(H_uninit p, ?a)]) (DF_calls (h_calls ?a) # fs)"
        by (rule inv_free [OF bal ok]) (use free 3(1) in \<open>simp_all add: DF_init\<close>)
      then show ?thesis using 3 DF_init by (simp add: invoke_def)
    qed
  next
    case (DF_uninit it)
    then show ?thesis using inv_erase [of t h it fs] assms(3) by (simp add: erased_def)
  next
    case (DF_process r)
    let ?h = "if r = phr_print_protos then print_slots env h (slots t) else h"
    have "disp_inv t ?h fs"
      by (rule inv_free [OF bal ok]) (use free returned_print in \<open>simp_all add: DF_process\<close>)
    then show ?thesis using DF_process by simp
  next
    case (DF_timer x)
    show ?thesis
    proof (cases x)
      case None
      have "disp_inv t h fs" by (rule inv_free [OF bal ok]) (use free in \<open>simp_all add: DF_timer\<close>)
      then show ?thesis using DF_timer None by simp
    next
      case (Some it)
      then show ?thesis using inv_timer [OF assms(1), of t h it fs place] assms(3) unfolding DF_timer Some by blast
    qed
  next
    case (DF_next it)
    then have free: "\<forall>g \<in> set fs. free_frame g" using free by simp
    have "balanced t h (DF_timer (it_next t it) # fs)" by (rule balanced_same [OF bal]) (simp add: DF_next)
    moreover have "stack_ok t (DF_timer (it_next t it) # fs)" using free st it_next_ok [OF ok, of it] by (auto intro: above_free)
    ultimately show ?thesis using own ok clear_free [OF free] DF_next by (simp add: disp_inv_def)
  next
    case (DF_clear x)
    show ?thesis
    proof (cases x)
      case None
      then have "slots t = []" using cl DF_clear by (cases "slots t") simp_all
      then have "t\<lparr>slots := []\<rparr> = t" by simp
      moreover have "disp_inv t h fs" by (rule inv_free [OF bal ok]) (use free in \<open>simp_all add: DF_clear\<close>)
      ultimately show ?thesis using DF_clear None by simp
    next
      case (Some it)
      then show ?thesis using inv_clear [OF assms(1), of t h it fs place] assms(3) unfolding DF_clear Some by blast
    qed
  qed
qed

section \<open>Runs\<close>

type_synonym disp_state = "handler_slots \<times> reentrant_history \<times> frame list"

inductive disp_step :: "slot_order \<Rightarrow> reentrant_env \<Rightarrow> disp_state \<Rightarrow> disp_state \<Rightarrow> bool" for place env where
  "resume place env t h f = Inr (t1, h1, new) \<Longrightarrow> disp_step place env (t, h, f # fs) (t1, h1, new @ fs)"

inductive_cases disp_stepE: "disp_step place env (t, h, f # fs) s'"

definition disp_start :: "dispatcher_op list \<Rightarrow> disp_state" where
  "disp_start ops = (no_slots, [], [DF_calls ops])"

lemma disp_inv_start: "disp_inv no_slots [] [DF_calls ops]"
  by (simp add: disp_inv_def slots_ok_def no_slots_def balanced_def slots_of_def)

lemma disp_inv_step:
  "considerate env \<Longrightarrow> place_ok place \<Longrightarrow> disp_step place env (t, h, fs) (t', h', fs') \<Longrightarrow> disp_inv t h fs \<Longrightarrow> disp_inv t' h' fs'"
  by (erule disp_step.cases) (use resume_inv in fastforce)

interpretation considerate_run: state_machine
  "\<lambda>(place, env, t, h, fs). considerate env \<and> place_ok place \<and> (\<exists>ops. (t, h, fs) = disp_start ops)"
  "\<lambda>(place, env, s) (place', env', s'). place' = place \<and> env' = env \<and> disp_step place env s s'"
  "\<lambda>(place, env, t, h, fs). considerate env \<and> place_ok place \<and> disp_inv t h fs"
  by unfold_locales (auto simp: disp_start_def disp_inv_start intro: disp_inv_step)

lemma disp_run_reaches:
  assumes "(disp_step place env)\<^sup>*\<^sup>* s s'"
  shows "(\<lambda>(place, env, s) (place', env', s'). place' = place \<and> env' = env \<and> disp_step place env s s')\<^sup>*\<^sup>*
    (place, env, s) (place, env, s')"
  using assms by (induction rule: rtranclp_induct) (auto elim: rtranclp.rtrancl_into_rtrancl)

lemma disp_reachable_inv:
  assumes "considerate env" and "place_ok place" and "(disp_step place env)\<^sup>*\<^sup>* (disp_start ops) (t, h, fs)"
  shows "disp_inv t h fs"
  using considerate_run.reachable_inv [OF disp_run_reaches [OF assms(3)]] assms(1,2) by (auto simp: disp_start_def)

section \<open>Calls that return\<close>

text \<open>In \<open>init\<close> and \<open>process\<close> a handler does not register or dispatch.\<close>

fun level :: "dispatcher_op \<Rightarrow> nat" where
  "level (D_unregister pid) = 1"
| "level (D_timer_one pid) = 2"
| "level D_timer = 3"
| "level D_clear = 3"
| "level _ = 4"

definition shallow :: "reentrant_env \<Rightarrow> bool" where
  "shallow env \<longleftrightarrow> (\<forall>h p. list_all (\<lambda>c. level c < 4) (h_calls (env h (H_init p))))
     \<and> (\<forall>h p fd buf len. list_all (\<lambda>c. level c < 4) (h_calls (env h (H_process p fd buf len))))"

text \<open>How many nodes there are from an iterator on.\<close>

fun from_node :: "nat \<Rightarrow> (nat \<times> 'a) list \<Rightarrow> nat" where
  "from_node k [] = 0"
| "from_node k (n # ns) = (if fst n = k then length (n # ns) else from_node k ns)"

definition ahead :: "handler_slots \<Rightarrow> iterator \<Rightarrow> nat" where
  "ahead t it = from_node (fst it) (slots t)"

text \<open>What a frame still has to do: a part of an operation is replaced by parts of lower levels.\<close>

fun todo :: "handler_slots \<Rightarrow> frame \<Rightarrow> nat multiset" where
  "todo t (DF_calls cs) = add_mset 0 (mset (map level cs))"
| "todo t (DF_init pid p r) = {#1#}"
| "todo t (DF_timer (Some it)) = add_mset 0 (replicate_mset (2 * ahead t it) 2)"
| "todo t (DF_next it) = add_mset 0 (replicate_mset (2 * ahead t it - 1) 2)"
| "todo t (DF_clear (Some it)) = add_mset 0 (replicate_mset (ahead t it) 2)"
| "todo t _ = {#0#}"

definition all_todo :: "handler_slots \<Rightarrow> frame list \<Rightarrow> nat multiset" where
  "all_todo t fs = sum_list (map (todo t) fs)"

lemma all_todo_simps [simp]: "all_todo t [] = {#}" "all_todo t (f # fs) = todo t f + all_todo t fs"
  "all_todo t (fs @ gs) = all_todo t fs + all_todo t gs"
  by (simp_all add: all_todo_def)

lemma replaced: "(\<And>x. x \<in># M \<Longrightarrow> x < a) \<Longrightarrow> M + K < add_mset (a :: nat) K"
proof -
  assume "\<And>x. x \<in># M \<Longrightarrow> x < a"
  then have "M < {#a#}" by (intro ex_gt_imp_less_multiset) auto
  then have "M + K < {#a#} + K" by (rule add_strict_right_mono)
  then show ?thesis by simp
qed

lemma from_node_erase: "from_node k (erase_node j ns) \<le> from_node k ns" if "k \<noteq> j"
proof (induction ns)
  case (Cons n ns)
  have "length (erase_node j ns) \<le> length ns" by (simp add: erase_node_def)
  with Cons that show ?case by (auto simp: erase_node_def)
qed (simp add: erase_node_def)

lemma from_node_behind: "distinct (map fst ns) \<Longrightarrow> node_behind k ns = Some j \<Longrightarrow> Suc (from_node j ns) = from_node k ns"
proof (induction ns)
  case (Cons n ns)
  show ?case
  proof (cases "fst n = k")
    case True
    then show ?thesis using Cons.prems node_behind_in [of "n # ns" k j]
      by (cases ns) (auto split: if_splits)
  next
    case False
    then have "j \<in> fst ` set ns" using Cons.prems node_behind_in [of ns k j] by simp
    then have "fst n \<noteq> j" using Cons.prems(1) by auto
    with False Cons show ?thesis by simp
  qed
qed simp

lemma todo_erased:
  "stack_ok t fs \<Longrightarrow> (\<And>g. g \<in> set fs \<Longrightarrow> above_ok t g (DF_uninit it)) \<Longrightarrow> all_todo (erased it t) fs \<le> all_todo t fs"
proof (induction fs)
  case (Cons g fs)
  have le: "ahead (erased it t) j \<le> ahead t j" if "fst it \<noteq> fst j" for j
    using from_node_erase [of "fst j" "fst it" "slots t"] that by (simp add: ahead_def erased_def)
  have "above_ok t g (DF_uninit it)" by (rule Cons.prems(2)) simp
  then have "todo (erased it t) g \<subseteq># todo t g"
  proof (cases g)
    case (DF_next j)
    then have "fst it \<noteq> fst j" using \<open>above_ok t g (DF_uninit it)\<close> by simp
    then have "2 * ahead (erased it t) j - 1 \<le> 2 * ahead t j - 1" using le by (intro diff_le_mono) simp
    then show ?thesis by (simp add: DF_next replicate_mset_msubseteq_iff)
  next
    case (DF_clear x)
    then have "x = None \<or> fst it \<noteq> fst (the x)" using \<open>above_ok t g (DF_uninit it)\<close> by simp
    then show ?thesis using le by (cases x) (auto simp: DF_clear replicate_mset_msubseteq_iff)
  qed simp_all
  then have "todo (erased it t) g \<le> todo t g" by (rule subset_eq_imp_le_multiset)
  moreover have "all_todo (erased it t) fs \<le> all_todo t fs" using Cons by simp
  ultimately show ?case by (simp add: add_mono)
qed simp

lemma unregister_levels: "list_all (unregisters_other pid) cs \<Longrightarrow> x \<in> level ` set cs \<Longrightarrow> x = 1"
proof (induction cs)
  case (Cons c cs)
  then show ?case by (cases c) auto
qed simp

lemma start_less:
  assumes "considerate env" and "shallow env" and "start_call env t h c = (h1, new)" and "x \<in># all_todo t new"
  shows "x < level c"
proof -
  have lists: "\<And>h p. h_calls (env h (H_uninit p)) = []"
    "\<And>h p. \<forall>c \<in> set (h_calls (env h (H_init p))). level c < 4"
    "\<And>h p fd buf len. \<forall>c \<in> set (h_calls (env h (H_process p fd buf len))). level c < 4"
    using assms(1,2) by (simp_all add: considerate_def shallow_def list_all_iff)
  have timer: "\<forall>c \<in> set (h_calls (env h (H_timer_event p pid))). level c < 2" for h p pid
  proof -
    have "list_all (unregisters_other pid) (h_calls (env h (H_timer_event p pid)))" using assms(1) by (simp add: considerate_def)
    then show ?thesis using unregister_levels by fastforce
  qed
  have loops: "x \<in># todo t (DF_timer y) \<Longrightarrow> x < 3" "x \<in># todo t (DF_clear y) \<Longrightarrow> x < 3" for y
    by (cases y; auto split: if_splits)+
  show ?thesis
  proof (cases "c = D_timer \<or> c = D_clear")
    case True
    then show ?thesis using assms(3,4) loops [of "it_begin t"] by (auto simp del: todo.simps)
  next
    case False
    then show ?thesis
      using assms(3,4) lists timer
      by (cases "(env, t, h, c)" rule: start_call.cases) (auto simp: invoke_def split: option.splits prod.splits)
  qed
qed

lemma todo_free: "\<forall>g \<in> set fs. free_frame g \<Longrightarrow> all_todo t fs = all_todo t' fs"
proof (induction fs)
  case (Cons g fs)
  then show ?case by (cases g) simp_all
qed simp

lemma low: "(\<And>x. x \<in># M \<Longrightarrow> x < a) \<Longrightarrow> M < {#a :: nat#}"
  by (intro ex_gt_imp_less_multiset) auto

lemma ahead_pos: "it_valid t it \<Longrightarrow> \<exists>n. ahead t it = Suc n"
proof -
  have "k \<in> fst ` set ns \<Longrightarrow> \<exists>n. from_node k ns = Suc n" for k and ns :: "slot list"
    by (induction ns) auto
  then show "it_valid t it \<Longrightarrow> \<exists>n. ahead t it = Suc n" by (simp add: it_valid_def ahead_def)
qed

lemma next_todo:
  assumes "slots_ok t" and "it_valid t it"
  shows "todo t (DF_timer (it_next t it)) < todo t (DF_next it)"
    and "add_mset 2 (todo t (DF_clear (it_next t it))) \<le> todo t (DF_clear (Some it))"
proof -
  obtain n where n: "ahead t it = Suc n" using ahead_pos [OF assms(2)] by blast
  have "it_next t it = None \<or> (\<exists>j. it_next t it = Some j \<and> ahead t j = n)"
    using from_node_behind [of "slots t" "fst it"] assms(1) n
    by (auto simp: it_next_def ahead_def slots_ok_def)
  then have "todo t (DF_timer (it_next t it)) \<subset># todo t (DF_next it)"
    "add_mset 2 (todo t (DF_clear (it_next t it))) \<subseteq># todo t (DF_clear (Some it))"
    using n by (auto simp: add_mset_commute [of 0] intro: subset_mset.le_less_trans)
  then show "todo t (DF_timer (it_next t it)) < todo t (DF_next it)"
    and "add_mset 2 (todo t (DF_clear (it_next t it))) \<le> todo t (DF_clear (Some it))"
    by (auto intro: subset_imp_less_mset subset_eq_imp_le_multiset)
qed

lemma clear_less:
  assumes "considerate env" and "slots_ok t" and "it_valid t it" and "resume place env t h (DF_clear (Some it)) = Inr (t1, h1, new)"
  shows "t1 = t \<and> all_todo t new < todo t (DF_clear (Some it))"
proof -
  obtain pid p where m: "map_of (slots t) (fst it) = Some (pid, Some p)" using it_validD [OF assms(3,2)] by blast
  obtain gs where new: "t1 = t" "new = gs @ [DF_clear (it_next t it)]" "start_call env t h (D_unregister pid) = (h1, gs)"
    using assms(3,4) m by (auto split: prod.splits)
  have "all_todo t gs < {#2#}"
    by (rule start_unregister [OF assms(1,2), of pid h]) (use new(3) in \<open>auto intro!: low\<close>)
  then have "all_todo t gs + todo t (DF_clear (it_next t it)) < {#2#} + todo t (DF_clear (it_next t it))"
    by (rule add_strict_right_mono)
  also have "\<dots> \<le> todo t (DF_clear (Some it))" using next_todo(2) [OF assms(2,3)] by simp
  finally show ?thesis using new(1,2) by simp
qed

lemma timer_less:
  assumes "considerate env" and "slots_ok t" and "it_valid t it" and "resume place env t h (DF_timer (Some it)) = Inr (t1, h1, new)"
  shows "t1 = t \<and> all_todo t new < todo t (DF_timer (Some it))"
proof -
  obtain pid p where m: "map_of (slots t) (fst it) = Some (pid, Some p)" using it_validD [OF assms(3,2)] by blast
  let ?cs = "h_calls (env h (H_timer_event p pid))"
  have "all_todo t [DF_calls ?cs] < {#2#}"
    using unregister_levels [of pid ?cs] assms(1) by (fastforce simp: considerate_def intro!: low)
  then have "all_todo t [DF_calls ?cs] + todo t (DF_next it) < {#2#} + todo t (DF_next it)"
    by (rule add_strict_right_mono)
  also have "\<dots> = todo t (DF_timer (Some it))"
    using ahead_pos [OF assms(3)] by (auto simp: add_mset_commute)
  finally show ?thesis using assms(3,4) m by (auto simp: invoke_def)
qed

lemma resume_less:
  assumes "considerate env" and "shallow env" and "disp_inv t h (f # fs)" and "resume place env t h f = Inr (t1, h1, new)"
  shows "all_todo t1 (new @ fs) < all_todo t (f # fs)"
proof -
  have ok: "slots_ok t" and st: "stack_ok t fs" and ab: "\<And>g. g \<in> set fs \<Longrightarrow> above_ok t g f" and own: "own_ok t f"
    and cl: "clear_ok (slots t) (f # fs)"
    using assms(3) by (auto simp: disp_inv_def)
  have here: "all_todo t1 (new @ fs) < all_todo t (f # fs)" if "t1 = t" and "all_todo t new < todo t f"
    using add_strict_right_mono [OF that(2)] that(1) by simp
  show ?thesis
  proof (cases f)
    case (DF_calls cs)
    show ?thesis
    proof (cases cs)
      case Nil
      then show ?thesis using assms(4) DF_calls by (intro here) simp_all
    next
      case (Cons c cs')
      obtain h2 n where s: "start_call env t h c = (h2, n)" by fastforce
      have "all_todo t n + todo t (DF_calls cs') < {#level c#} + todo t (DF_calls cs')"
        using start_less [OF assms(1,2) s] by (intro add_strict_right_mono low)
      then have "all_todo t (n @ [DF_calls cs']) < todo t f" by (simp add: DF_calls Cons add_mset_commute)
      moreover have "t1 = t" "new = n @ [DF_calls cs']" using assms(4) s DF_calls Cons by simp_all
      ultimately show ?thesis by (intro here) simp_all
    qed
  next
    case (DF_init pid p r)
    then have free: "\<forall>g \<in> set fs. free_frame g" using above_strict ab by fastforce
    have "all_todo t new < {#1#}" using assms(1,4) DF_init
      by (auto simp: invoke_def considerate_def split: if_splits intro!: low)
    then have "all_todo t (new @ fs) < all_todo t (f # fs)" using add_strict_right_mono DF_init by fastforce
    moreover have "t1 = t \<or> new = []" using assms(4) DF_init by (auto simp: invoke_def split: if_splits)
    ultimately show ?thesis using todo_free [OF free, of t1 t] by auto
  next
    case (DF_uninit it)
    then have "t1 = erased it t" "new = []" using assms(4) by (auto simp: erased_def split: if_splits)
    moreover have "all_todo (erased it t) fs \<le> all_todo t fs" using todo_erased [OF st] ab DF_uninit by blast
    ultimately show ?thesis using DF_uninit by (auto intro: le_less_trans)
  next
    case (DF_process r)
    then show ?thesis using assms(4) by (intro here) simp_all
  next
    case (DF_timer x)
    show ?thesis
    proof (cases x)
      case None
      then show ?thesis using assms(4) DF_timer by (intro here) simp_all
    next
      case (Some it)
      have "it_valid t it" using own DF_timer Some by simp
      from timer_less [OF assms(1) ok this assms(4) [unfolded DF_timer Some]] show ?thesis
        by (intro here) (simp_all only: DF_timer Some)
    qed
  next
    case (DF_next it)
    have v: "it_valid t it" using own DF_next by simp
    then have "t1 = t" "new = [DF_timer (it_next t it)]" using assms(4) DF_next by auto
    then show ?thesis using next_todo(1) [OF ok v] by (intro here) (simp_all only: DF_next all_todo_simps add_0_right)
  next
    case (DF_clear x)
    show ?thesis
    proof (cases x)
      case None
      then have "slots t = []" using cl DF_clear by (cases "slots t") simp_all
      then have "t\<lparr>slots := []\<rparr> = t" by simp
      then show ?thesis using assms(4) DF_clear None by (intro here) simp_all
    next
      case (Some it)
      have "it_valid t it" using own DF_clear Some by simp
      from clear_less [OF assms(1) ok this assms(4) [unfolded DF_clear Some]] show ?thesis
        by (intro here) (simp_all only: DF_clear Some)
    qed
  qed
qed

lemma disp_run_simps:
  "disp_run place env t h [] = Some (Inr (t, h))"
  "resume place env t h f = Inr (t1, h1, new) \<Longrightarrow> disp_run place env t h (f # fs) = disp_run place env t1 h1 (new @ fs)"
  "resume place env t h f = Inl e \<Longrightarrow> disp_run place env t h (f # fs) = Some (Inl e)"
  by (subst disp_run.simps, simp)+

lemma disp_run_unfold: "disp_run place env t h (f # fs) = (case resume place env t h f of
    Inl e \<Rightarrow> Some (Inl e) | Inr (t1, h1, new) \<Rightarrow> disp_run place env t1 h1 (new @ fs))"
  by (subst disp_run.simps) simp

lemma run_returns:
  assumes "considerate env" and "shallow env" and "place_ok place"
  shows "disp_inv t h fs \<Longrightarrow> \<exists>t' h'. disp_run place env t h fs = Some (Inr (t', h')) \<and> disp_inv t' h' []"
proof (induction "all_todo t fs" arbitrary: t h fs rule: less_induct)
  case less
  show ?case
  proof (cases fs)
    case Nil
    then show ?thesis using less.prems by (simp add: disp_run_simps(1))
  next
    case (Cons f gs)
    obtain t1 h1 new where r: "resume place env t h f = Inr (t1, h1, new)" and inv: "disp_inv t1 h1 (new @ gs)"
      using resume_inv [OF assms(1,3)] less.prems Cons by blast
    have "all_todo t1 (new @ gs) < all_todo t fs"
      using resume_less [OF assms(1,2) _ r] less.prems Cons by blast
    from less.hyps [OF this inv] show ?thesis by (simp only: Cons disp_run_simps(2) [OF r])
  qed
qed

end
