(* ===== verification/Dispatcher_Callbacks.thy ===== *)
theory Dispatcher_Callbacks
  imports Dispatcher_Reentrant
begin

text \<open>
  What follows from \<open>Dispatcher_Reentrant\<close>: with handlers that do not call the dispatcher back it is the one of
  \<open>Proto_Dispatcher\<close>; with considerate handlers no call goes wrong; and what happens with others.
\<close>

section \<open>Handlers that do not call back\<close>

definition quiet :: "handler_env \<Rightarrow> reentrant_env" where
  "quiet env h c = \<lparr>h_calls = [], h_ret = env (returned h) c\<rparr>"

lemma quiet_simps [simp]: "h_calls (quiet env h c) = []" "h_ret (quiet env h c) = env (returned h) c"
  by (simp_all add: quiet_def)

definition table_of :: "handler_slots \<Rightarrow> handler_mgr" where
  "table_of t pid = map_option (\<lambda>s. snd (snd s)) (find_slot t pid)"

definition order_of :: "handler_slots \<Rightarrow> table_order" where
  "order_of t h m = map (\<lambda>s. fst (snd s)) (slots t)"

lemma find_slot_in:
  assumes "slots_ok t" and "(k, pid, e) \<in> set (slots t)"
  shows "find_slot t pid = Some (k, pid, e)"
proof -
  have "(k, pid, e) \<in> set ss \<Longrightarrow> distinct (map (\<lambda>s. fst (snd s)) ss) \<Longrightarrow> find (\<lambda>s. fst (snd s) = pid) ss = Some (k, pid, e)"
    for ss :: "slot list" by (induction ss) (auto simp: image_iff)
  then show ?thesis using assms by (simp add: find_slot_def slots_ok_def)
qed

lemma table_of_iff: "slots_ok t \<Longrightarrow> table_of t pid = Some e \<longleftrightarrow> (\<exists>k. (k, pid, e) \<in> set (slots t))"
proof
  assume ok: "slots_ok t" and "table_of t pid = Some e"
  then obtain k q where f: "find_slot t pid = Some (k, q, e)" by (auto simp: table_of_def)
  from find_slotD [OF ok f] show "\<exists>k. (k, pid, e) \<in> set (slots t)" by blast
qed (auto simp: table_of_def find_slot_in)

lemma table_eqI:
  assumes "slots_ok t" and "\<And>pid e. m pid = Some e \<longleftrightarrow> (\<exists>k. (k, pid, e) \<in> set (slots t))"
  shows "table_of t = m"
proof
  fix pid
  show "table_of t pid = m pid"
    using assms(2) [of pid] table_of_iff [OF assms(1), of pid] by (metis not_Some_eq)
qed

lemma table_of_insert:
  assumes "slots_ok t" and "find_slot t pid = None" and "place_ok place"
  shows "table_of (insert_slot place h t pid p) = (table_of t)(pid \<mapsto> Some p)"
proof (rule table_eqI)
  note ins = insert_slot_ok [OF assms, of h p]
  show "slots_ok (insert_slot place h t pid p)" by (rule ins(2))
  have "set (slots (insert_slot place h t pid p)) = insert (next_slot t, pid, Some p) (set (slots t))"
    using ins(1) by (metis set_mset_add_mset_insert set_mset_mset)
  moreover have "(k, pid, e) \<notin> set (slots t)" for k e using find_slot_in [OF assms(1)] assms(2) by fastforce
  ultimately show "((table_of t)(pid \<mapsto> Some p)) q = Some e \<longleftrightarrow> (\<exists>k. (k, q, e) \<in> set (slots (insert_slot place h t pid p)))" for q e
    using table_of_iff [OF assms(1)] by auto
qed

lemma table_of_erased:
  assumes "slots_ok t" and "(k, pid, e) \<in> set (slots t)"
  shows "table_of (erased (k, r) t) = (table_of t)(pid := None)"
proof (rule table_eqI [OF slots_ok_erased [OF assms(1)]])
  have same: "j = k \<longleftrightarrow> q = pid" if mem: "(j, q, e') \<in> set (slots t)" for j q e'
  proof
    have "map_of (slots t) j = Some (q, e')" "map_of (slots t) k = Some (pid, e)"
      using assms mem by (simp_all add: slots_ok_def)
    then show "j = k \<Longrightarrow> q = pid" by simp
    show "q = pid \<Longrightarrow> j = k" using find_slot_in [OF assms(1) mem] find_slot_in [OF assms] by simp
  qed
  fix q e'
  have "(j, q, e') \<in> set (slots (erased (k, r) t)) \<longleftrightarrow> (j, q, e') \<in> set (slots t) \<and> q \<noteq> pid" for j
  proof -
    have "(j, q, e') \<in> set (slots (erased (k, r) t)) \<longleftrightarrow> (j, q, e') \<in> set (slots t) \<and> j \<noteq> k"
      by (auto simp: erased_def erase_node_def)
    then show ?thesis using same [of j q e'] by argo
  qed
  then have "(\<exists>j. (j, q, e') \<in> set (slots (erased (k, r) t))) \<longleftrightarrow> (\<exists>j. (j, q, e') \<in> set (slots t)) \<and> q \<noteq> pid" by simp
  then have "(\<exists>j. (j, q, e') \<in> set (slots (erased (k, r) t))) \<longleftrightarrow> q \<noteq> pid \<and> table_of t q = Some e'"
    unfolding table_of_iff [OF assms(1)] by blast
  then show "((table_of t)(pid := None)) q = Some e' \<longleftrightarrow> (\<exists>j. (j, q, e') \<in> set (slots (erased (k, r) t)))"
    by simp
qed

lemma order_of_ok: "slots_ok t \<Longrightarrow> distinct (order_of t h m) \<and> set (order_of t h m) = dom (table_of t)"
proof -
  have "pid \<in> dom (table_of t) \<longleftrightarrow> pid \<in> (\<lambda>s. fst (snd s)) ` set (slots t)" for pid
    using find_slot_None [of t pid] by (cases "find_slot t pid") (simp_all add: table_of_def domIff)
  then show "slots_ok t \<Longrightarrow> distinct (order_of t h m) \<and> set (order_of t h m) = dom (table_of t)"
    by (simp add: order_of_def slots_ok_def set_eq_iff)
qed

text \<open>The state between two calls from outside, and what one call does to it.\<close>

definition plain_call :: "slot_order \<Rightarrow> handler_env \<Rightarrow> handler_slots \<Rightarrow> reentrant_history \<Rightarrow> frame list
    \<Rightarrow> handler_slots \<Rightarrow> handler_mgr \<times> handler_history \<Rightarrow> bool" where
  "plain_call place env t h fs t' r \<longleftrightarrow> slots_ok t' \<and> (\<exists>h'. r = (table_of t', returned h')
     \<and> (\<forall>gs. disp_run place (quiet env) t h (fs @ gs) = disp_run place (quiet env) t' h' gs))"

lemma plain_here: "slots_ok t \<Longrightarrow> plain_call place env t h [] t (table_of t, returned h)"
  by (auto simp: plain_call_def)

lemma plain_step:
  assumes "resume place (quiet env) t h f = Inr (t1, h1, new)" and "plain_call place env t1 h1 (new @ fs) t' r"
  shows "plain_call place env t h (f # fs) t' r"
  using assms(2) disp_run_simps(2) [OF assms(1)] by (simp add: plain_call_def)

lemma plain_unregister:
  assumes "slots_ok t" and "unregister_proto env (table_of t) (returned h) pid = (r, m', h')"
  obtains fs t1 h1 where "start_call (quiet env) t h (D_unregister pid) = (h1, fs)"
    and "t1 = t \<and> find_slot t pid = None \<or> (\<exists>k p. find_slot t pid = Some (k, pid, Some p) \<and> t1 = erased (k, rehashed t) t)"
    and "m' = table_of t1" and "h' = returned h1" and "slots_ok t1"
    and "\<And>gs. disp_run place (quiet env) t h1 (fs @ gs) = disp_run place (quiet env) t1 h1 gs"
proof (cases "find_slot t pid")
  case None
  then show ?thesis using that [of h "[]" t] assms by (simp add: unregister_proto_def table_of_def)
next
  case (Some s)
  obtain k q e where s: "s = (k, q, e)" by (cases s) auto
  let ?it = "(k, rehashed t)"
  from find_slotD [OF assms(1) Some [unfolded s]] obtain p where f: "find_slot t pid = Some (k, pid, Some p)"
    "it_valid t ?it" "(k, pid, Some p) \<in> set (slots t)" using Some s by metis
  let ?h1 = "h @ [(H_uninit p, quiet env h (H_uninit p))]"
  have "start_call (quiet env) t h (D_unregister pid) = (?h1, [DF_calls [], DF_uninit ?it])"
    using f by (simp add: invoke_def)
  moreover have "m' = table_of (erased ?it t)" "h' = returned ?h1"
    using assms(2) f(1) table_of_erased [OF assms(1) f(3)]
    by (auto simp: unregister_proto_def table_of_def invoke_def)
  moreover have "disp_run place (quiet env) t ?h1 ([DF_calls [], DF_uninit ?it] @ gs) = disp_run place (quiet env) (erased ?it t) ?h1 gs" for gs
    using f(2) by (simp add: disp_run_unfold erased_def)
  ultimately show ?thesis using that slots_ok_erased [OF assms(1)] f(1) by blast
qed

lemma plain_clear:
  assumes "slots_ok t"
  shows "\<exists>t'. slots t' = [] \<and> plain_call place env t h [DF_clear (it_begin t)] t'
    (clear_loop env (table_of t) (returned h) (map (\<lambda>s. fst (snd s)) (slots t)))"
  using assms
proof (induction "slots t" arbitrary: t h)
  case Nil
  then have "it_begin t = None" "t\<lparr>slots := []\<rparr> = t" by (simp_all add: it_begin_def)
  then have "plain_call place env t h [DF_clear (it_begin t)] t (table_of t, returned h)"
    using Nil.prems by (auto simp: plain_call_def disp_run_unfold)
  then show ?case using Nil.hyps [symmetric] by (intro exI [of _ t]) simp
next
  case (Cons s rest)
  obtain k pid e where s: "s = (k, pid, e)" by (cases s) auto
  have slots: "slots t = (k, pid, e) # rest" using Cons(2) s by simp
  obtain p where e: "e = Some p" using Cons.prems slots by (auto simp: slots_ok_def)
  have k: "k \<notin> fst ` set rest" using Cons.prems slots by (simp add: slots_ok_def)
  have f: "find_slot t pid = Some (k, pid, e)" using find_slot_in [OF Cons.prems] slots by simp
  obtain r m1 h2 where u: "unregister_proto env (table_of t) (returned h) pid = (r, m1, h2)"
    by (cases "unregister_proto env (table_of t) (returned h) pid") auto
  show ?case
  proof (rule plain_unregister [OF Cons.prems u])
    fix fs t1 h1
    assume 1: "start_call (quiet env) t h (D_unregister pid) = (h1, fs)"
      "t1 = t \<and> find_slot t pid = None \<or> (\<exists>k p. find_slot t pid = Some (k, pid, Some p) \<and> t1 = erased (k, rehashed t) t)"
      "m1 = table_of t1" "h2 = returned h1" "slots_ok t1"
      "\<And>gs. disp_run place (quiet env) t h1 (fs @ gs) = disp_run place (quiet env) t1 h1 gs"
    have t1: "t1 = erased (k, rehashed t) t" using 1(2) f by auto
    then have rest: "slots t1 = rest" "rehashed t1 = rehashed t"
      using slots erase_node_other [OF k] by (simp_all add: erased_def erase_node_def)
    have bg: "it_begin t = Some (k, rehashed t)" "it_valid t (k, rehashed t)" "it_next t (k, rehashed t) = it_begin t1"
      using slots rest by (simp_all add: it_begin_def it_valid_def it_next_def)
    from Cons(1) [OF rest(1) [symmetric] 1(5), of h1] obtain t' where t': "slots t' = []"
      "plain_call place env t1 h1 [DF_clear (it_begin t1)] t' (clear_loop env (table_of t1) (returned h1) (map (\<lambda>s. fst (snd s)) (slots t1)))"
      by blast
    have "disp_run place (quiet env) t h ([DF_clear (it_begin t)] @ gs) = disp_run place (quiet env) t1 h1 ([DF_clear (it_begin t1)] @ gs)" for gs
      using 1(1) 1(6) [of "DF_clear (it_begin t1) # gs"] bg slots e by (simp add: disp_run_unfold)
    moreover have "clear_loop env (table_of t) (returned h) (map (\<lambda>s. fst (snd s)) (slots t))
        = clear_loop env (table_of t1) (returned h1) (map (\<lambda>s. fst (snd s)) (slots t1))"
      using u 1(3,4) rest(1) by (simp add: slots)
    ultimately show ?thesis using t' by (intro exI [of _ t']) (simp add: plain_call_def)
  qed
qed

lemma plain_timer:
  assumes "slots_ok t" and "slots t = bs @ rest"
  shows "\<exists>h'. returned h' = timer_event_loop env (table_of t) (returned h) (map (\<lambda>s. fst (snd s)) rest)
    \<and> (\<forall>gs. disp_run place (quiet env) t h (DF_timer (map_option (\<lambda>k. (k, rehashed t)) (first_node rest)) # gs)
        = disp_run place (quiet env) t h' gs)"
  using assms(2)
proof (induction rest arbitrary: bs h)
  case Nil
  show ?case by (intro exI [of _ h]) (simp add: disp_run_unfold)
next
  case (Cons s rest)
  obtain k pid e where s: "s = (k, pid, e)" by (cases s) auto
  then have mem: "(k, pid, e) \<in> set (slots t)" using Cons.prems by simp
  then obtain p where e: "e = Some p" using assms(1) by (fastforce simp: slots_ok_def)
  have k: "k \<notin> fst ` set bs" using assms(1) Cons.prems s by (auto simp: slots_ok_def)
  have m: "map_of (slots t) k = Some (pid, Some p)" and b: "node_behind k (slots t) = first_node rest"
    unfolding Cons.prems s e by (rule map_of_split [OF k], rule node_behind_split [OF k])
  have v: "it_valid t (k, rehashed t)" using mem by (force simp: it_valid_def)
  let ?h1 = "h @ [(H_timer_event p pid, quiet env h (H_timer_event p pid))]"
  have "slots t = (bs @ [s]) @ rest" using Cons.prems by simp
  from Cons.IH [OF this, of ?h1] obtain h' where h':
    "returned h' = timer_event_loop env (table_of t) (returned ?h1) (map (\<lambda>s. fst (snd s)) rest)"
    "\<And>gs. disp_run place (quiet env) t ?h1 (DF_timer (map_option (\<lambda>k. (k, rehashed t)) (first_node rest)) # gs)
        = disp_run place (quiet env) t h' gs" by blast
  have r1: "resume place (quiet env) t h (DF_timer (Some (k, rehashed t))) = Inr (t, ?h1, [DF_calls [], DF_next (k, rehashed t)])"
    using v m by (simp add: invoke_def)
  have r2: "resume place (quiet env) t ?h1 (DF_calls []) = Inr (t, ?h1, [])" by simp
  have r3: "resume place (quiet env) t ?h1 (DF_next (k, rehashed t))
      = Inr (t, ?h1, [DF_timer (map_option (\<lambda>k. (k, rehashed t)) (first_node rest))])"
    using v b by (simp add: it_next_def)
  have "table_of t pid = Some (Some p)" using table_of_iff [OF assms(1)] mem e by blast
  moreover have "returned ?h1 = snd (invoke env (returned h) (H_timer_event p pid))" by (simp add: invoke_def)
  ultimately show ?case
    using h' by (intro exI [of _ h']) (simp add: s disp_run_simps(2) [OF r1] disp_run_simps(2) [OF r2] disp_run_simps(2) [OF r3])
qed

lemma plain_print: "returned (print_slots (quiet env) h ss) = print_loop env m (returned h) (map (\<lambda>s. fst (snd s)) ss)"
  if "\<And>k pid e. (k, pid, e) \<in> set ss \<Longrightarrow> m pid = Some e"
  using that
proof (induction "quiet env" h ss rule: print_slots.induct)
  case (2 h k pid p ss)
  have "m pid = Some (Some p)" using 2(2) [of k pid "Some p"] by simp
  moreover have "returned (print_slots (quiet env) (snd (invoke (quiet env) h (Log_proto pid p))) ss)
      = print_loop env m (returned (snd (invoke (quiet env) h (Log_proto pid p)))) (map (\<lambda>s. fst (snd s)) ss)"
    by (rule 2(1), rule 2(2)) (rule list.set_intros(2))
  ultimately show ?case by (simp add: invoke_def)
next
  case (3 h k pid ss)
  have "m pid = Some None" using 3(2) [of k pid None] by simp
  moreover have "returned (print_slots (quiet env) h ss) = print_loop env m (returned h) (map (\<lambda>s. fst (snd s)) ss)"
    by (rule 3(1), rule 3(2)) (rule list.set_intros(2))
  ultimately show ?case by simp
qed simp

lemma plain_start:
  assumes "start_call (quiet env) t h c = (h1, new)" and "plain_call place env t h1 new t' r"
  shows "plain_call place env t h [DF_calls [c]] t' r"
proof -
  obtain h' where h': "slots_ok t'" "r = (table_of t', returned h')"
    "\<And>gs. disp_run place (quiet env) t h1 (new @ gs) = disp_run place (quiet env) t' h' gs"
    using assms(2) by (auto simp: plain_call_def)
  have "resume place (quiet env) t h (DF_calls [c]) = Inr (t, h1, new @ [DF_calls []])" using assms(1) by simp
  then have "disp_run place (quiet env) t h ([DF_calls [c]] @ gs) = disp_run place (quiet env) t' h' (DF_calls [] # gs)" for gs
    using h'(3) [of "DF_calls [] # gs"] by (simp add: disp_run_simps(2))
  moreover have "disp_run place (quiet env) t' h' (DF_calls [] # gs) = disp_run place (quiet env) t' h' gs" for gs
    by (simp add: disp_run_unfold)
  ultimately show ?thesis using h' by (auto simp: plain_call_def)
qed

lemma plain_pop:
  "plain_call place env t h fs t' r \<Longrightarrow> plain_call place env t h (DF_calls [] # fs) t' r"
  by (rule plain_step [where new = "[]"]) simp_all

lemma plain_register:
  assumes "slots_ok t" and "place_ok place"
  shows "\<exists>t'. plain_call place env t h [DF_calls [D_register pid (Some p)]] t' (snd (register_proto env (table_of t) (returned h) pid (Some p)))"
proof -
  let ?r = "env (returned h) (H_init p)" and ?h1 = "h @ [(H_init p, quiet env h (H_init p))]"
  let ?res = "snd (register_proto env (table_of t) (returned h) pid (Some p))"
  have start: "start_call (quiet env) t h (D_register pid (Some p)) = (?h1, [DF_calls [], DF_init pid p ?r])"
    by (simp add: invoke_def)
  have known: "table_of t pid = None \<longleftrightarrow> find_slot t pid = None" by (simp add: table_of_def)
  have "\<exists>t'. plain_call place env t ?h1 [DF_init pid p ?r] t' ?res"
  proof (cases "?r = 0")
    case False
    then have "?res = (table_of t, returned ?h1)" by (simp add: register_proto_def invoke_def)
    moreover have "resume place (quiet env) t ?h1 (DF_init pid p ?r) = Inr (t, ?h1, [])" using False by simp
    ultimately show ?thesis 
      by (metis append_Nil assms(1) plain_here plain_step)
  next
    case r: True
    show ?thesis
    proof (cases "find_slot t pid = None")
      case True
      let ?t = "insert_slot place ?h1 t pid p"
      have "resume place (quiet env) t ?h1 (DF_init pid p ?r) = Inr (?t, ?h1, [])" using r True by simp
      moreover have "?res = (table_of ?t, returned ?h1)"
        using r True known by (simp add: register_proto_def invoke_def table_of_insert [OF assms(1) True assms(2)])
      ultimately show ?thesis using insert_slot_ok(2) [OF assms(1) True assms(2)]
        by (metis append_Nil plain_here plain_step)
    next
      case False
      let ?h2 = "?h1 @ [(H_uninit p, quiet env ?h1 (H_uninit p))]"
      have "resume place (quiet env) t ?h1 (DF_init pid p ?r) = Inr (t, ?h2, [DF_calls []])"
        using r False by (simp add: invoke_def)
      moreover have "?res = (table_of t, returned ?h2)"
        using r False known by (simp add: register_proto_def invoke_def)
      ultimately show ?thesis using plain_step plain_pop [OF plain_here [OF assms(1)]]
        by (metis append_Nil2)
    qed
  qed
  then show ?thesis using plain_start [OF start] plain_pop by blast
qed

lemma plain_op:
  assumes "slots_ok t" and "place_ok place"
  shows "\<exists>t'. plain_call place env t h [DF_calls [c]] t' (dispatcher_step (order_of t) env (table_of t, returned h) c)"
proof -
  have entry: "table_of t pid = Some (Some p) \<and> find_slot t pid = Some (k, pid, Some p)"
    if "find_slot t pid = Some (k, q, e)" and "e = Some p" for pid k q e p
    using find_slotD [OF assms(1) that(1)] that by (auto simp: table_of_def)
  have listed: "table_of t pid = Some e" if "(k, pid, e) \<in> set (slots t)" for k pid e
    using table_of_iff [OF assms(1)] that by blast
  have missing: "table_of t pid = None" if "find_slot t pid = None" for pid using that by (simp add: table_of_def)
  have cases: "find_slot t pid = None \<or> (\<exists>k p. find_slot t pid = Some (k, pid, Some p))" for pid
    by (cases "find_slot t pid") (auto elim!: find_slotD [OF assms(1)])
  show ?thesis
  proof (cases c)
    case (D_register pid p)
    show ?thesis
    proof (cases p)
      case None
      have "plain_call place env t h [DF_calls [c]] t (table_of t, returned h)"
        by (rule plain_start [OF _ plain_here [OF assms(1)]]) (simp add: D_register None)
      then show ?thesis by (auto simp: D_register None register_proto_def)
    next
      case (Some q)
      then show ?thesis using plain_register [OF assms] D_register by simp
    qed
  next
    case (D_unregister pid)
    obtain r m' h' where u: "unregister_proto env (table_of t) (returned h) pid = (r, m', h')"
      by (cases "unregister_proto env (table_of t) (returned h) pid") auto
    show ?thesis
    proof (rule plain_unregister [OF assms(1) u])
      fix fs t1 h1
      assume 1: "start_call (quiet env) t h (D_unregister pid) = (h1, fs)" "m' = table_of t1" "h' = returned h1" "slots_ok t1"
        "\<And>gs. disp_run place (quiet env) t h1 (fs @ gs) = disp_run place (quiet env) t1 h1 gs"
      have "plain_call place env t h1 fs t1 (table_of t1, returned h1)" using 1 by (auto simp: plain_call_def)
      from plain_start [OF 1(1) this] show ?thesis using u 1(2,3) by (auto simp: D_unregister)
    qed
  next
    case D_clear
    obtain t' where "slots t' = []" and c: "plain_call place env t h [DF_clear (it_begin t)] t'
        (clear_loop env (table_of t) (returned h) (map (\<lambda>s. fst (snd s)) (slots t)))" using plain_clear [OF assms(1)] by blast
    then have "table_of t' = Map.empty" by (auto simp: table_of_def find_slot_def)
    then have "dispatcher_step (order_of t) env (table_of t, returned h) D_clear
        = clear_loop env (table_of t) (returned h) (map (\<lambda>s. fst (snd s)) (slots t))"
      using c by (auto simp: plain_call_def clear_protos_def order_of_def)
    moreover have "start_call (quiet env) t h D_clear = (h, [DF_clear (it_begin t)])" by simp
    ultimately show ?thesis using plain_start [OF _ c] by (intro exI [of _ t']) (simp only: D_clear)
  next
    case (D_dispatch pid fd buf len)
    from cases [of pid] show ?thesis
    proof (elim disjE exE)
      assume f: "find_slot t pid = None"
      have "plain_call place env t h [DF_calls [c]] t (table_of t, returned h)"
        by (rule plain_start [OF _ plain_here [OF assms(1)]]) (simp add: D_dispatch f)
      then show ?thesis using missing [OF f] by (auto simp: D_dispatch dispatch_def)
    next
      fix k p assume f: "find_slot t pid = Some (k, pid, Some p)"
      let ?h1 = "h @ [(H_process p fd buf len, quiet env h (H_process p fd buf len))]"
      let ?r = "env (returned h) (H_process p fd buf len)"
      obtain h2 where h2: "h2 = (if ?r = phr_print_protos then print_slots (quiet env) ?h1 (slots t) else ?h1)" by blast
      have "resume place (quiet env) t ?h1 (DF_process ?r) = Inr (t, h2, [])" by (simp add: h2)
      from plain_step [OF this, of "[]"] have "plain_call place env t ?h1 [DF_process ?r] t (table_of t, returned h2)"
        using plain_here [OF assms(1)] by simp
      then have "plain_call place env t h [DF_calls [c]] t (table_of t, returned h2)"
        by (intro plain_start [OF _ plain_pop]) (simp_all add: D_dispatch f invoke_def)
      moreover have "returned h2 = snd (dispatch (order_of t) env (table_of t) (returned h) pid fd buf len)"
        using entry [OF f refl] plain_print [of "slots t" "table_of t" env ?h1, OF listed]
        by (simp add: h2 dispatch_def invoke_def print_supported_protocols_def order_of_def)
      ultimately show ?thesis by (auto simp: D_dispatch)
    qed
  next
    case D_timer
    obtain h' where h': "returned h' = timer_event_loop env (table_of t) (returned h) (map (\<lambda>s. fst (snd s)) (slots t))"
      "\<And>gs. disp_run place (quiet env) t h (DF_timer (it_begin t) # gs) = disp_run place (quiet env) t h' gs"
      using plain_timer [OF assms(1), of "[]" "slots t" env h place] by (auto simp: it_begin_def)
    have "plain_call place env t h [DF_timer (it_begin t)] t (table_of t, returned h')"
      unfolding plain_call_def using assms(1) h'(2) by (intro conjI exI [of _ h']) simp_all
    then have "plain_call place env t h [DF_calls [D_timer]] t (table_of t, returned h')"
      by (intro plain_start [where new = "[DF_timer (it_begin t)]"]) simp_all
    then show ?thesis by (auto simp: D_timer timer_event_all_def order_of_def h'(1))
  next
    case (D_timer_one pid)
    from cases [of pid] show ?thesis
    proof (elim disjE exE)
      assume f: "find_slot t pid = None"
      have "plain_call place env t h [DF_calls [c]] t (table_of t, returned h)"
        by (rule plain_start [OF _ plain_here [OF assms(1)]]) (simp add: D_timer_one f)
      then show ?thesis using missing [OF f] by (auto simp: D_timer_one timer_event_one_def)
    next
      fix k p assume f: "find_slot t pid = Some (k, pid, Some p)"
      let ?h1 = "h @ [(H_timer_event p pid, quiet env h (H_timer_event p pid))]"
      have "plain_call place env t h [DF_calls [c]] t (table_of t, returned ?h1)"
        by (rule plain_start [OF _ plain_pop [OF plain_here [OF assms(1)]]]) (simp add: D_timer_one f invoke_def)
      then show ?thesis using entry [OF f refl] by (auto simp: D_timer_one timer_event_one_def invoke_def)
    qed
  qed
qed

section \<open>Handlers that are not considerate\<close>

text \<open>The handler \<open>p\<close>, when \<open>c\<close> is called, makes the calls \<open>cs\<close>; all others make none, and all return 0.\<close>

definition calls_back :: "handler_call \<Rightarrow> dispatcher_op list \<Rightarrow> reentrant_env" where
  "calls_back c cs h d = \<lparr>h_calls = (if d = c then cs else []), h_ret = 0\<rparr>"

lemma first_slot:
  assumes "slots_ok t" and "slots t = (k, pid, Some p) # rest"
  shows "find_slot t pid = Some (k, pid, Some p)" and "map_of (slots t) k = Some (pid, Some p)"
    and "it_begin t = Some (k, rehashed t)" and "it_valid t (k, rehashed t)"
    and "\<not> it_valid (t\<lparr>slots := erase_node k (slots t)\<rparr>) (k, r)"
  using assms by (simp_all add: find_slot_def it_begin_def it_valid_def erase_node_set)

lemma timer_unregisters_itself:
  assumes "slots_ok t" and "slots t = (k, pid, Some p) # rest"
  shows "disp_calls place (calls_back (H_timer_event p pid) [D_unregister pid]) t h [D_timer] = Some (Inl UseAfterFree)"
  using first_slot [OF assms]
  by (simp add: disp_calls_def disp_run_unfold invoke_def calls_back_def)

lemma uninit_registers:
  assumes "slots_ok t" and "slots t = (k, pid, Some p) # rest" and "find_slot t q = None"
    and "\<And>h. snd (place h (slots t) (next_slot t, q, Some r))"
  shows "disp_calls place (calls_back (H_uninit p) [D_register q (Some r)]) t h [D_unregister pid] = Some (Inl UseAfterFree)"
proof -
  have "rehashed (insert_slot place h' t q r) = Suc (rehashed t)" for h'
    using assms(4) [of h'] by (simp add: insert_slot_def case_prod_unfold Let_def)
  then have "\<not> it_valid (insert_slot place h' t q r) (k, rehashed t)" for h' by (simp add: it_valid_def)
  then show ?thesis
    using first_slot [OF assms(1,2)] assms(3)
    by (simp add: disp_calls_def disp_run_unfold invoke_def calls_back_def)
qed

lemma uninit_unregisters:
  assumes "slots_ok t" and "slots t = (k, pid, Some p) # rest"
  shows "disp_run place (calls_back (H_uninit p) [D_unregister pid]) t h (DF_calls (D_unregister pid # cs) # fs) = None"
proof -
  let ?env = "calls_back (H_uninit p) [D_unregister pid]"
  let ?P = "\<lambda>pl e u gs. pl = place \<and> e = ?env \<and> u = t
    \<and> (\<exists>cs fs. gs = DF_calls (D_unregister pid # cs) # fs)"
  have "\<not> ?P pl e u gs" if "disp_run pl e u h' gs = Some r" for pl e u h' gs r
  proof (rule disp_run.raw_induct [where P = "\<lambda>pl e u h' gs r. \<not> ?P pl e u gs", OF _ that], goal_cases)
    case (1 f pl e u h gs r)
    show ?case
    proof (rule notI, elim conjE exE)
      fix cs fs assume e: "pl = place" "e = ?env" "u = t" "gs = DF_calls (D_unregister pid # cs) # fs"
      have "f place ?env t (h @ [(H_uninit p, ?env h (H_uninit p))])
          (DF_calls [D_unregister pid] # DF_uninit (k, rehashed t) # DF_calls cs # fs) = Some r"
        using 1(2) first_slot(1) [OF assms] by (simp add: e invoke_def calls_back_def)
      from 1(1) [OF this] show False by simp
    qed
  qed
  from this [of place ?env t h "DF_calls (D_unregister pid # cs) # fs"] show ?thesis
    by (cases "disp_run place ?env t h (DF_calls (D_unregister pid # cs) # fs)") auto
qed

section \<open>Properties\<close>

text \<open>
  When no handler calls the dispatcher back, a call from outside returns without a fault, whatever order
  the table keeps its nodes in, and it does what the operation of \<open>Proto_Dispatcher\<close> does when a traversal
  follows that order: the same calls of handlers in the same sequence, and the same table. That order visits every protocol once.
\<close>

lemma quiet_handlers_refine:
  assumes "slots_ok t" and "place_ok place"
  shows "\<exists>t' h'. disp_calls place (quiet env) t h [c] = Some (Inr (t', h')) \<and> slots_ok t'
    \<and> dispatcher_step (order_of t) env (table_of t, returned h) c = (table_of t', returned h')
    \<and> distinct (order_of t g m) \<and> set (order_of t g m) = dom (table_of t)"
proof -
  from plain_op [OF assms, of env h c] obtain t' h' where "slots_ok t'"
    "dispatcher_step (order_of t) env (table_of t, returned h) c = (table_of t', returned h')"
    "disp_run place (quiet env) t h ([DF_calls [c]] @ []) = disp_run place (quiet env) t' h' []"
    unfolding plain_call_def by blast
  then show ?thesis using order_of_ok [OF assms(1)]
    by (intro exI [of _ t'] exI [of _ h']) (simp add: disp_calls_def disp_run_simps(1))
qed

lemma quiet_handlers_refine_witness:
  "\<exists>t' h'. disp_calls (\<lambda>h ss s. (s # ss, True)) (quiet ok_env) no_slots [] [D_register 1 (Some 5)] = Some (Inr (t', h'))
    \<and> table_of t' 1 = Some (Some 5)"
proof -
  have ok: "slots_ok no_slots" by (simp add: slots_ok_def no_slots_def)
  have e: "table_of no_slots = Map.empty" by (auto simp: table_of_def find_slot_def no_slots_def)
  from quiet_handlers_refine [OF ok, of "\<lambda>h ss s. (s # ss, True)" ok_env "[]" "D_register 1 (Some 5)" "[]" Map.empty] obtain t' h' where
    "disp_calls (\<lambda>h ss s. (s # ss, True)) (quiet ok_env) no_slots [] [D_register 1 (Some 5)] = Some (Inr (t', h'))"
    "(Map.empty(1 \<mapsto> Some 5), [(H_init 5, 0)]) = (table_of t', returned h')"
    by (auto simp: place_ok_def e register_proto_def invoke_def ok_env_def)
  then show ?thesis by (metis fun_upd_same prod.inject)
qed

text \<open>
  C8: Handlers may call the dispatcher back: \<open>init\<close> and \<open>process\<close> whatever they like, \<open>timer_event\<close> to unregister other
  protocols, \<open>uninit\<close> not at all. Then at every moment of every run no iterator in use is invalid, so
  a next part of the operations in progress is always possible, protocols are unique, and each handler has been
  initialised as often as it has been uninitialised, plus once for each protocol it is registered for,
  counting the operations in progress.
\<close>

theorem considerate_handlers_safe:
  assumes "considerate env" and "place_ok place" and "(disp_step place env)\<^sup>*\<^sup>* (disp_start ops) (t, h, fs)"
  shows "slots_ok t \<and> (\<forall>f \<in> set fs. own_ok t f) \<and> balanced t h fs \<and> (fs = [] \<or> (\<exists>s. disp_step place env (t, h, fs) s))"
proof -
  have inv: "disp_inv t h fs" by (rule disp_reachable_inv [OF assms])
  have "stack_ok t fs \<Longrightarrow> \<forall>f \<in> set fs. own_ok t f" by (induction fs) auto
  moreover have "\<exists>s. disp_step place env (t, h, fs) s" if "fs = f # gs" for f gs
    using resume_inv [OF assms(1,2)] inv that by (blast intro: disp_step.intros)
  ultimately show ?thesis using inv by (cases fs) (auto simp: disp_inv_def)
qed

text \<open>A handler that, when it processes a message, unregisters itself and registers another one.\<close>

definition replaces_itself :: reentrant_env where
  "replaces_itself = calls_back (H_process 5 0 None 0) [D_unregister 1, D_register 1 (Some 6)]"

lemma replaces_itself_ok: "considerate replaces_itself"
  by (simp add: considerate_def replaces_itself_def calls_back_def)

lemma front_place_ok: "place_ok (\<lambda>h ss s. (s # ss, True))"
  by (simp add: place_ok_def)

theorem considerate_handlers_safe_witness:
  "\<exists>t h. disp_step (\<lambda>h ss s. (s # ss, True)) replaces_itself (disp_start [D_register 1 (Some 5), D_dispatch 1 0 None 0])
      (t, h, [DF_calls [], DF_init 1 5 0, DF_calls [D_dispatch 1 0 None 0]])
    \<and> slots_ok t \<and> balanced t h [DF_calls [], DF_init 1 5 0, DF_calls [D_dispatch 1 0 None 0]]"
proof -
  let ?place = "\<lambda>h ss s. (s # ss, True)" and ?ops = "[D_register 1 (Some 5), D_dispatch 1 0 None 0]"
  let ?fs = "[DF_calls [], DF_init 1 5 0, DF_calls [D_dispatch 1 0 None 0]]"
  have "disp_step ?place replaces_itself (no_slots, [], DF_calls ?ops # [])
      (no_slots, [(H_init 5, replaces_itself [] (H_init 5))], ?fs @ [])"
    by (rule disp_step.intros) (simp add: invoke_def replaces_itself_def calls_back_def)
  then have 1: "disp_step ?place replaces_itself (disp_start ?ops) (no_slots, [(H_init 5, replaces_itself [] (H_init 5))], ?fs)"
    by (simp add: disp_start_def)
  from considerate_handlers_safe [OF replaces_itself_ok front_place_ok r_into_rtranclp [of "disp_step ?place replaces_itself", OF 1]] 1
  show ?thesis by blast
qed

text \<open>
  C16: If, besides, \<open>init\<close> and \<open>process\<close> neither register nor dispatch, every sequence of calls returns, without a
  fault, and then the successful \<open>init\<close> calls of each handler are its \<open>uninit\<close> calls and the protocols it is
  registered for.
\<close>

theorem shallow_handlers_return:
  assumes "considerate env" and "shallow env" and "place_ok place"
  shows "\<exists>t h. disp_calls place env no_slots [] ops = Some (Inr (t, h)) \<and> slots_ok t
    \<and> (\<forall>p. inits (returned h) p = uninits (returned h) p + slots_of t p)"
  using run_returns [OF assms disp_inv_start, of ops] by (auto simp: disp_calls_def disp_inv_def balanced_def)

theorem shallow_handlers_return_witness:
  "\<exists>t h. disp_calls (\<lambda>h ss s. (s # ss, True)) (calls_back (H_process 5 0 None 0) [D_unregister 1, D_timer]) no_slots []
      [D_register 1 (Some 5), D_dispatch 1 0 None 0] = Some (Inr (t, h)) \<and> slots_ok t"
proof -
  let ?env = "calls_back (H_process 5 0 None 0) [D_unregister 1, D_timer]"
  have "considerate ?env" "shallow ?env" by (simp_all add: considerate_def shallow_def calls_back_def)
  from shallow_handlers_return [OF this front_place_ok, of "[D_register 1 (Some 5), D_dispatch 1 0 None 0]"] show ?thesis
    by blast
qed

text \<open>
  C36: What goes wrong otherwise: a handler that unregisters its own protocol in \<open>timer_event\<close> leaves the loop with an
  iterator to an erased node; one that registers another protocol in \<open>uninit\<close> leaves \<open>unregister_proto\<close> with an
  iterator that is invalid when the insertion rehashes; one that unregisters its own protocol in \<open>uninit\<close>
  is told again and again, since it is erased only afterwards.
\<close>

theorem inconsiderate_handlers:
  assumes "slots_ok t" and "slots t = (k, pid, Some p) # rest" and "find_slot t q = None"
    and "\<And>h. snd (place h (slots t) (next_slot t, q, Some r))"
  shows "disp_calls place (calls_back (H_timer_event p pid) [D_unregister pid]) t h [D_timer] = Some (Inl UseAfterFree)
    \<and> disp_calls place (calls_back (H_uninit p) [D_register q (Some r)]) t h [D_unregister pid] = Some (Inl UseAfterFree)
    \<and> disp_calls place (calls_back (H_uninit p) [D_unregister pid]) t h [D_unregister pid] = None"
  using timer_unregisters_itself [OF assms(1,2)] uninit_registers [OF assms(1-3), of place r h, OF assms(4)] uninit_unregisters [OF assms(1,2)]
  by (simp add: disp_calls_def)

theorem inconsiderate_handlers_witness:
  "disp_calls (\<lambda>h ss s. (s # ss, True)) (calls_back (H_uninit 5) [D_unregister 1])
     \<lparr>slots = [(0, 1, Some 5)], next_slot = 1, rehashed = 0\<rparr> [] [D_unregister 1] = None"
proof -
  let ?t = "\<lparr>slots = [(0, 1, Some 5)], next_slot = 1, rehashed = 0\<rparr>"
  have "slots_ok ?t" "slots ?t = (0, 1, Some 5) # []" "find_slot ?t 2 = None"
    by (simp_all add: slots_ok_def find_slot_def)
  from inconsiderate_handlers [OF this, of "\<lambda>h ss s. (s # ss, True)" 6 "[]"] show ?thesis by simp
qed

end
