(* ===== verification/Tcp_Client.thy ===== *)
theory Tcp_Client
  imports String_Utils "HOL-Library.Signed_Division"
begin

text \<open>
  The blocking TCP client of \<open>tcp_client.h\<close> and \<open>tcp_client.cpp\<close>. Every system call is
  answered by the environment and recorded; \<open>errno\<close> keeps its value until a call fails. The
  loops of \<open>send\<close> and \<open>recv\<close> may retry for ever, so they take fuel and return \<open>None\<close> when it
  runs out; how much is enough is a lemma. Log output is left out.
\<close>

section \<open>System calls\<close>

datatype errno = EAGAIN | EWOULDBLOCK | EINTR | EINPROGRESS | Errno nat

datatype sock_call =
    Sys_socket
  | Sys_set_rcvtimeo int int int
  | Sys_set_sndtimeo int int int
  | Sys_inet_pton string
  | Sys_connect int string int
  | Sys_shutdown int
  | Sys_close int
  | Sys_getaddrinfo string string
  | Sys_inet_ntop string
  | Sys_freeaddrinfo
  | Sys_send int "byte list"
  | Sys_recv int nat
  | Sys_peek int
  | Sys_writev int "byte list list"
  | Sys_readv int "nat list"
  | Sys_getsockname int
  | New_client

text \<open>An answer: the return value, \<open>errno\<close> if it is negative, bytes, addresses.\<close>

record sock_ret =
  ret_val :: int
  ret_errno :: errno
  ret_data :: "byte list"
  ret_addrs :: "string list"

type_synonym sock_env = "(sock_call, sock_ret) env"

record sock_world =
  calls :: "(sock_call, sock_ret) history"
  errno_val :: errno

definition sys :: "sock_env \<Rightarrow> sock_world \<Rightarrow> sock_call \<Rightarrow> sock_ret \<times> sock_world" where
  "sys env w c =
     (let (r, h) = invoke env (calls w) c
      in (r, w\<lparr>calls := h, errno_val := (if ret_val r < 0 then ret_errno r else errno_val w)\<rparr>))"

section \<open>State and operations\<close>

record tcp_client =
  m_fd :: int
  m_str_host :: string
  m_ip :: string
  m_str_port :: string
  m_port :: int
  m_timeout :: int

definition tc_error :: int where "tc_error = - 1"
definition tc_timeout :: int where "tc_timeout = 0"

definition tcp_client_init :: tcp_client where
  "tcp_client_init = \<lparr>m_fd = - 1, m_str_host = [], m_ip = [], m_str_port = [], m_port = 0, m_timeout = 3000000\<rparr>"

definition tcp_client_make :: "string \<Rightarrow> int \<Rightarrow> int \<Rightarrow> tcp_client" where
  "tcp_client_make ip port timeout =
     \<lparr>m_fd = - 1, m_str_host = [], m_ip = ip, m_str_port = [], m_port = port, m_timeout = timeout\<rparr>"

definition is_alive :: "tcp_client \<Rightarrow> bool" where
  "is_alive c = (if m_fd c < 0 then False else True)"

definition close_client :: "sock_env \<Rightarrow> sock_world \<Rightarrow> tcp_client \<Rightarrow> tcp_client \<times> sock_world" where
  "close_client env w c =
     (if m_fd c \<ge> 0
      then let (_, w1) = sys env w (Sys_shutdown (m_fd c));
               (_, w2) = sys env w1 (Sys_close (m_fd c))
           in (c\<lparr>m_fd := - 1\<rparr>, w2)
      else (c, w))"

definition timeval_of :: "int \<Rightarrow> int \<times> int" where
  "timeval_of t = (t sdiv 1000000, t smod 1000000)"

definition set_socket_timeout :: "sock_env \<Rightarrow> sock_world \<Rightarrow> tcp_client \<Rightarrow> bool \<times> sock_world" where
  "set_socket_timeout env w c =
     (let (sec, usec) = timeval_of (m_timeout c);
          (r1, w1) = sys env w (Sys_set_rcvtimeo (m_fd c) sec usec)
      in if ret_val r1 \<noteq> 0 then (False, w1)
         else let (r2, w2) = sys env w1 (Sys_set_sndtimeo (m_fd c) sec usec)
              in (ret_val r2 = 0, w2))"

text \<open>The body of the \<open>do \<dots> while(0)\<close> block: whether it returns the connected socket.\<close>

definition connect_attempt :: "sock_env \<Rightarrow> sock_world \<Rightarrow> tcp_client \<Rightarrow> bool \<times> sock_world" where
  "connect_attempt env w c =
     (let (ok, w1) = set_socket_timeout env w c
      in if \<not> ok then (False, w1)
         else let (r, w2) = sys env w1 (Sys_inet_pton (c_str (m_ip c)))
              in if ret_val r \<noteq> 1 then (False, w2)
                 else let (r, w3) = sys env w2 (Sys_connect (m_fd c) (c_str (m_ip c)) (m_port c))
                      in (ret_val r = 0, w3))"

definition connect_ip :: "sock_env \<Rightarrow> sock_world \<Rightarrow> tcp_client \<Rightarrow> int \<times> tcp_client \<times> sock_world" where
  "connect_ip env w c =
     (if m_fd c \<ge> 0 then (m_fd c, c, w)
      else if m_ip c = [] \<or> m_port c < 0 \<or> m_port c > 65535 then (tc_error, c, w)
      else let (r, w1) = sys env w Sys_socket; c1 = c\<lparr>m_fd := ret_val r\<rparr>
           in if m_fd c1 = tc_error then (tc_error, c1, w1)
              else let (ok, w2) = connect_attempt env w1 c1
                   in if ok then (m_fd c1, c1, w2)
                      else let (c2, w3) = close_client env w2 c1 in (tc_error, c2, w3))"

text \<open>The loop over the resolved addresses: how it ends.\<close>

datatype host_outcome = Ntop_failed | Connected | Exhausted

fun connect_addrs :: "sock_env \<Rightarrow> sock_world \<Rightarrow> tcp_client \<Rightarrow> string list \<Rightarrow> host_outcome \<times> tcp_client \<times> sock_world" where
  "connect_addrs env w c [] = (Exhausted, c, w)"
| "connect_addrs env w c (a # as) =
     (let (r, w1) = sys env w (Sys_inet_ntop a)
      in if ret_val r < 0 then (Ntop_failed, c, w1)
         else let (ret, c1, w2) = connect_ip env w1 (c\<lparr>m_ip := a\<rparr>)
              in if ret \<noteq> tc_error then (Connected, c1, w2) else connect_addrs env w2 c1 as)"

definition connect_host :: "sock_env \<Rightarrow> sock_world \<Rightarrow> tcp_client \<Rightarrow> int \<times> tcp_client \<times> sock_world" where
  "connect_host env w c =
     (if m_str_host c = [] \<or> m_str_port c = [] \<or> is_all_digit (m_str_port c) = False then (tc_error, c, w)
      else let c1 = c\<lparr>m_port := atoi (m_str_port c)\<rparr>
           in if m_port c1 < 0 \<or> m_port c1 > 65535 then (tc_error, c1, w)
              else let (r, w1) = sys env w (Sys_getaddrinfo (c_str (m_str_host c)) (c_str (m_str_port c)))
                   in if ret_val r \<noteq> 0 then (tc_error, c1, w1)
                      else let (res, c2, w2) = connect_addrs env w1 c1 (ret_addrs r)
                           in case res of
                                Ntop_failed \<Rightarrow> (tc_error, c2, w2)
                              | Exhausted \<Rightarrow> (- 1, c2, snd (sys env w2 Sys_freeaddrinfo))
                              | Connected \<Rightarrow> (m_fd c2, c2, snd (sys env w2 Sys_freeaddrinfo)))"

definition connect_to :: "sock_env \<Rightarrow> sock_world \<Rightarrow> tcp_client \<Rightarrow> string \<Rightarrow> string \<Rightarrow> int \<times> tcp_client \<times> sock_world" where
  "connect_to env w c host port = connect_host env w (c\<lparr>m_str_host := host, m_str_port := port\<rparr>)"

definition would_block :: "errno \<Rightarrow> bool" where
  "would_block e \<longleftrightarrow> e = EAGAIN \<or> e = EWOULDBLOCK"

definition is_real_alive :: "sock_env \<Rightarrow> sock_world \<Rightarrow> tcp_client \<Rightarrow> bool \<times> sock_world" where
  "is_real_alive env w c =
     (if m_fd c < 0 then (False, w)
      else let (r, w1) = sys env w (Sys_peek (m_fd c))
           in if ret_val r > 0 then (True, w1)
              else if ret_val r = 0 then (False, w1)
              else (would_block (errno_val w1) \<or> errno_val w1 = EINTR, w1))"

definition reconnect :: "sock_env \<Rightarrow> sock_world \<Rightarrow> tcp_client \<Rightarrow> int \<times> tcp_client \<times> sock_world" where
  "reconnect env w c =
     (let (alive, w1) = is_real_alive env w c
      in if alive = False
         then let (c1, w2) = close_client env w1 c; (_, c2, w3) = connect_host env w2 c1 in (0, c2, w3)
         else (0, c, w1))"

text \<open>
  The product is taken in \<open>time_t\<close>, 64 bits; where it overflows the behaviour of C++ is undefined, and
  the model, which has the exact product, says nothing.
\<close>

definition set_timeout :: "sock_env \<Rightarrow> sock_world \<Rightarrow> tcp_client \<Rightarrow> int \<Rightarrow> int \<times> tcp_client \<times> sock_world" where
  "set_timeout env w c t =
     (let c1 = c\<lparr>m_timeout := t * 1000000\<rparr>
      in if m_fd c1 \<ge> 0
         then let (ok, w1) = set_socket_timeout env w c1 in (if ok then 0 else tc_error, c1, w1)
         else (0, c1, w))"

fun send_loop :: "nat \<Rightarrow> sock_env \<Rightarrow> sock_world \<Rightarrow> tcp_client \<Rightarrow> byte list \<Rightarrow> nat \<Rightarrow> (int \<times> tcp_client \<times> sock_world) option" where
  "send_loop 0 env w c buf sent_bytes = None"
| "send_loop (Suc fuel) env w c buf sent_bytes =
     (let (r, w1) = sys env w (Sys_send (m_fd c) (drop sent_bytes buf))
      in if ret_val r < 0
         then if would_block (errno_val w1) \<and> sent_bytes = 0 then Some (tc_timeout, c, w1)
              else if \<not> would_block (errno_val w1) \<and> errno_val w1 = EINTR
                   then send_loop fuel env w1 c buf sent_bytes
              else let (c2, w2) = close_client env w1 c in Some (tc_error, c2, w2)
         else let sent = sent_bytes + nat (ret_val r)
              in if sent \<ge> length buf then Some (int_of_size (of_nat (length buf)), c, w1)
                 else send_loop fuel env w1 c buf sent)"

definition send_client ::
  "nat \<Rightarrow> sock_env \<Rightarrow> sock_world \<Rightarrow> tcp_client \<Rightarrow> byte list option \<Rightarrow> u64 \<Rightarrow> (int \<times> tcp_client \<times> sock_world) option" where
  "send_client fuel env w c buf len =
     (case buf of None \<Rightarrow> Some (tc_error, c, w)
      | Some b \<Rightarrow> if m_fd c < 0 \<or> len = 0 then Some (tc_error, c, w)
                  else send_loop fuel env w c (take (unat len) b) 0)"

text \<open>\<open>recv\<close> fills the caller's buffer from its start; the bytes stored so far are the last component.\<close>

fun recv_loop ::
  "nat \<Rightarrow> sock_env \<Rightarrow> sock_world \<Rightarrow> tcp_client \<Rightarrow> nat \<Rightarrow> byte list \<Rightarrow> (int \<times> byte list \<times> tcp_client \<times> sock_world) option" where
  "recv_loop 0 env w c len got = None"
| "recv_loop (Suc fuel) env w c len got =
     (let (r, w1) = sys env w (Sys_recv (m_fd c) (len - length got))
      in if ret_val r = 0
         then let (c2, w2) = close_client env w1 c in Some (tc_error, got, c2, w2)
         else if ret_val r < 0
         then if would_block (errno_val w1) then Some (tc_timeout, got, c, w1)
              else if errno_val w1 = EINTR then recv_loop fuel env w1 c len got
              else let (c2, w2) = close_client env w1 c in Some (tc_error, got, c2, w2)
         else let got' = got @ take (nat (ret_val r)) (ret_data r)
              in if length got' \<ge> len then Some (int_of_size (of_nat len), got', c, w1)
                 else recv_loop fuel env w1 c len got')"

definition recv_client ::
  "nat \<Rightarrow> sock_env \<Rightarrow> sock_world \<Rightarrow> tcp_client \<Rightarrow> bool \<Rightarrow> u64 \<Rightarrow> (int \<times> byte list \<times> tcp_client \<times> sock_world) option" where
  "recv_client fuel env w c buf_given len =
     (if m_fd c < 0 \<or> \<not> buf_given \<or> len = 0 then Some (tc_error, [], c, w)
      else recv_loop fuel env w c (unat len) [])"

definition writev_client ::
  "sock_env \<Rightarrow> sock_world \<Rightarrow> tcp_client \<Rightarrow> byte list list option \<Rightarrow> int \<times> tcp_client \<times> sock_world" where
  "writev_client env w c iov =
     (case iov of None \<Rightarrow> (tc_error, c, w)
      | Some v \<Rightarrow>
          if m_fd c < 0 \<or> v = [] then (tc_error, c, w)
          else let (r, w1) = sys env w (Sys_writev (m_fd c) v)
               in if ret_val r \<le> 0
                  then if would_block (errno_val w1) then (tc_timeout, c, w1)
                       else let (c2, w2) = close_client env w1 c in (tc_error, c2, w2)
                  else (sint (word_of_int (ret_val r) :: 32 word), c, w1))"

definition readv_client ::
  "sock_env \<Rightarrow> sock_world \<Rightarrow> tcp_client \<Rightarrow> nat list option \<Rightarrow> int \<times> byte list \<times> tcp_client \<times> sock_world" where
  "readv_client env w c iov =
     (case iov of None \<Rightarrow> (tc_error, [], c, w)
      | Some v \<Rightarrow>
          if m_fd c < 0 \<or> v = [] then (tc_error, [], c, w)
          else let (r, w1) = sys env w (Sys_readv (m_fd c) v)
               in if ret_val r = 0
                  then let (c2, w2) = close_client env w1 c in (tc_error, [], c2, w2)
                  else if ret_val r < 0
                  then if would_block (errno_val w1) then (tc_timeout, [], c, w1)
                       else let (c2, w2) = close_client env w1 c in (tc_error, [], c2, w2)
                  else (sint (word_of_int (ret_val r) :: 32 word), ret_data r, c, w1))"

text \<open>The bound address, in network byte order as the kernel fills it in.\<close>

definition get_ip_port ::
  "(sock_ret \<Rightarrow> u32 \<times> u16) \<Rightarrow> sock_env \<Rightarrow> sock_world \<Rightarrow> tcp_client \<Rightarrow> u32 \<Rightarrow> u16 \<Rightarrow> int \<times> u32 \<times> u16 \<times> sock_world" where
  "get_ip_port addr_of env w c ip port =
     (if m_fd c < 0 then (- 1, ip, port, w)
      else let (r, w1) = sys env w (Sys_getsockname (m_fd c))
           in if ret_val r < 0 then (- 1, ip, port, w1)
              else (0, fst (addr_of r), snd (addr_of r), w1))"

section \<open>Answered calls\<close>

lemma sys_unfold [env_simps]:
  "sys env w c = (env (calls w) c, w\<lparr>calls := calls w @ [(c, env (calls w) c)],
     errno_val := (if ret_val (env (calls w) c) < 0 then ret_errno (env (calls w) c) else errno_val w)\<rparr>)"
  by (simp add: sys_def invoke_def)

lemma sys_answer:
  assumes "sys env w c = (r, w')"
  shows "r = env (calls w) c" and "calls w' = calls w @ [(c, r)]" and "ret_val r < 0 \<Longrightarrow> errno_val w' = ret_errno r"
  using assms by (auto simp: env_simps)

text \<open>
  What the kernel promises: \<open>socket\<close> fails with \<open>-1\<close>; a transfer does not exceed the request, and as
  many bytes arrive as are reported. The other calls answer as they like (\<open>getaddrinfo\<close> fails with
  codes below \<open>-1\<close>).
\<close>

definition kernel_ok :: "sock_env \<Rightarrow> bool" where
  "kernel_ok env \<longleftrightarrow>
     (\<forall>h. ret_val (env h Sys_socket) \<ge> - 1)
     \<and> (\<forall>h fd d. ret_val (env h (Sys_send fd d)) \<le> int (length d))
     \<and> (\<forall>h fd n. ret_val (env h (Sys_recv fd n)) \<le> int n
          \<and> (ret_val (env h (Sys_recv fd n)) \<ge> 0 \<longrightarrow>
               length (ret_data (env h (Sys_recv fd n))) = nat (ret_val (env h (Sys_recv fd n)))))"

lemma kernel_send: "kernel_ok env \<Longrightarrow> nat (ret_val (env h (Sys_send fd d))) \<le> length d"
  by (simp add: kernel_ok_def nat_le_iff)

lemma kernel_recv:
  "kernel_ok env \<Longrightarrow> nat (ret_val (env h (Sys_recv fd n))) \<le> n"
  "kernel_ok env \<Longrightarrow> ret_val (env h (Sys_recv fd n)) \<ge> 0 \<Longrightarrow>
   length (ret_data (env h (Sys_recv fd n))) = nat (ret_val (env h (Sys_recv fd n)))"
  by (simp_all add: kernel_ok_def nat_le_iff)

section \<open>Descriptors\<close>

text \<open>
  The account of each descriptor: how often \<open>socket\<close> returned it, less how often it was closed (a
  failed \<open>close\<close> frees the descriptor too), and whether the client holds it. A socket left open, a
  \<open>close\<close> of another descriptor and a \<open>close\<close> of \<open>-1\<close> all show.
\<close>

definition opened :: "int \<Rightarrow> (sock_call, sock_ret) history \<Rightarrow> nat" where
  "opened fd h = length (filter (\<lambda>(c, r). c = Sys_socket \<and> ret_val r \<ge> 0 \<and> ret_val r = fd) h)"

definition closed :: "int \<Rightarrow> (sock_call, sock_ret) history \<Rightarrow> nat" where
  "closed fd h = length (filter (\<lambda>(c, r). c = Sys_close fd) h)"

definition held :: "int \<Rightarrow> tcp_client \<Rightarrow> int" where
  "held fd c = (if m_fd c \<ge> 0 \<and> m_fd c = fd then 1 else 0)"

definition sockets_out :: "int \<Rightarrow> sock_world \<Rightarrow> int" where
  "sockets_out fd w = int (opened fd (calls w)) - int (closed fd (calls w))"

lemma opened_simps [simp]:
  "opened fd [] = 0"
  "opened fd (cr # h) = (if fst cr = Sys_socket \<and> ret_val (snd cr) \<ge> 0 \<and> ret_val (snd cr) = fd then 1 else 0) + opened fd h"
  "opened fd (h @ h') = opened fd h + opened fd h'"
  by (auto simp: opened_def split: prod.splits)

lemma closed_simps [simp]:
  "closed fd [] = 0"
  "closed fd (cr # h) = (if fst cr = Sys_close fd then 1 else 0) + closed fd h"
  "closed fd (h @ h') = closed fd h + closed fd h'"
  by (auto simp: closed_def split: prod.splits)

lemma sys_sockets_out:
  "sys env w c = (r, w') \<Longrightarrow>
   sockets_out fd w' = sockets_out fd w + (if c = Sys_socket \<and> ret_val r \<ge> 0 \<and> ret_val r = fd then 1 else 0)
     - (if c = Sys_close fd then 1 else 0)"
  by (auto simp: sockets_out_def dest: sys_answer)

text \<open>An operation on a client moves sockets in and out of the client only.\<close>

definition keeps_sockets :: "sock_world \<Rightarrow> tcp_client \<Rightarrow> sock_world \<Rightarrow> tcp_client \<Rightarrow> bool" where
  "keeps_sockets w c w' c' \<longleftrightarrow> (\<forall>fd. sockets_out fd w' = sockets_out fd w + held fd c' - held fd c)"

lemma keeps_sockets_refl [simp]: "keeps_sockets w c w c"
  by (simp add: keeps_sockets_def)

lemma keeps_sockets_trans: "keeps_sockets w c w1 c1 \<Longrightarrow> keeps_sockets w1 c1 w2 c2 \<Longrightarrow> keeps_sockets w c w2 c2"
  by (simp add: keeps_sockets_def)

text \<open>What no operation but \<open>connect_to\<close> and \<open>set_timeout\<close> changes.\<close>

definition same_target :: "tcp_client \<Rightarrow> tcp_client \<Rightarrow> bool" where
  "same_target c c' \<longleftrightarrow> m_str_host c' = m_str_host c \<and> m_str_port c' = m_str_port c \<and> m_timeout c' = m_timeout c"

lemma same_target_simps [simp]:
  "same_target c c"
  "same_target c (c\<lparr>m_fd := x\<rparr>)"
  "same_target c (c\<lparr>m_port := x\<rparr>)"
  "same_target (c\<lparr>m_ip := s\<rparr>) c' = same_target c c'"
  "same_target (c\<lparr>m_port := x\<rparr>) c' = same_target c c'"
  by (simp_all add: same_target_def)

lemma same_target_trans: "same_target c c1 \<Longrightarrow> same_target c1 c2 \<Longrightarrow> same_target c c2"
  by (simp add: same_target_def)

lemma close_client_result:
  assumes "close_client env w c = (c', w')"
  shows "m_fd c' < 0" "keeps_sockets w c w' c'" "m_fd c \<ge> 0 \<Longrightarrow> c' = c\<lparr>m_fd := - 1\<rparr>" "m_fd c < 0 \<Longrightarrow> c' = c"
  using assms by (auto simp: close_client_def env_simps keeps_sockets_def sockets_out_def held_def split: if_splits)


lemma set_socket_timeout_keeps: "set_socket_timeout env w c = (ok, w') \<Longrightarrow> sockets_out fd w' = sockets_out fd w"
  by (auto simp: set_socket_timeout_def timeval_of_def env_simps sockets_out_def Let_def split: if_splits)

lemma connect_attempt_keeps:
  assumes "connect_attempt env w c = (ok, w')"
  shows "sockets_out fd w' = sockets_out fd w"
proof -
  obtain b w1 where s: "set_socket_timeout env w c = (b, w1)" by fastforce
  with assms show ?thesis using set_socket_timeout_keeps [OF s]
    by (auto simp: connect_attempt_def env_simps sockets_out_def split: if_splits)
qed

lemma connect_ip_result:
  assumes "kernel_ok env" and "connect_ip env w c = (r, c', w')"
  shows "keeps_sockets w c w' c' \<and> same_target c c' \<and> m_ip c' = m_ip c \<and> m_port c' = m_port c
    \<and> (if r = tc_error then m_fd c' < 0 else r = m_fd c' \<and> r \<ge> 0)"
proof (cases "m_fd c \<ge> 0 \<or> m_ip c = [] \<or> m_port c < 0 \<or> m_port c > 65535")
  case True
  with assms(2) show ?thesis by (auto simp: connect_ip_def tc_error_def split: if_splits)
next
  case False
  obtain r1 w1 where s: "sys env w Sys_socket = (r1, w1)" by fastforce
  define c1 where "c1 = c\<lparr>m_fd := ret_val r1\<rparr>"
  have unf: "connect_ip env w c =
      (if m_fd c1 = tc_error then (tc_error, c1, w1)
       else let (ok, w2) = connect_attempt env w1 c1
            in if ok then (m_fd c1, c1, w2) else let (c2, w3) = close_client env w2 c1 in (tc_error, c2, w3))"
    unfolding c1_def using False s by (simp add: connect_ip_def Let_def)
  have out1: "keeps_sockets w c w1 c1"
    using False sys_answer(2) [OF s] by (simp add: keeps_sockets_def sockets_out_def held_def c1_def)
  have eq: "same_target c c1" "m_ip c1 = m_ip c" "m_port c1 = m_port c" by (simp_all add: c1_def)
  show ?thesis
  proof (cases "m_fd c1 = tc_error")
    case True
    with assms(2) unf out1 eq show ?thesis by (auto simp: tc_error_def)
  next
    case nofail: False
    have "m_fd c1 \<ge> - 1" using assms(1) sys_answer(1) [OF s] by (simp add: c1_def kernel_ok_def)
    with nofail have pos: "m_fd c1 \<ge> 0" by (simp add: tc_error_def)
    obtain ok w2 where a: "connect_attempt env w1 c1 = (ok, w2)" by fastforce
    have out2: "keeps_sockets w c w2 c1"
      using out1 connect_attempt_keeps [OF a] by (simp add: keeps_sockets_def)
    show ?thesis
    proof (cases ok)
      case True
      with assms(2) unf a nofail pos eq out2 show ?thesis by (auto simp: tc_error_def)
    next
      case notok: False
      obtain c2 w3 where cl: "close_client env w2 c1 = (c2, w3)" by fastforce
      note res = close_client_result [OF cl]
      have "keeps_sockets w c w3 c2" using keeps_sockets_trans [OF out2 res(2)] .
      moreover have "same_target c c2" "m_ip c2 = m_ip c" "m_port c2 = m_port c" using res(3) [OF pos] by (simp_all add: c1_def)
      ultimately show ?thesis
        using assms(2) unf a nofail notok cl res(1) by (auto simp: tc_error_def)
    qed
  qed
qed

lemma connect_ip_live: "m_fd c \<ge> 0 \<Longrightarrow> connect_ip env w c = (m_fd c, c, w)"
  by (simp add: connect_ip_def)

lemma keeps_sockets_ip [simp]:
  "keeps_sockets w (c\<lparr>m_ip := a\<rparr>) w' c' = keeps_sockets w c w' c'"
  "keeps_sockets w (c\<lparr>m_port := q\<rparr>) w' c' = keeps_sockets w c w' c'"
  "keeps_sockets w (c\<lparr>m_str_host := x, m_str_port := y\<rparr>) w' c' = keeps_sockets w c w' c'"
  "keeps_sockets w c w' (c'\<lparr>m_port := q\<rparr>) = keeps_sockets w c w' c'"
  by (simp_all add: keeps_sockets_def held_def)

lemma keeps_sockets_sys:
  "sys env w x = (r, w') \<Longrightarrow> x \<noteq> Sys_socket \<Longrightarrow> (\<And>fd. x \<noteq> Sys_close fd) \<Longrightarrow> keeps_sockets w c w' c"
  by (simp add: keeps_sockets_def sys_sockets_out)

lemma connect_addrs_result:
  assumes "kernel_ok env" and "connect_addrs env w c as = (res, c', w')"
  shows "keeps_sockets w c w' c' \<and> same_target c c' \<and> m_port c' = m_port c
    \<and> (res = Connected \<longrightarrow> m_fd c' \<ge> 0 \<and> m_ip c' \<in> set as)
    \<and> (res \<noteq> Connected \<longrightarrow> m_fd c < 0 \<longrightarrow> m_fd c' < 0)"
  using assms(2)
proof (induction as arbitrary: w c)
  case (Cons a as)
  obtain r w1 where s: "sys env w (Sys_inet_ntop a) = (r, w1)" by fastforce
  have k1: "keeps_sockets w c w1 c" by (rule keeps_sockets_sys [OF s]) simp_all
  obtain ret c1 w2 where ci: "connect_ip env w1 (c\<lparr>m_ip := a\<rparr>) = (ret, c1, w2)"
    by (cases "connect_ip env w1 (c\<lparr>m_ip := a\<rparr>)") auto
  note res = connect_ip_result [OF assms(1) ci]
  have k2: "keeps_sockets w c w2 c1" using keeps_sockets_trans [OF k1, of w2 c1] res by simp
  have eq: "same_target c c1" "m_port c1 = m_port c" and ip: "m_ip c1 = a"
    using res by simp_all
  show ?case
  proof (cases "ret_val r < 0 \<or> ret \<noteq> tc_error")
    case True
    have "ret \<noteq> tc_error \<Longrightarrow> m_fd c1 \<ge> 0" and "ret = tc_error \<Longrightarrow> m_fd c1 < 0" using res by (auto split: if_splits)
    with True Cons.prems s ci k1 k2 eq ip show ?thesis by (auto split: if_splits)
  next
    case False
    with Cons.prems s ci have rest: "connect_addrs env w2 c1 as = (res, c', w')" by simp
    have dead: "m_fd c1 < 0" using res False by simp
    have "same_target c c'" using Cons.IH [OF rest] same_target_trans [OF eq(1)] by blast
    with eq show ?thesis using Cons.IH [OF rest] keeps_sockets_trans [OF k2] dead by auto
  qed
qed simp

lemma connect_host_result:
  assumes "kernel_ok env" and "connect_host env w c = (r, c', w')"
  shows "keeps_sockets w c w' c' \<and> same_target c c'
    \<and> (r \<noteq> tc_error \<longrightarrow> r = m_fd c' \<and> r \<ge> 0 \<and> m_port c' = atoi (m_str_port c) \<and> 0 \<le> m_port c' \<and> m_port c' \<le> 65535)
    \<and> (r = tc_error \<longrightarrow> m_fd c < 0 \<longrightarrow> m_fd c' < 0)"
proof -
  define c1 where "c1 = c\<lparr>m_port := atoi (m_str_port c)\<rparr>"
  obtain g w1 where g: "sys env w (Sys_getaddrinfo (c_str (m_str_host c)) (c_str (m_str_port c))) = (g, w1)" by fastforce
  have kg: "keeps_sockets w c w1 c" by (rule keeps_sockets_sys [OF g]) simp_all
  obtain res c2 w2 where a: "connect_addrs env w1 c1 (ret_addrs g) = (res, c2, w2)"
    by (cases "connect_addrs env w1 c1 (ret_addrs g)") auto
  obtain f w3 where f: "sys env w2 Sys_freeaddrinfo = (f, w3)" by fastforce
  have kf: "keeps_sockets w2 c2 w3 c2" by (rule keeps_sockets_sys [OF f]) simp_all
  note ra = connect_addrs_result [OF assms(1) a]
  have k2: "keeps_sockets w c w2 c2" using keeps_sockets_trans [OF kg, of w2 c2] ra by (simp add: c1_def)
  note k3 = keeps_sockets_trans [OF k2 kf]
  have eq: "same_target c c2" and p: "m_port c2 = atoi (m_str_port c)"
    using ra by (simp_all add: c1_def)
  have fd: "res = Connected \<Longrightarrow> m_fd c2 \<ge> 0" "res \<noteq> Connected \<Longrightarrow> m_fd c < 0 \<Longrightarrow> m_fd c2 < 0"
    using ra by (simp_all add: c1_def)
  show ?thesis
  proof (cases "m_str_host c = [] \<or> m_str_port c = [] \<or> is_all_digit (m_str_port c) = False
      \<or> m_port c1 < 0 \<or> m_port c1 > 65535 \<or> ret_val g \<noteq> 0")
    case True
    with assms(2) g kg show ?thesis by (auto simp: connect_host_def c1_def Let_def split: if_splits)
  next
    case False
    then have "connect_host env w c = (case res of Ntop_failed \<Rightarrow> (tc_error, c2, w2) | Exhausted \<Rightarrow> (- 1, c2, w3)
        | Connected \<Rightarrow> (m_fd c2, c2, w3))"
      using g a f by (simp add: connect_host_def c1_def Let_def split: host_outcome.splits)
    with assms(2) k2 k3 eq p fd False show ?thesis
      by (cases res) (auto simp: tc_error_def c1_def)
  qed
qed

lemma connect_to_result:
  assumes "kernel_ok env" and "connect_to env w c host port = (r, c', w')"
  shows "keeps_sockets w c w' c' \<and> (r = tc_error \<longrightarrow> m_fd c < 0 \<longrightarrow> m_fd c' < 0) \<and> (r \<noteq> tc_error \<longrightarrow> r = m_fd c' \<and> r \<ge> 0)"
  using connect_host_result [OF assms(1) assms(2) [unfolded connect_to_def]] by simp

lemma connect_to_target:
  assumes "kernel_ok env" and "connect_to env w c host port = (r, c', w')"
  shows "m_str_host c' = host" "m_str_port c' = port" "m_timeout c' = m_timeout c"
  using connect_host_result [OF assms(1) assms(2) [unfolded connect_to_def]] by (simp_all add: same_target_def)

lemma is_real_alive_keeps: "is_real_alive env w c = (b, w') \<Longrightarrow> keeps_sockets w c w' c"
  by (auto simp: is_real_alive_def env_simps keeps_sockets_def sockets_out_def split: if_splits)

lemma reconnect_keeps:
  assumes "kernel_ok env" and "reconnect env w c = (r, c', w')"
  shows "keeps_sockets w c w' c'"
proof -
  obtain b w1 where al: "is_real_alive env w c = (b, w1)" by fastforce
  obtain c1 w2 where cl: "close_client env w1 c = (c1, w2)" by fastforce
  obtain r2 c2 w3 where co: "connect_host env w2 c1 = (r2, c2, w3)" by (cases "connect_host env w2 c1") auto
  have "keeps_sockets w c w3 c2"
    using keeps_sockets_trans [OF keeps_sockets_trans [OF is_real_alive_keeps [OF al] close_client_result(2) [OF cl]]]
      connect_host_result [OF assms(1) co] by blast
  with assms(2) al cl co is_real_alive_keeps [OF al] show ?thesis by (auto simp: reconnect_def split: if_splits)
qed

lemma set_timeout_keeps:
  assumes "set_timeout env w c t = (r, c', w')"
  shows "keeps_sockets w c w' c'" "m_fd c' = m_fd c"
proof -
  obtain b w1 where s: "set_socket_timeout env w (c\<lparr>m_timeout := t * 1000000\<rparr>) = (b, w1)" by fastforce
  show "keeps_sockets w c w' c'" "m_fd c' = m_fd c"
    using assms s set_socket_timeout_keeps [OF s]
    by (auto simp: set_timeout_def Let_def keeps_sockets_def held_def split: if_splits)
qed

lemma writev_keeps:
  assumes "writev_client env w c iov = (r, c', w')"
  shows "keeps_sockets w c w' c'"
proof (cases "iov = None \<or> m_fd c < 0 \<or> iov = Some []")
  case False
  then obtain v where v: "iov = Some v" "v \<noteq> []" by auto
  obtain x w1 where s: "sys env w (Sys_writev (m_fd c) v) = (x, w1)" by fastforce
  have k: "keeps_sockets w c w1 c" by (rule keeps_sockets_sys [OF s]) simp_all
  obtain c2 w2 where cl: "close_client env w1 c = (c2, w2)" by fastforce
  show ?thesis
    using assms v s k cl keeps_sockets_trans [OF k close_client_result(2) [OF cl]] False
    by (auto simp: writev_client_def split: if_splits)
qed (use assms in \<open>auto simp: writev_client_def split: option.splits\<close>)

lemma readv_keeps:
  assumes "readv_client env w c iov = (r, got, c', w')"
  shows "keeps_sockets w c w' c'"
proof (cases "iov = None \<or> m_fd c < 0 \<or> iov = Some []")
  case False
  then obtain v where v: "iov = Some v" "v \<noteq> []" by auto
  obtain x w1 where s: "sys env w (Sys_readv (m_fd c) v) = (x, w1)" by fastforce
  have k: "keeps_sockets w c w1 c" by (rule keeps_sockets_sys [OF s]) simp_all
  obtain c2 w2 where cl: "close_client env w1 c = (c2, w2)" by fastforce
  show ?thesis
    using assms v s k cl keeps_sockets_trans [OF k close_client_result(2) [OF cl]] False
    by (auto simp: readv_client_def split: if_splits)
qed (use assms in \<open>auto simp: readv_client_def split: option.splits\<close>)

section \<open>Sending\<close>

text \<open>The bytes the kernel accepted on a descriptor, in order.\<close>

definition accepted :: "int \<Rightarrow> (sock_call, sock_ret) history \<Rightarrow> byte list" where
  "accepted fd h =
     concat (map (\<lambda>(c, r). case c of Sys_send f d \<Rightarrow> if f = fd then take (nat (ret_val r)) d else [] | _ \<Rightarrow> []) h)"

lemma accepted_append [simp]: "accepted fd (h @ h') = accepted fd h @ accepted fd h'"
  by (simp add: accepted_def)

lemma accepted_Cons [simp]:
  "accepted fd ((c, r) # h) = (case c of Sys_send f d \<Rightarrow> if f = fd then take (nat (ret_val r)) d else [] | _ \<Rightarrow> []) @ accepted fd h"
  "accepted fd [] = []"
  by (simp_all add: accepted_def)

lemma close_client_accepted: "close_client env w c = (c', w') \<Longrightarrow> accepted fd (calls w') = accepted fd (calls w)"
  by (auto simp: close_client_def env_simps split: if_splits)

text \<open>How a send of \<open>buf\<close> may end, once \<open>k\<close> bytes of it have been accepted.\<close>

definition send_end :: "tcp_client \<Rightarrow> byte list \<Rightarrow> nat \<Rightarrow> int \<Rightarrow> tcp_client \<Rightarrow> bool" where
  "send_end c buf k r c' \<longleftrightarrow>
     r = int_of_size (of_nat (length buf)) \<and> c' = c \<and> k = length buf
   \<or> r = tc_timeout \<and> c' = c \<and> k = 0
   \<or> r = tc_error \<and> c' = c\<lparr>m_fd := - 1\<rparr> \<and> k < length buf"

lemma send_step:
  assumes "kernel_ok env" and "sys env w (Sys_send (m_fd c) (drop n buf)) = (r, w1)" and "n < length buf"
  shows "ret_val r \<ge> 0 \<Longrightarrow> n + nat (ret_val r) \<le> length buf
           \<and> accepted (m_fd c) (calls w1) = accepted (m_fd c) (calls w) @ take (nat (ret_val r)) (drop n buf)"
    and "ret_val r < 0 \<Longrightarrow> accepted (m_fd c) (calls w1) = accepted (m_fd c) (calls w)"
  using kernel_send [OF assms(1), of "calls w" "m_fd c" "drop n buf"] assms(3)
    sys_answer [OF assms(2)] by simp_all

lemma send_loop_result:
  assumes "kernel_ok env" and "m_fd c \<ge> 0"
  shows "send_loop fuel env w c buf n = Some (r, c', w') \<Longrightarrow> n < length buf \<Longrightarrow>
    \<exists>k. n \<le> k \<and> send_end c buf k r c' \<and> keeps_sockets w c w' c'
      \<and> accepted (m_fd c) (calls w') = accepted (m_fd c) (calls w) @ take (k - n) (drop n buf)"
proof (induction fuel arbitrary: w n)
  case (Suc fuel)
  obtain x w1 where s: "sys env w (Sys_send (m_fd c) (drop n buf)) = (x, w1)" by fastforce
  have k1: "keeps_sockets w c w1 c" by (rule keeps_sockets_sys [OF s]) simp_all
  obtain c2 w2 where cl: "close_client env w1 c = (c2, w2)" by fastforce
  note k2 = keeps_sockets_trans [OF k1 close_client_result(2) [OF cl]]
  have c2: "c2 = c\<lparr>m_fd := - 1\<rparr>" by (rule close_client_result(3) [OF cl assms(2)])
  note acc = send_step [OF assms(1) s Suc.prems(2)]
  show ?case
  proof (cases "ret_val x < 0")
    case neg: True
    show ?thesis
    proof (cases "\<not> would_block (errno_val w1) \<and> errno_val w1 = EINTR")
      case True
      with Suc.prems s neg have "send_loop fuel env w1 c buf n = Some (r, c', w')" by (simp add: would_block_def)
      from Suc.IH [OF this Suc.prems(2)] show ?thesis
        using keeps_sockets_trans [OF k1] acc(2) [OF neg] by metis
    next
      case False
      with Suc.prems s neg cl have "n = 0 \<and> (r, c', w') = (tc_timeout, c, w1) \<or> (r, c', w') = (tc_error, c2, w2)"
        by (auto split: if_splits)
      then show ?thesis
        by (rule disjE; intro exI [of _ n])
          (use k1 k2 c2 acc(2) [OF neg] close_client_accepted [OF cl] Suc.prems(2) in \<open>auto simp: send_end_def\<close>)
    qed
  next
    case False
    then have pos: "ret_val x \<ge> 0" by simp
    define m where "m = n + nat (ret_val x)"
    have m: "m \<le> length buf" and am: "accepted (m_fd c) (calls w1) = accepted (m_fd c) (calls w) @ take (m - n) (drop n buf)"
      using acc(1) [OF pos] by (simp_all add: m_def)
    show ?thesis
    proof (cases "m \<ge> length buf")
      case True
      with Suc.prems s False have "(r, c', w') = (int_of_size (of_nat (length buf)), c, w1)"
        by (simp add: m_def Let_def)
      with True m am k1 Suc.prems(2) show ?thesis by (intro exI [of _ m]) (simp add: send_end_def)
    next
      case notdone: False
      with Suc.prems s False have "send_loop fuel env w1 c buf m = Some (r, c', w')"
        by (simp add: m_def Let_def)
      from Suc.IH [OF this] notdone obtain k where k: "m \<le> k" "send_end c buf k r c'" "keeps_sockets w1 c w' c'"
        "accepted (m_fd c) (calls w') = accepted (m_fd c) (calls w1) @ take (k - m) (drop m buf)" by auto
      have "take (k - n) (drop n buf) = take (m - n) (drop n buf) @ take (k - m) (drop m buf)"
        using take_add [of "m - n" "k - m" "drop n buf"] k(1) by (simp add: m_def add.commute)
      with k am keeps_sockets_trans [OF k1 k(3)] show ?thesis
        by (intro exI [of _ k]) (simp add: m_def)
    qed
  qed
qed simp

section \<open>Receiving\<close>

text \<open>The bytes the kernel handed out on a descriptor, in order.\<close>

definition delivered :: "int \<Rightarrow> (sock_call, sock_ret) history \<Rightarrow> byte list" where
  "delivered fd h =
     concat (map (\<lambda>(c, r). case c of Sys_recv f n \<Rightarrow> if f = fd then take (nat (ret_val r)) (ret_data r) else [] | _ \<Rightarrow> []) h)"

lemma delivered_append [simp]: "delivered fd (h @ h') = delivered fd h @ delivered fd h'"
  by (simp add: delivered_def)

lemma delivered_Cons [simp]:
  "delivered fd ((c, r) # h) =
     (case c of Sys_recv f n \<Rightarrow> if f = fd then take (nat (ret_val r)) (ret_data r) else [] | _ \<Rightarrow> []) @ delivered fd h"
  "delivered fd [] = []"
  by (simp_all add: delivered_def)

lemma close_client_delivered: "close_client env w c = (c', w') \<Longrightarrow> delivered fd (calls w') = delivered fd (calls w)"
  by (auto simp: close_client_def env_simps split: if_splits)

text \<open>How a receive of \<open>len\<close> bytes may end with \<open>got\<close> in the caller's buffer.\<close>

definition recv_end :: "tcp_client \<Rightarrow> nat \<Rightarrow> byte list \<Rightarrow> int \<Rightarrow> tcp_client \<Rightarrow> bool" where
  "recv_end c len got r c' \<longleftrightarrow>
     r = int_of_size (of_nat len) \<and> c' = c \<and> length got = len
   \<or> r = tc_timeout \<and> c' = c \<and> length got < len
   \<or> r = tc_error \<and> c' = c\<lparr>m_fd := - 1\<rparr> \<and> length got < len"

lemma recv_step:
  assumes "kernel_ok env" and "sys env w (Sys_recv (m_fd c) n) = (r, w1)"
  shows "ret_val r > 0 \<Longrightarrow> length (ret_data r) = nat (ret_val r) \<and> length (ret_data r) \<le> n
           \<and> delivered (m_fd c) (calls w1) = delivered (m_fd c) (calls w) @ ret_data r"
    and "ret_val r \<le> 0 \<Longrightarrow> delivered (m_fd c) (calls w1) = delivered (m_fd c) (calls w)"
  using kernel_recv [OF assms(1), of "calls w" "m_fd c" n] sys_answer [OF assms(2)] by simp_all

lemma recv_loop_result:
  assumes "kernel_ok env" and "m_fd c \<ge> 0"
  shows "recv_loop fuel env w c len got = Some (r, got', c', w') \<Longrightarrow> length got < len \<Longrightarrow>
    \<exists>more. got' = got @ more \<and> recv_end c len got' r c' \<and> keeps_sockets w c w' c'
      \<and> delivered (m_fd c) (calls w') = delivered (m_fd c) (calls w) @ more"
proof (induction fuel arbitrary: w got)
  case (Suc fuel)
  obtain x w1 where s: "sys env w (Sys_recv (m_fd c) (len - length got)) = (x, w1)" by fastforce
  have k1: "keeps_sockets w c w1 c" by (rule keeps_sockets_sys [OF s]) simp_all
  obtain c2 w2 where cl: "close_client env w1 c = (c2, w2)" by fastforce
  note k2 = keeps_sockets_trans [OF k1 close_client_result(2) [OF cl]]
  have c2: "c2 = c\<lparr>m_fd := - 1\<rparr>" by (rule close_client_result(3) [OF cl assms(2)])
  note del = recv_step [OF assms(1) s]
  show ?case
  proof (cases "ret_val x > 0")
    case False
    show ?thesis
    proof (cases "ret_val x < 0 \<and> \<not> would_block (errno_val w1) \<and> errno_val w1 = EINTR")
      case True
      with Suc.prems s have "recv_loop fuel env w1 c len got = Some (r, got', c', w')" by (simp add: would_block_def)
      from Suc.IH [OF this Suc.prems(2)] show ?thesis
        using keeps_sockets_trans [OF k1] del(2) False by (metis not_less)
    next
      case notintr: False
      with Suc.prems s False cl have
        "(r, got', c', w') = (tc_timeout, got, c, w1) \<or> (r, got', c', w') = (tc_error, got, c2, w2)"
        by (auto split: if_splits)
      then show ?thesis
        by (rule disjE; intro exI [of _ "[]"])
          (use k1 k2 c2 del(2) False close_client_delivered [OF cl] Suc.prems(2) in \<open>auto simp: recv_end_def\<close>)
    qed
  next
    case pos: True
    define got1 where "got1 = got @ ret_data x"
    have l: "length got1 \<le> len"
      using del(1) [OF pos] Suc.prems(2) unfolding got1_def length_append by linarith
    have d: "delivered (m_fd c) (calls w1) = delivered (m_fd c) (calls w) @ ret_data x"
      and t: "take (nat (ret_val x)) (ret_data x) = ret_data x"
      using del(1) [OF pos] by simp_all
    show ?thesis
    proof (cases "length got1 \<ge> len")
      case True
      with Suc.prems(1) s pos t have "(r, got', c', w') = (int_of_size (of_nat len), got1, c, w1)"
        by (simp add: got1_def Let_def)
      with True l d k1 show ?thesis by (intro exI [of _ "ret_data x"]) (simp add: recv_end_def got1_def)
    next
      case notdone: False
      with Suc.prems(1) s pos t have "recv_loop fuel env w1 c len got1 = Some (r, got', c', w')"
        by (simp add: got1_def Let_def)
      from Suc.IH [OF this] notdone obtain more where m: "got' = got1 @ more" "recv_end c len got' r c'"
        "keeps_sockets w1 c w' c'" "delivered (m_fd c) (calls w') = delivered (m_fd c) (calls w1) @ more" by auto
      with d keeps_sockets_trans [OF k1 m(3)] show ?thesis
        by (intro exI [of _ "ret_data x @ more"]) (simp add: got1_def)
    qed
  qed
qed simp

section \<open>The loops return\<close>

text \<open>
  A loop retries after an interrupted call and after a partial transfer. With at most \<open>N\<close>
  interruptions in a row and a \<open>send\<close> that accepts at least a byte when it succeeds,
  \<open>len * (N + 1) + N\<close> rounds are enough.
\<close>

definition interrupted :: "sock_call \<times> sock_ret \<Rightarrow> bool" where
  "interrupted cr \<longleftrightarrow> ret_val (snd cr) < 0 \<and> ret_errno (snd cr) = EINTR"

definition eintr_run :: "(sock_call, sock_ret) history \<Rightarrow> nat" where
  "eintr_run h = length (takeWhile interrupted (rev h))"

lemma eintr_run_snoc [simp]: "eintr_run (h @ [cr]) = (if interrupted cr then Suc (eintr_run h) else 0)"
  by (simp add: eintr_run_def)

definition interrupts_bounded :: "nat \<Rightarrow> sock_env \<Rightarrow> bool" where
  "interrupts_bounded N env \<longleftrightarrow> (\<forall>h c. eintr_run (h @ [(c, env h c)]) \<le> N)"

definition send_progresses :: "sock_env \<Rightarrow> bool" where
  "send_progresses env \<longleftrightarrow> (\<forall>h fd d. d \<noteq> [] \<longrightarrow> ret_val (env h (Sys_send fd d)) \<noteq> 0)"

definition rounds_left :: "nat \<Rightarrow> nat \<Rightarrow> sock_world \<Rightarrow> nat" where
  "rounds_left N todo w = todo * (N + 1) + (N - eintr_run (calls w))"

lemma rounds_left_start: "rounds_left N todo w \<le> todo * (N + 1) + N"
  by (simp add: rounds_left_def)

lemma rounds_left_interrupted:
  assumes "interrupts_bounded N env" and "sys env w c = (r, w1)" and "ret_val r < 0" and "errno_val w1 = EINTR"
  shows "rounds_left N todo w1 < rounds_left N todo w"
proof -
  note a = sys_answer [OF assms(2)]
  have i: "interrupted (c, r)" using a(3) assms(3,4) by (simp add: interrupted_def)
  have "eintr_run (calls w @ [(c, r)]) \<le> N" using assms(1) a(1) unfolding interrupts_bounded_def by blast
  with i have "Suc (eintr_run (calls w)) \<le> N" by simp
  with i show ?thesis by (simp add: rounds_left_def a(2))
qed

lemma rounds_left_progress:
  assumes "todo' < todo"
  shows "rounds_left N todo' w1 < rounds_left N todo w"
proof -
  have "rounds_left N todo' w1 \<le> todo' * (N + 1) + N" by (rule rounds_left_start)
  also have "\<dots> < Suc todo' * (N + 1)" by simp
  also have "\<dots> \<le> todo * (N + 1)" using assms by (intro mult_le_mono1) simp
  finally show ?thesis by (simp add: rounds_left_def)
qed

lemma send_loop_total:
  assumes "interrupts_bounded N env" and "send_progresses env"
  shows "n < length buf \<Longrightarrow> rounds_left N (length buf - n) w < fuel \<Longrightarrow> send_loop fuel env w c buf n \<noteq> None"
proof (induction fuel arbitrary: w n)
  case (Suc fuel)
  obtain x w1 where s: "sys env w (Sys_send (m_fd c) (drop n buf)) = (x, w1)" by fastforce
  have nz: "ret_val x \<noteq> 0"
    using assms(2) Suc.prems(1) sys_answer(1) [OF s] by (simp add: send_progresses_def)
  show ?case
  proof (cases "ret_val x < 0")
    case neg: True
    show ?thesis
    proof (cases "errno_val w1 = EINTR")
      case True
      have "rounds_left N (length buf - n) w1 < fuel"
        using rounds_left_interrupted [OF assms(1) s neg True, of "length buf - n"] Suc.prems(2) by linarith
      from Suc.IH [OF Suc.prems(1) this] s neg True show ?thesis by (simp add: would_block_def)
    next
      case False
      with s neg show ?thesis by (simp split: prod.splits)
    qed
  next
    case False
    define m where "m = n + nat (ret_val x)"
    show ?thesis
    proof (cases "m < length buf")
      case True
      have "length buf - m < length buf - n" using nz False True by (simp add: m_def)
      then have "rounds_left N (length buf - m) w1 < fuel"
        using rounds_left_progress [of _ _ N w1 w] Suc.prems(2) by fastforce
      from Suc.IH [OF True this] s False True show ?thesis by (simp add: m_def Let_def)
    next
      case full: False
      with s False show ?thesis by (simp add: m_def Let_def)
    qed
  qed
qed simp

lemma recv_loop_total:
  assumes "interrupts_bounded N env" and "kernel_ok env"
  shows "length got < len \<Longrightarrow> rounds_left N (len - length got) w < fuel \<Longrightarrow> recv_loop fuel env w c len got \<noteq> None"
proof (induction fuel arbitrary: w got)
  case (Suc fuel)
  obtain x w1 where s: "sys env w (Sys_recv (m_fd c) (len - length got)) = (x, w1)" by fastforce
  show ?case
  proof (cases "ret_val x > 0")
    case False
    show ?thesis
    proof (cases "ret_val x < 0 \<and> errno_val w1 = EINTR")
      case True
      have "rounds_left N (len - length got) w1 < fuel"
        using rounds_left_interrupted [OF assms(1) s, of "len - length got"] True Suc.prems(2) by linarith
      from Suc.IH [OF Suc.prems(1) this] s True show ?thesis by (simp add: would_block_def)
    next
      case notintr: False
      with s False show ?thesis by (auto split: prod.splits)
    qed
  next
    case pos: True
    define got1 where "got1 = got @ take (nat (ret_val x)) (ret_data x)"
    show ?thesis
    proof (cases "length got1 < len")
      case True
      have "length got < length got1" using recv_step(1) [OF assms(2) s pos] pos by (simp add: got1_def)
      with True have "rounds_left N (len - length got1) w1 < rounds_left N (len - length got) w"
        by (intro rounds_left_progress) linarith
      with Suc.prems(2) have "rounds_left N (len - length got1) w1 < fuel" by linarith
      from Suc.IH [OF True this] s pos True show ?thesis by (simp add: got1_def Let_def)
    next
      case full: False
      with s pos show ?thesis by (simp add: got1_def Let_def)
    qed
  qed
qed simp

section \<open>Sequences of calls\<close>

datatype tcp_op =
    T_connect
  | T_connect_to string string
  | T_reconnect
  | T_close
  | T_set_timeout int
  | T_send "byte list option" u64
  | T_recv bool u64
  | T_writev "byte list list option"
  | T_readv "nat list option"

text \<open>A call that is still running when its fuel is used up has no result yet: the state stays.\<close>

fun tcp_step :: "nat \<Rightarrow> sock_env \<Rightarrow> sock_world \<times> tcp_client \<Rightarrow> tcp_op \<Rightarrow> sock_world \<times> tcp_client" where
  "tcp_step fuel env (w, c) T_connect = (case connect_ip env w c of (_, c', w') \<Rightarrow> (w', c'))"
| "tcp_step fuel env (w, c) (T_connect_to host port) = (case connect_to env w c host port of (_, c', w') \<Rightarrow> (w', c'))"
| "tcp_step fuel env (w, c) T_reconnect = (case reconnect env w c of (_, c', w') \<Rightarrow> (w', c'))"
| "tcp_step fuel env (w, c) T_close = (case close_client env w c of (c', w') \<Rightarrow> (w', c'))"
| "tcp_step fuel env (w, c) (T_set_timeout t) = (case set_timeout env w c t of (_, c', w') \<Rightarrow> (w', c'))"
| "tcp_step fuel env (w, c) (T_send buf len) =
     (case send_client fuel env w c buf len of Some (_, c', w') \<Rightarrow> (w', c') | None \<Rightarrow> (w, c))"
| "tcp_step fuel env (w, c) (T_recv given len) =
     (case recv_client fuel env w c given len of Some (_, _, c', w') \<Rightarrow> (w', c') | None \<Rightarrow> (w, c))"
| "tcp_step fuel env (w, c) (T_writev iov) = (case writev_client env w c iov of (_, c', w') \<Rightarrow> (w', c'))"
| "tcp_step fuel env (w, c) (T_readv iov) = (case readv_client env w c iov of (_, _, c', w') \<Rightarrow> (w', c'))"

lemma unat_len_pos: "len \<noteq> 0 \<Longrightarrow> 0 < unat (len :: u64)"
  by (simp add: unat_gt_0)

lemma send_client_result:
  assumes "kernel_ok env" and "m_fd c \<ge> 0" and "len \<noteq> 0" and "unat len \<le> length b"
    and "send_client fuel env w c (Some b) len = Some (r, c', w')"
  shows "\<exists>k \<le> unat len. send_end c (take (unat len) b) k r c' \<and> keeps_sockets w c w' c'
    \<and> accepted (m_fd c) (calls w') = accepted (m_fd c) (calls w) @ take k b"
proof -
  have "send_loop fuel env w c (take (unat len) b) 0 = Some (r, c', w')"
    using assms(2,3,5) by (simp add: send_client_def)
  from send_loop_result [OF assms(1,2) this] unat_len_pos [OF assms(3)] assms(4)
  obtain k where k: "send_end c (take (unat len) b) k r c'" "keeps_sockets w c w' c'"
    "accepted (m_fd c) (calls w') = accepted (m_fd c) (calls w) @ take k (take (unat len) b)" by auto
  have "k \<le> unat len" using k(1) assms(4) by (auto simp: send_end_def)
  with k show ?thesis by (intro exI [of _ k]) (simp add: min_def)
qed

lemma send_client_keeps:
  assumes "kernel_ok env" and "send_client fuel env w c buf len = Some (r, c', w')"
  shows "keeps_sockets w c w' c'"
proof (cases "buf = None \<or> m_fd c < 0 \<or> len = 0 \<or> take (unat len) (the buf) = []")
  case True
  show ?thesis
  proof (cases "buf = None \<or> m_fd c < 0 \<or> len = 0")
    case True
    with assms(2) show ?thesis by (auto simp: send_client_def split: option.splits)
  next
    case False
    with True obtain b where b: "buf = Some b" "take (unat len) b = []" by auto
    with False assms(2) have "send_loop fuel env w c [] 0 = Some (r, c', w')" by (simp add: send_client_def)
    then show ?thesis
    proof (induction fuel arbitrary: w)
      case (Suc fuel)
      obtain x w1 where s: "sys env w (Sys_send (m_fd c) []) = (x, w1)" by fastforce
      have k1: "keeps_sockets w c w1 c" by (rule keeps_sockets_sys [OF s]) simp_all
      obtain c2 w2 where cl: "close_client env w1 c = (c2, w2)" by fastforce
      note k2 = keeps_sockets_trans [OF k1 close_client_result(2) [OF cl]]
      from Suc.prems s cl k1 k2 Suc.IH [of w1] keeps_sockets_trans [OF k1] show ?case
        by (auto split: if_splits)
    qed simp
  qed
next
  case False
  then obtain b where "buf = Some b" by (cases buf) simp_all
  with False have b: "buf = Some b" "take (unat len) b \<noteq> []" by simp_all
  with False assms(2) have "send_loop fuel env w c (take (unat len) b) 0 = Some (r, c', w')"
    by (simp add: send_client_def)
  with send_loop_result [OF assms(1) _ this] b(2) False show ?thesis by auto
qed

lemma recv_client_result:
  assumes "kernel_ok env" and "m_fd c \<ge> 0" and "len \<noteq> 0"
    and "recv_client fuel env w c True len = Some (r, got, c', w')"
  shows "recv_end c (unat len) got r c' \<and> keeps_sockets w c w' c'
    \<and> delivered (m_fd c) (calls w') = delivered (m_fd c) (calls w) @ got"
proof -
  have "recv_loop fuel env w c (unat len) [] = Some (r, got, c', w')"
    using assms(2-4) by (simp add: recv_client_def)
  from recv_loop_result [OF assms(1,2) this] unat_len_pos [OF assms(3)] show ?thesis by auto
qed

lemma recv_client_keeps:
  assumes "kernel_ok env" and "recv_client fuel env w c given len = Some (r, got, c', w')"
  shows "keeps_sockets w c w' c'"
proof (cases "m_fd c < 0 \<or> \<not> given \<or> len = 0")
  case True
  with assms(2) show ?thesis by (auto simp: recv_client_def)
next
  case False
  then show ?thesis using recv_client_result [OF assms(1), of c len fuel w r got c' w'] assms(2) by auto
qed

lemma tcp_step_keeps:
  assumes "kernel_ok env"
  shows "keeps_sockets w c (fst (tcp_step fuel env (w, c) x)) (snd (tcp_step fuel env (w, c) x))"
proof (cases x)
  case T_connect
  then show ?thesis by (auto split: prod.split dest: connect_ip_result [OF assms])
next
  case T_connect_to
  then show ?thesis by (auto split: prod.split dest: connect_to_result [OF assms])
next
  case T_reconnect
  then show ?thesis by (auto split: prod.split dest: reconnect_keeps [OF assms])
next
  case T_close
  then show ?thesis by (auto split: prod.split dest: close_client_result(2))
next
  case T_set_timeout
  then show ?thesis by (auto split: prod.split dest: set_timeout_keeps(1))
next
  case T_send
  then show ?thesis by (auto split: prod.split option.split dest: send_client_keeps [OF assms])
next
  case T_recv
  then show ?thesis by (auto split: prod.split option.split dest: recv_client_keeps [OF assms])
next
  case T_writev
  then show ?thesis by (auto split: prod.split dest: writev_keeps)
next
  case T_readv
  then show ?thesis by (auto split: prod.split dest: readv_keeps)
qed

interpretation tcp: accounted "tcp_step fuel env" "\<lambda>_. True" "\<lambda>_. kernel_ok env" "\<lambda>(w, c). sockets_out fd w - held fd c"
  for fuel env fd
proof (unfold_locales, goal_cases)
  case (2 s x)
  then show ?case
    using tcp_step_keeps [OF 2(1), of "fst s" "snd s" fuel x]
    by (cases "tcp_step fuel env s x") (auto simp: keeps_sockets_def split: prod.splits)
qed

section \<open>A sample kernel\<close>

text \<open>It interrupts every other transfer and moves at most two bytes at a time.\<close>

definition sample_kernel :: sock_env where
  "sample_kernel h c =
     (let ok = (\<lambda>n d. \<lparr>ret_val = n, ret_errno = Errno 0, ret_data = d, ret_addrs = [''127.0.0.1'']\<rparr>);
          intr = \<lparr>ret_val = - 1, ret_errno = EINTR, ret_data = [], ret_addrs = []\<rparr>
      in case c of
             Sys_send fd d \<Rightarrow> if eintr_run h < 1 then intr else ok (int (min 2 (length d))) []
           | Sys_recv fd n \<Rightarrow> if eintr_run h < 1 then intr else ok (int (min 2 n)) (replicate (min 2 n) 7)
           | Sys_socket \<Rightarrow> ok (int (length h)) []
           | Sys_inet_pton a \<Rightarrow> ok 1 []
           | New_client \<Rightarrow> ok 1 []
           | _ \<Rightarrow> ok 0 [])"

lemma sample_kernel_ok: "kernel_ok sample_kernel"
  by (auto simp: kernel_ok_def sample_kernel_def Let_def split: sock_call.split)

lemma sample_kernel_interrupts: "interrupts_bounded 1 sample_kernel"
  unfolding interrupts_bounded_def
proof (intro allI)
  fix h c
  show "eintr_run (h @ [(c, sample_kernel h c)]) \<le> 1"
    by (cases c) (auto simp: sample_kernel_def interrupted_def Let_def)
qed

lemma sample_kernel_progresses: "send_progresses sample_kernel"
  by (auto simp: send_progresses_def sample_kernel_def Let_def)

definition start_world :: sock_world where
  "start_world = \<lparr>calls = [], errno_val = Errno 0\<rparr>"

text \<open>The socket of a client stays open; exactly it is closed.\<close>

definition no_socket_closed :: "sock_world \<Rightarrow> sock_world \<Rightarrow> bool" where
  "no_socket_closed w w' \<longleftrightarrow> (\<forall>fd. sockets_out fd w' = sockets_out fd w)"

definition only_closed :: "int \<Rightarrow> sock_world \<Rightarrow> sock_world \<Rightarrow> bool" where
  "only_closed fd w w' \<longleftrightarrow> (\<forall>x. sockets_out x w' = sockets_out x w - (if x = fd then 1 else 0))"

lemma keeps_same: "keeps_sockets w c w' c \<longleftrightarrow> no_socket_closed w w'"
  by (simp add: keeps_sockets_def no_socket_closed_def)

lemma keeps_closed: "m_fd c \<ge> 0 \<Longrightarrow> keeps_sockets w c w' (c\<lparr>m_fd := - 1\<rparr>) \<Longrightarrow> only_closed (m_fd c) w w'"
  by (simp add: keeps_sockets_def only_closed_def held_def)

text \<open>\<open>return len\<close> narrows a \<open>size_t\<close> to an \<open>int\<close>: some lengths from \<open>2 ^ 31\<close> on look like a timeout or an error.\<close>

lemma int_of_size_large: "int_of_size 0x100000000 = tc_timeout" "int_of_size 0xFFFFFFFF = tc_error"
  by (simp_all add: int_of_size_def tc_timeout_def tc_error_def)

lemma send_client_returns:
  assumes "kernel_ok env" and "interrupts_bounded N env" and "send_progresses env"
    and "m_fd c \<ge> 0" and "len \<noteq> 0" and "unat len \<le> length b" and "unat len * (N + 1) + N < fuel"
  obtains r c' w' k where "send_client fuel env w c (Some b) len = Some (r, c', w')"
    and "accepted (m_fd c) (calls w') = accepted (m_fd c) (calls w) @ take k b"
    and "r = int_of_size len \<and> c' = c \<and> k = unat len \<and> no_socket_closed w w'
       \<or> r = tc_timeout \<and> c' = c \<and> k = 0 \<and> no_socket_closed w w'
       \<or> r = tc_error \<and> c' = c\<lparr>m_fd := - 1\<rparr> \<and> k < unat len \<and> only_closed (m_fd c) w w'"
proof -
  let ?buf = "take (unat len) b"
  have "send_loop fuel env w c ?buf 0 \<noteq> None"
    using rounds_left_start [of N "unat len" w] unat_len_pos [OF assms(5)] assms(6,7)
    by (intro send_loop_total [OF assms(2,3)]) simp_all
  then obtain r c' w' where s: "send_client fuel env w c (Some b) len = Some (r, c', w')"
    using assms(4,5) by (auto simp: send_client_def)
  from send_client_result [OF assms(1,4-6) s] obtain k where
    k: "send_end c ?buf k r c'" "keeps_sockets w c w' c'"
      "accepted (m_fd c) (calls w') = accepted (m_fd c) (calls w) @ take k b" by blast
  have "length ?buf = unat len" "int_of_size (of_nat (unat len)) = int_of_size len" using assms(6) by simp_all
  with k(1) have "r = int_of_size len \<and> c' = c \<and> k = unat len \<or> r = tc_timeout \<and> c' = c \<and> k = 0
      \<or> r = tc_error \<and> c' = c\<lparr>m_fd := - 1\<rparr> \<and> k < unat len"
    unfolding send_end_def by (simp only:)
  with s k that keeps_same keeps_closed [OF assms(4)] show ?thesis by metis
qed

section \<open>Properties\<close>

text \<open>
  C6: On a kernel that interrupts at most \<open>N\<close> times in a row, \<open>send\<close> returns, and then the buffer
  and the socket have come to one of three ends: the result is the length (as an \<open>int\<close>), the kernel
  took exactly the buffer, in order, and no descriptor was closed; it is 0 (a timeout), the kernel took
  nothing, the client is unchanged and no descriptor was closed; it is -1, the kernel took a proper
  prefix, and the client's descriptor, and no other, has been closed, so that the peer cannot
  mistake what follows for the rest. For a length below \<open>2 ^ 31\<close> the three results differ, so they
  tell the ends apart; from there on \<open>return len\<close> loses the upper bits, and a buffer of \<open>2 ^ 32\<close> bytes
  that was sent gives 0 like a timeout (\<open>int_of_size_large\<close>).
\<close>

theorem send_exact:
  assumes "kernel_ok env" and "interrupts_bounded N env" and "send_progresses env"
    and "m_fd c \<ge> 0" and "len \<noteq> 0" and "unat len \<le> length b" and "unat len * (N + 1) + N < fuel"
  shows "\<exists>r c' w' k. send_client fuel env w c (Some b) len = Some (r, c', w')
    \<and> accepted (m_fd c) (calls w') = accepted (m_fd c) (calls w) @ take k b
    \<and> (r = int_of_size len \<and> c' = c \<and> k = unat len \<and> no_socket_closed w w'
       \<or> r = tc_timeout \<and> c' = c \<and> k = 0 \<and> no_socket_closed w w'
       \<or> r = tc_error \<and> c' = c\<lparr>m_fd := - 1\<rparr> \<and> k < unat len \<and> only_closed (m_fd c) w w')
    \<and> (unat len < 2 ^ 31 \<longrightarrow> int_of_size len = int (unat len))"
proof -
  obtain r c' w' k where s: "send_client fuel env w c (Some b) len = Some (r, c', w')"
      "accepted (m_fd c) (calls w') = accepted (m_fd c) (calls w) @ take k b"
      "r = int_of_size len \<and> c' = c \<and> k = unat len \<and> no_socket_closed w w'
       \<or> r = tc_timeout \<and> c' = c \<and> k = 0 \<and> no_socket_closed w w'
       \<or> r = tc_error \<and> c' = c\<lparr>m_fd := - 1\<rparr> \<and> k < unat len \<and> only_closed (m_fd c) w w'"
    by (rule send_client_returns [OF assms, of w])
  show ?thesis
    by (rule exI [of _ r], rule exI [of _ c'], rule exI [of _ w'], rule exI [of _ k])
      (intro conjI s impI int_of_size_small)
qed

theorem send_exact_witness:
  "\<exists>r c' w' k. send_client 20 sample_kernel start_world (tcp_client_init\<lparr>m_fd := 3\<rparr>) (Some [1, 2, 3]) 3 = Some (r, c', w')
     \<and> accepted 3 (calls w') = take k [1, 2, 3]"
proof -
  let ?c = "tcp_client_init\<lparr>m_fd := 3\<rparr>"
  have "m_fd ?c \<ge> 0" "(3 :: u64) \<noteq> 0" "unat (3 :: u64) \<le> length [1, 2, 3 :: byte]"
    "unat (3 :: u64) * (1 + 1) + 1 < (20 :: nat)" by simp_all
  from send_exact [OF sample_kernel_ok sample_kernel_interrupts sample_kernel_progresses this, of start_world]
  obtain r c' w' k where "send_client 20 sample_kernel start_world ?c (Some [1, 2, 3]) 3 = Some (r, c', w')"
    "accepted (m_fd ?c) (calls w') = accepted (m_fd ?c) (calls start_world) @ take k [1, 2, 3]" by blast
  then show ?thesis by (intro exI [of _ r] exI [of _ c'] exI [of _ w'] exI [of _ k]) (simp add: start_world_def)
qed

text \<open>
  C32: \<open>recv\<close> returns likewise. It gives the length (as an \<open>int\<close>, equal to it below \<open>2 ^ 31\<close>), with
  exactly that many bytes of the stream, in order, in the caller's buffer and no descriptor closed;
  or 0, a timeout with the client unchanged and no descriptor closed, where whatever had arrived
  by then has left the stream; or -1, with fewer bytes, and the client's descriptor, and no other, has
  been closed.
\<close>

theorem recv_exact:
  assumes "kernel_ok env" and "interrupts_bounded N env"
    and "m_fd c \<ge> 0" and "len \<noteq> 0" and "unat len * (N + 1) + N < fuel"
  shows "\<exists>r got c' w'. recv_client fuel env w c True len = Some (r, got, c', w')
    \<and> delivered (m_fd c) (calls w') = delivered (m_fd c) (calls w) @ got
    \<and> (r = int_of_size len \<and> c' = c \<and> length got = unat len \<and> no_socket_closed w w'
       \<or> r = tc_timeout \<and> c' = c \<and> length got < unat len \<and> no_socket_closed w w'
       \<or> r = tc_error \<and> c' = c\<lparr>m_fd := - 1\<rparr> \<and> length got < unat len \<and> only_closed (m_fd c) w w')
    \<and> (unat len < 2 ^ 31 \<longrightarrow> int_of_size len = int (unat len))"
proof -
  have "recv_loop fuel env w c (unat len) [] \<noteq> None"
    using rounds_left_start [of N "unat len" w] unat_len_pos [OF assms(4)] assms(5)
    by (intro recv_loop_total [OF assms(2,1)]) simp_all
  then obtain r got c' w' where s: "recv_client fuel env w c True len = Some (r, got, c', w')"
    using assms(3,4) by (auto simp: recv_client_def)
  have "int_of_size (of_nat (unat len)) = int_of_size len" by simp
  with recv_client_result [OF assms(1,3,4) s] have "delivered (m_fd c) (calls w') = delivered (m_fd c) (calls w) @ got"
    "r = int_of_size len \<and> c' = c \<and> length got = unat len \<and> no_socket_closed w w'
       \<or> r = tc_timeout \<and> c' = c \<and> length got < unat len \<and> no_socket_closed w w'
       \<or> r = tc_error \<and> c' = c\<lparr>m_fd := - 1\<rparr> \<and> length got < unat len \<and> only_closed (m_fd c) w w'"
    using keeps_same keeps_closed [OF assms(3)] unfolding recv_end_def by metis+
  with s show ?thesis
    by (intro exI [of _ r] exI [of _ got] exI [of _ c'] exI [of _ w'] conjI impI int_of_size_small)
qed

theorem recv_exact_witness:
  "\<exists>r got c' w'. recv_client 20 sample_kernel start_world (tcp_client_init\<lparr>m_fd := 3\<rparr>) True 3 = Some (r, got, c', w')
     \<and> delivered 3 (calls w') = got"
proof -
  let ?c = "tcp_client_init\<lparr>m_fd := 3\<rparr>"
  have "m_fd ?c \<ge> 0" "(3 :: u64) \<noteq> 0" "unat (3 :: u64) * (1 + 1) + 1 < (20 :: nat)" by simp_all
  from recv_exact [OF sample_kernel_ok sample_kernel_interrupts this, of start_world]
  obtain r got c' w' where "recv_client 20 sample_kernel start_world ?c True 3 = Some (r, got, c', w')"
    "delivered (m_fd ?c) (calls w') = delivered (m_fd ?c) (calls start_world) @ got" by blast
  then show ?thesis by (intro exI [of _ r] exI [of _ got] exI [of _ c'] exI [of _ w']) (simp add: start_world_def)
qed

text \<open>
  Whatever short part of a message has arrived when the socket times out, \<open>recv\<close> reports a
  plain timeout and leaves the connection open, so that part is lost and the next \<open>recv\<close> starts in
  the middle of the message; \<open>send\<close> closes the connection in the same situation.
\<close>

lemma recv_timeout_loses_part:
  assumes "m_fd c \<ge> 0" and "p \<noteq> []" and "length p < unat len"
  shows "\<exists>env w'. kernel_ok env \<and> recv_client 2 env w c True len = Some (tc_timeout, p, c, w')
    \<and> delivered (m_fd c) (calls w') = delivered (m_fd c) (calls w) @ p"
proof -
  define env :: sock_env where
    "env = (\<lambda>h x. case x of
        Sys_recv fd n \<Rightarrow> if h = calls w \<and> length p \<le> n
          then \<lparr>ret_val = int (length p), ret_errno = EAGAIN, ret_data = p, ret_addrs = []\<rparr>
          else \<lparr>ret_val = - 1, ret_errno = EAGAIN, ret_data = [], ret_addrs = []\<rparr>
      | _ \<Rightarrow> \<lparr>ret_val = - 1, ret_errno = EAGAIN, ret_data = [], ret_addrs = []\<rparr>)"
  have k: "kernel_ok env" by (auto simp: kernel_ok_def env_def split: sock_call.split)
  have "len \<noteq> 0" using assms(3) by (metis not_less_zero unat_0)
  then have "recv_client 2 env w c True len = recv_loop 2 env w c (unat len) []"
    using assms(1) by (simp add: recv_client_def)
  also have "\<exists>w'. \<dots> = Some (tc_timeout, p, c, w')"
    using assms(2,3) by (simp add: numeral_2_eq_2 env_simps env_def would_block_def Let_def)
  finally obtain w' where r: "recv_client 2 env w c True len = Some (tc_timeout, p, c, w')" by blast
  from recv_client_result [OF k assms(1) \<open>len \<noteq> 0\<close> r] r k show ?thesis by blast
qed

lemma recv_timeout_loses_part_witness:
  "\<exists>env w'. kernel_ok env \<and> recv_client 2 env start_world (tcp_client_init\<lparr>m_fd := 3\<rparr>) True 4
     = Some (tc_timeout, [1, 2], tcp_client_init\<lparr>m_fd := 3\<rparr>, w')"
  using recv_timeout_loses_part [of "tcp_client_init\<lparr>m_fd := 3\<rparr>" "[1, 2]" 4 start_world] by auto

text \<open>
  Over any sequence of calls on a client, on any kernel, the account of each descriptor is what the
  client holds of it; closing it, as its destructor does, leaves none.
\<close>

lemma tcp_no_socket_leak:
  assumes "kernel_ok env" and "foldl (tcp_step fuel env) (w0, tcp_client_init) ops = (w, c)"
    and "close_client env w c = (c', w')"
  shows "(\<forall>fd. sockets_out fd w = sockets_out fd w0 + held fd c \<and> sockets_out fd w' = sockets_out fd w0) \<and> \<not> is_alive c'"
proof -
  have "sockets_out fd w - held fd c = sockets_out fd w0" for fd
    using tcp.run_level [where env = env and fuel = fuel and s = "(w0, tcp_client_init)" and xs = ops and fd = fd] assms(1,2)
    by (simp add: held_def tcp_client_init_def list_all_iff)
  then have "sockets_out fd w = sockets_out fd w0 + held fd c" for fd by (simp add: diff_eq_eq)
  moreover have "held fd c' = 0" "\<not> is_alive c'" for fd using close_client_result(1) [OF assms(3)]
    by (simp_all add: held_def is_alive_def)
  ultimately show ?thesis using close_client_result(2) [OF assms(3)] by (simp add: keeps_sockets_def)
qed

lemma tcp_no_socket_leak_witness:
  "let (w, c) = foldl (tcp_step 5 sample_kernel) (start_world, tcp_client_init)
       [T_connect_to ''h'' ''80'', T_connect_to ''h'' ''81'', T_send (Some [1, 2, 3]) 3, T_reconnect]
   in \<forall>fd. sockets_out fd w = held fd c \<and> sockets_out fd (snd (close_client sample_kernel w c)) = 0"
proof -
  let ?s = "foldl (tcp_step 5 sample_kernel) (start_world, tcp_client_init)
       [T_connect_to ''h'' ''80'', T_connect_to ''h'' ''81'', T_send (Some [1, 2, 3]) 3, T_reconnect]"
  have z: "sockets_out fd start_world = 0" for fd by (simp add: sockets_out_def start_world_def)
  show ?thesis
    using tcp_no_socket_leak [OF sample_kernel_ok prod.collapse [symmetric, of ?s] prod.collapse [symmetric]]
    unfolding z by (simp only: split_beta Let_def) simp
qed

section \<open>A client that is already connected\<close>

lemma is_all_digit_dec_string: "is_all_digit (dec_string n)"
  by (simp add: is_all_digit_iff dec_string_nonempty c_str_digits dec_string_digits)

lemma connect_host_calls:
  assumes "m_str_host c \<noteq> []" and "m_str_port c = dec_string n" and "n \<le> 65535"
    and "env (calls w) (Sys_getaddrinfo (c_str (m_str_host c)) (dec_string n)) = g" and "ret_val g = 0"
  shows "connect_host env w c =
    (let c1 = c\<lparr>m_port := int n\<rparr>; w1 = snd (sys env w (Sys_getaddrinfo (c_str (m_str_host c)) (dec_string n)));
         (res, c2, w2) = connect_addrs env w1 c1 (ret_addrs g)
     in case res of
          Ntop_failed \<Rightarrow> (tc_error, c2, w2)
        | Exhausted \<Rightarrow> (- 1, c2, snd (sys env w2 Sys_freeaddrinfo))
        | Connected \<Rightarrow> (m_fd c2, c2, snd (sys env w2 Sys_freeaddrinfo)))"
  using assms
  by (simp add: connect_host_def is_all_digit_dec_string dec_string_nonempty atoi_dec_string c_str_digits
      dec_string_digits env_simps Let_def)

text \<open>
  Connecting a client that already has a socket to another host connects nothing: the old
  descriptor is returned as a success, while the client now carries the name, port and address of
  the new host.
\<close>

lemma connect_to_keeps_old_socket:
  assumes "m_fd c \<ge> 0" and "host \<noteq> []" and "n \<le> 65535"
    and "env (calls w) (Sys_getaddrinfo (c_str host) (dec_string n)) = g" and "ret_val g = 0" and "ret_addrs g = a # as"
    and "env (calls w @ [(Sys_getaddrinfo (c_str host) (dec_string n), g)]) (Sys_inet_ntop a) = t" and "ret_val t \<ge> 0"
  shows "\<exists>w' f. connect_to env w c host (dec_string n)
      = (m_fd c, c\<lparr>m_str_host := host, m_str_port := dec_string n, m_port := int n, m_ip := a\<rparr>, w')
    \<and> calls w' = calls w @ [(Sys_getaddrinfo (c_str host) (dec_string n), g), (Sys_inet_ntop a, t), (Sys_freeaddrinfo, f)]"
proof -
  have "\<not> m_fd c < 0" "m_fd c \<noteq> tc_error" using assms(1) by (simp_all add: tc_error_def)
  then show ?thesis
    using assms connect_host_calls [of "c\<lparr>m_str_host := host, m_str_port := dec_string n\<rparr>" n env w g]
    by (simp add: connect_to_def env_simps connect_ip_def Let_def)
qed

lemma connect_to_keeps_old_socket_witness:
  "\<exists>w'. connect_to sample_kernel start_world (tcp_client_init\<lparr>m_fd := 3, m_ip := ''10.0.0.1''\<rparr>) ''other'' (dec_string 80)
     = (3, tcp_client_init\<lparr>m_fd := 3, m_str_host := ''other'', m_str_port := dec_string 80, m_port := 80, m_ip := ''127.0.0.1''\<rparr>, w')"
  using connect_to_keeps_old_socket [where c = "tcp_client_init\<lparr>m_fd := 3, m_ip := ''10.0.0.1''\<rparr>" and host = "''other''"
      and n = 80 and env = sample_kernel and w = start_world and a = "''127.0.0.1''" and as = "[]", OF _ _ _ refl _ _ refl]
  by (auto simp: sample_kernel_def Let_def tcp_client_init_def)

text \<open>When \<open>inet_ntop\<close> fails, the list \<open>getaddrinfo\<close> allocated is not freed.\<close>

lemma connect_host_ntop_failure:
  assumes "m_str_host c \<noteq> []" and "m_str_port c = dec_string n" and "n \<le> 65535"
    and "env (calls w) (Sys_getaddrinfo (c_str (m_str_host c)) (dec_string n)) = g" and "ret_val g = 0" and "ret_addrs g = a # as"
    and "env (calls w @ [(Sys_getaddrinfo (c_str (m_str_host c)) (dec_string n), g)]) (Sys_inet_ntop a) = t" and "ret_val t < 0"
  shows "\<exists>w'. connect_host env w c = (tc_error, c\<lparr>m_port := int n\<rparr>, w')
    \<and> calls w' = calls w @ [(Sys_getaddrinfo (c_str (m_str_host c)) (dec_string n), g), (Sys_inet_ntop a, t)]"
  using assms connect_host_calls [where env = env and c = c and n = n and w = w and g = g] by (simp add: env_simps Let_def)

end
