(* ===== verification/Tcp_Client_Mgr.thy ===== *)
theory Tcp_Client_Mgr
  imports Tcp_Client "HOL-Library.Sublist"
begin

text \<open>
  The pool of clients of \<open>tcp_client_mgr.h\<close> and \<open>tcp_client_mgr.cpp\<close>: connections from a host
  list, round-robin selection by a 32-bit counter, and the transfers on a chosen or selected
  connection. The connections are separate objects owned by the pool, so they are values here;
  an access outside the vector is the fault \<open>OutOfBounds\<close>. A pointer to a connection is its index.
\<close>

section \<open>State and operations\<close>

record client_mgr =
  m_connections :: "tcp_client list"
  m_conn_count :: u32
  m_conn_index :: u32
  m_send_type :: int

definition client_mgr_init :: client_mgr where
  "client_mgr_init = \<lparr>m_connections = [], m_conn_count = 0, m_conn_index = 0, m_send_type = 0\<rparr>"

definition conn_at :: "client_mgr \<Rightarrow> u32 \<Rightarrow> fault + tcp_client" where
  "conn_at m i = (if unat i < length (m_connections m) then Inr (m_connections m ! unat i) else Inl OutOfBounds)"

definition set_conn :: "client_mgr \<Rightarrow> u32 \<Rightarrow> tcp_client \<Rightarrow> client_mgr" where
  "set_conn m i c = m\<lparr>m_connections := (m_connections m)[unat i := c]\<rparr>"

text \<open>The body of the loop over the host list.\<close>

definition add_host :: "sock_env \<Rightarrow> int \<Rightarrow> sock_world \<times> client_mgr \<Rightarrow> string \<Rightarrow> sock_world \<times> client_mgr" where
  "add_host env timeout = (\<lambda>(w, m) addr.
     let ip_port = split_string addr CHR '':''
     in if length ip_port \<noteq> 2 then (w, m)
        else let (r, w1) = sys env w New_client
             in if ret_val r = 0 then (w1, m)
                else let (_, c1, w2) = set_timeout env w1 tcp_client_init timeout;
                         (_, c2, w3) = connect_to env w2 c1 (ip_port ! 0) (ip_port ! 1)
                     in (w3, m\<lparr>m_connections := m_connections m @ [c2], m_conn_count := m_conn_count m + 1\<rparr>))"

definition mgr_init :: "sock_env \<Rightarrow> sock_world \<Rightarrow> client_mgr \<Rightarrow> string \<Rightarrow> int \<Rightarrow> int \<Rightarrow> int \<times> client_mgr \<times> sock_world" where
  "mgr_init env w m host_list send_type timeout =
     (if m_conn_count m > 0 then (0, m, w)
      else if host_list = [] then (- 1, m, w)
      else let m1 = m\<lparr>m_send_type := (if send_type \<noteq> 0 \<and> send_type \<noteq> 1 then 1 else send_type)\<rparr>;
               (w2, m2) = foldl (add_host env timeout) (w, m1) (split_string host_list CHR '';'')
           in (0, m2, w2))"

text \<open>\<open>delete\<close> runs the destructor, which closes the client.\<close>

fun delete_loop :: "sock_env \<Rightarrow> sock_world \<Rightarrow> client_mgr \<Rightarrow> u32 list \<Rightarrow> fault + sock_world" where
  "delete_loop env w m [] = Inr w"
| "delete_loop env w m (i # is) =
     bind_err (conn_at m i) (\<lambda>c. let (_, w1) = close_client env w c in delete_loop env w1 m is)"

text \<open>The values of a counter that runs from 0 up to \<open>m_conn_count\<close>.\<close>

definition counter :: "client_mgr \<Rightarrow> u32 list" where
  "counter m = map of_nat [0..<unat (m_conn_count m)]"

definition mgr_uninit :: "sock_env \<Rightarrow> sock_world \<Rightarrow> client_mgr \<Rightarrow> fault + int \<times> client_mgr \<times> sock_world" where
  "mgr_uninit env w m =
     bind_err (delete_loop env w m (counter m))
       (\<lambda>w1. Inr (0, m\<lparr>m_connections := [], m_conn_count := 0, m_conn_index := 0\<rparr>, w1))"

fun check_loop :: "sock_env \<Rightarrow> sock_world \<Rightarrow> client_mgr \<Rightarrow> u32 list \<Rightarrow> fault + client_mgr \<times> sock_world" where
  "check_loop env w m [] = Inr (m, w)"
| "check_loop env w m (i # is) =
     bind_err (conn_at m i) (\<lambda>c. let (_, c1, w1) = reconnect env w c in check_loop env w1 (set_conn m i c1) is)"

definition check_connection :: "sock_env \<Rightarrow> sock_world \<Rightarrow> client_mgr \<Rightarrow> fault + int \<times> client_mgr \<times> sock_world" where
  "check_connection env w m = bind_err (check_loop env w m (counter m)) (\<lambda>(m1, w1). Inr (0, m1, w1))"

text \<open>The round-robin loop that \<open>select_connection\<close> and \<open>get_available_connection\<close> share.\<close>

fun select_loop :: "nat \<Rightarrow> client_mgr \<Rightarrow> fault + u32 option \<times> client_mgr" where
  "select_loop 0 m = Inr (None, m)"
| "select_loop (Suc k) m =
     (let cid = m_conn_index m mod m_conn_count m; m1 = m\<lparr>m_conn_index := m_conn_index m + 1\<rparr>
      in bind_err (conn_at m1 cid) (\<lambda>c. if is_alive c then Inr (Some cid, m1) else select_loop k m1))"

definition select_connection :: "client_mgr \<Rightarrow> fault + int \<times> client_mgr" where
  "select_connection m =
     (if m_conn_count m = 0 then Inr (- 1, m)
      else bind_err (select_loop (unat (m_conn_count m)) m)
        (\<lambda>(r, m1). Inr (case r of Some cid \<Rightarrow> sint cid | None \<Rightarrow> - 1, m1)))"

definition get_available_connection :: "client_mgr \<Rightarrow> fault + u32 option \<times> client_mgr" where
  "get_available_connection m =
     (if m_conn_count m = 0 then Inr (None, m) else select_loop (unat (m_conn_count m)) m)"

definition close_connection :: "sock_env \<Rightarrow> sock_world \<Rightarrow> client_mgr \<Rightarrow> u32 \<Rightarrow> fault + client_mgr \<times> sock_world" where
  "close_connection env w m conn_id =
     (if conn_id \<ge> m_conn_count m then Inr (m, w)
      else bind_err (conn_at m conn_id)
        (\<lambda>c. let (c1, w1) = close_client env w c in Inr (set_conn m conn_id c1, w1)))"

text \<open>
  The transfers. A transfer that has not returned within its fuel is \<open>None\<close>, as for the client.
\<close>

definition mgr_send_to ::
  "nat \<Rightarrow> sock_env \<Rightarrow> sock_world \<Rightarrow> client_mgr \<Rightarrow> u32 \<Rightarrow> byte list option \<Rightarrow> u64
     \<Rightarrow> (fault + int \<times> client_mgr \<times> sock_world) option" where
  "mgr_send_to fuel env w m conn_id buf len =
     (if conn_id \<ge> m_conn_count m then Some (Inr (- 2, m, w))
      else case conn_at m conn_id of
          Inl e \<Rightarrow> Some (Inl e)
        | Inr c \<Rightarrow> map_option (\<lambda>(r, c1, w1). Inr (r, set_conn m conn_id c1, w1)) (send_client fuel env w c buf len))"

definition mgr_send ::
  "nat \<Rightarrow> sock_env \<Rightarrow> sock_world \<Rightarrow> client_mgr \<Rightarrow> byte list option \<Rightarrow> u64
     \<Rightarrow> (fault + int \<times> client_mgr \<times> sock_world) option" where
  "mgr_send fuel env w m buf len =
     (case select_connection m of
        Inl e \<Rightarrow> Some (Inl e)
      | Inr (conn_id, m1) \<Rightarrow>
          if conn_id < 0 then Some (Inr (- 1, m1, w)) else mgr_send_to fuel env w m1 (word_of_int conn_id) buf len)"

definition mgr_recv_from ::
  "nat \<Rightarrow> sock_env \<Rightarrow> sock_world \<Rightarrow> client_mgr \<Rightarrow> u32 \<Rightarrow> bool \<Rightarrow> u64
     \<Rightarrow> (fault + int \<times> byte list \<times> client_mgr \<times> sock_world) option" where
  "mgr_recv_from fuel env w m conn_id given len =
     (if conn_id \<ge> m_conn_count m then Some (Inr (- 2, [], m, w))
      else case conn_at m conn_id of
          Inl e \<Rightarrow> Some (Inl e)
        | Inr c \<Rightarrow> map_option (\<lambda>(r, got, c1, w1). Inr (r, got, set_conn m conn_id c1, w1)) (recv_client fuel env w c given len))"

definition mgr_recv ::
  "nat \<Rightarrow> sock_env \<Rightarrow> sock_world \<Rightarrow> client_mgr \<Rightarrow> bool \<Rightarrow> u64
     \<Rightarrow> (fault + int \<times> byte list \<times> client_mgr \<times> sock_world) option" where
  "mgr_recv fuel env w m given len =
     (case select_connection m of
        Inl e \<Rightarrow> Some (Inl e)
      | Inr (conn_id, m1) \<Rightarrow>
          if conn_id < 0 then Some (Inr (- 1, [], m1, w)) else mgr_recv_from fuel env w m1 (word_of_int conn_id) given len)"

definition mgr_writev_to ::
  "sock_env \<Rightarrow> sock_world \<Rightarrow> client_mgr \<Rightarrow> u32 \<Rightarrow> byte list list option \<Rightarrow> fault + int \<times> client_mgr \<times> sock_world" where
  "mgr_writev_to env w m conn_id iov =
     (if conn_id \<ge> m_conn_count m then Inr (- 2, m, w)
      else bind_err (conn_at m conn_id)
        (\<lambda>c. let (r, c1, w1) = writev_client env w c iov in Inr (r, set_conn m conn_id c1, w1)))"

definition mgr_writev ::
  "sock_env \<Rightarrow> sock_world \<Rightarrow> client_mgr \<Rightarrow> byte list list option \<Rightarrow> fault + int \<times> client_mgr \<times> sock_world" where
  "mgr_writev env w m iov =
     bind_err (select_connection m)
       (\<lambda>(conn_id, m1). if conn_id < 0 then Inr (- 1, m1, w) else mgr_writev_to env w m1 (word_of_int conn_id) iov)"

definition mgr_readv_from ::
  "sock_env \<Rightarrow> sock_world \<Rightarrow> client_mgr \<Rightarrow> u32 \<Rightarrow> nat list option \<Rightarrow> fault + int \<times> byte list \<times> client_mgr \<times> sock_world" where
  "mgr_readv_from env w m conn_id iov =
     (if conn_id \<ge> m_conn_count m then Inr (- 2, [], m, w)
      else bind_err (conn_at m conn_id)
        (\<lambda>c. let (r, got, c1, w1) = readv_client env w c iov in Inr (r, got, set_conn m conn_id c1, w1)))"

definition mgr_readv ::
  "sock_env \<Rightarrow> sock_world \<Rightarrow> client_mgr \<Rightarrow> nat list option \<Rightarrow> fault + int \<times> byte list \<times> client_mgr \<times> sock_world" where
  "mgr_readv env w m iov =
     bind_err (select_connection m)
       (\<lambda>(conn_id, m1). if conn_id < 0 then Inr (- 1, [], m1, w) else mgr_readv_from env w m1 (word_of_int conn_id) iov)"

section \<open>Invariant\<close>

definition mgr_ok :: "client_mgr \<Rightarrow> bool" where
  "mgr_ok m \<longleftrightarrow> unat (m_conn_count m) = length (m_connections m)"

lemma mgr_ok_init [simp]: "mgr_ok client_mgr_init"
  by (simp add: mgr_ok_def client_mgr_init_def)

lemma mgr_ok_set_conn [simp]: "mgr_ok (set_conn m i c) = mgr_ok m"
  by (simp add: mgr_ok_def set_conn_def)

lemma set_conn_simps [simp]:
  "m_conn_count (set_conn m i c) = m_conn_count m"
  "m_conn_index (set_conn m i c) = m_conn_index m"
  "length (m_connections (set_conn m i c)) = length (m_connections m)"
  by (simp_all add: set_conn_def)

lemma conn_at_ok: "mgr_ok m \<Longrightarrow> i < m_conn_count m \<Longrightarrow> conn_at m i = Inr (m_connections m ! unat i)"
  by (simp add: conn_at_def mgr_ok_def word_less_nat_alt)

text \<open>How many of the pool's clients hold a descriptor.\<close>

definition pool_held :: "int \<Rightarrow> client_mgr \<Rightarrow> int" where
  "pool_held fd m = sum_list (map (held fd) (m_connections m))"

lemma sum_list_list_update: "k < length xs \<Longrightarrow> sum_list (xs[k := x]) = sum_list xs - xs ! k + (x :: int)"
  by (induction xs arbitrary: k) (auto split: nat.split)

lemma pool_held_set_conn:
  "unat i < length (m_connections m) \<Longrightarrow>
   pool_held fd (set_conn m i c) = pool_held fd m - held fd (m_connections m ! unat i) + held fd c"
  by (simp add: pool_held_def set_conn_def map_update sum_list_list_update)

lemma pool_held_upd [simp]:
  "pool_held fd (m\<lparr>m_conn_index := x\<rparr>) = pool_held fd m"
  "pool_held fd (m\<lparr>m_conn_count := x\<rparr>) = pool_held fd m"
  "pool_held fd (m\<lparr>m_send_type := y\<rparr>) = pool_held fd m"
  by (simp_all add: pool_held_def)

text \<open>An operation on a pool moves sockets in and out of its clients only, for each descriptor.\<close>

definition keeps_pool :: "sock_world \<Rightarrow> client_mgr \<Rightarrow> sock_world \<Rightarrow> client_mgr \<Rightarrow> bool" where
  "keeps_pool w m w' m' \<longleftrightarrow> (\<forall>fd. sockets_out fd w' = sockets_out fd w + pool_held fd m' - pool_held fd m)"

lemma keeps_pool_refl [simp]: "keeps_pool w m w m"
  by (simp add: keeps_pool_def)

lemma keeps_pool_trans: "keeps_pool w m w1 m1 \<Longrightarrow> keeps_pool w1 m1 w2 m2 \<Longrightarrow> keeps_pool w m w2 m2"
  by (simp add: keeps_pool_def)

lemma keeps_pool_upd [simp]:
  "keeps_pool w (m\<lparr>m_conn_index := x\<rparr>) w' m' = keeps_pool w m w' m'"
  "keeps_pool w (m\<lparr>m_send_type := y\<rparr>) w' m' = keeps_pool w m w' m'"
  "keeps_pool w m w' (m'\<lparr>m_conn_index := x\<rparr>) = keeps_pool w m w' m'"
  by (simp_all add: keeps_pool_def)

section \<open>Selection\<close>

text \<open>
  The connection looked at when the counter has been increased \<open>j\<close> times from 0: the counter wraps
  at 32 bits before it is reduced modulo the number of connections.
\<close>

definition slot :: "client_mgr \<Rightarrow> nat \<Rightarrow> nat" where
  "slot m j = j mod 2 ^ 32 mod length (m_connections m)"

definition slot_alive :: "client_mgr \<Rightarrow> nat \<Rightarrow> bool" where
  "slot_alive m j \<longleftrightarrow> is_alive (m_connections m ! slot m j)"

lemma slot_less: "m_connections m \<noteq> [] \<Longrightarrow> slot m j < length (m_connections m)"
  by (simp add: slot_def)

lemma slot_upd [simp]:
  "slot (m\<lparr>m_conn_index := x\<rparr>) j = slot m j"
  "slot_alive (m\<lparr>m_conn_index := x\<rparr>) j = slot_alive m j"
  by (simp_all add: slot_def slot_alive_def)

lemma select_loop_find:
  assumes "mgr_ok m" and "m_connections m \<noteq> []" and "m_conn_index m = of_nat i"
  shows "select_loop k m =
    Inr (case find (slot_alive m) [i..<i + k] of
           None \<Rightarrow> (None, m\<lparr>m_conn_index := of_nat (i + k)\<rparr>)
         | Some j \<Rightarrow> (Some (of_nat (slot m j)), m\<lparr>m_conn_index := of_nat (Suc j)\<rparr>))"
  using assms
proof (induction k arbitrary: m i)
  case (Suc k)
  define m1 where "m1 = m\<lparr>m_conn_index := of_nat (Suc i)\<rparr>"
  have len: "length (m_connections m) = unat (m_conn_count m)" using Suc.prems(1) by (simp add: mgr_ok_def)
  have u: "unat (m_conn_index m mod m_conn_count m) = slot m i"
    using Suc.prems(3) len by (simp add: slot_def unat_mod unat_of_nat)
  then have cid: "m_conn_index m mod m_conn_count m = of_nat (slot m i)"
    by (metis of_nat_unat ucast_id)
  have at: "conn_at m1 (of_nat (slot m i)) = Inr (m_connections m ! slot m i)"
    using u cid slot_less [OF Suc.prems(2)] by (simp add: conn_at_def m1_def)
  have ok1: "mgr_ok m1" "m_connections m1 \<noteq> []" "m_conn_index m1 = of_nat (Suc i)"
    using Suc.prems by (simp_all add: m1_def mgr_ok_def)
  have m1: "m\<lparr>m_conn_index := m_conn_index m + 1\<rparr> = m1" by (simp add: m1_def Suc.prems(3) add.commute)
  have step: "select_loop (Suc k) m =
      (if slot_alive m i then Inr (Some (of_nat (slot m i)), m1) else select_loop k m1)"
    by (simp only: select_loop.simps Let_def m1 cid at bind_err_simps slot_alive_def)
  have up: "[i..<i + Suc k] = i # [Suc i..<Suc i + k]" by (simp add: upt_rec)
  have alive1: "slot_alive m1 = slot_alive m" and slot1: "slot m1 j = slot m j" for j
    by (simp_all add: m1_def fun_eq_iff)
  show ?case
    unfolding step up find.simps Suc.IH [OF ok1] alive1 slot1
    by (auto simp: m1_def split: option.split)
qed simp

lemma find_upt_Some:
  assumes "find P [a..<b] = Some j"
  shows "a \<le> j \<and> j < b \<and> P j \<and> (\<forall>k. a \<le> k \<longrightarrow> k < j \<longrightarrow> \<not> P k)"
proof -
  from assms obtain i where i: "i < b - a" "P (a + i)" "j = a + i" "\<forall>k < i. \<not> P (a + k)"
    by (auto simp: find_Some_iff)
  have "\<not> P k" if "a \<le> k" "k < j" for k
    using i(4) [rule_format, of "k - a"] that i(3) by simp
  with i show ?thesis by auto
qed

text \<open>While the counter does not wrap, or with a number of connections that divides \<open>2 ^ 32\<close>, every slot is seen.\<close>

definition counter_fits :: "client_mgr \<Rightarrow> bool" where
  "counter_fits m \<longleftrightarrow>
     unat (m_conn_index m) + length (m_connections m) \<le> 2 ^ 32 \<or> length (m_connections m) dvd 2 ^ 32"

lemma slot_fits:
  assumes "counter_fits m" and "j < unat (m_conn_index m) + length (m_connections m)"
  shows "slot m j = j mod length (m_connections m)"
  using assms by (auto simp: counter_fits_def slot_def mod_mod_cancel)

lemma residue_in_window: "c < n \<Longrightarrow> \<exists>k < n. (i + k) mod n = (c :: nat)"
proof -
  assume c: "c < n"
  define k where "k = (c + (n - i mod n)) mod n"
  have "k < n" using c by (simp add: k_def)
  moreover have "(i + k) mod n = (i mod n + (c + (n - i mod n))) mod n"
    by (simp add: k_def mod_simps)
  moreover have "i mod n + (c + (n - i mod n)) = c + n" using mod_less_divisor [of n i] c by linarith
  ultimately show ?thesis using c by (intro exI [of _ k]) simp
qed

lemma sint_of_slot: "k < 2 ^ 31 \<Longrightarrow> sint (of_nat k :: u32) = int k"
  using sint_word32_small [of "int k"] by simp

lemma select_loop_pool: "select_loop k m = Inr (r, m') \<Longrightarrow> \<exists>x. m' = m\<lparr>m_conn_index := x\<rparr>"
proof (induction k arbitrary: m)
  case 0
  then show ?case by (intro exI [of _ "m_conn_index m"]) simp
next
  case (Suc k)
  then show ?case by (auto simp: Let_def bind_err_Inr_iff split: if_splits) fastforce
qed

lemma select_connection_ok:
  assumes "mgr_ok m"
  shows "\<exists>r x. select_connection m = Inr (r, m\<lparr>m_conn_index := x\<rparr>)"
proof (cases "m_connections m = []")
  case True
  then have "m_conn_count m = 0" using assms by (simp add: mgr_ok_def unat_eq_0)
  then show ?thesis by (intro exI [of _ "- 1"] exI [of _ "m_conn_index m"]) (simp add: select_connection_def)
next
  case False
  have idx: "m_conn_index m = of_nat (unat (m_conn_index m))" by simp
  have "m_conn_count m \<noteq> 0" using False assms by (auto simp: mgr_ok_def)
  then show ?thesis
    by (cases "find (slot_alive m) [unat (m_conn_index m)..<unat (m_conn_index m) + unat (m_conn_count m)]")
      (auto simp: select_connection_def select_loop_find [OF assms False idx])
qed

lemma select_connection_scan:
  assumes "mgr_ok m" and "counter_fits m" and "length (m_connections m) \<le> 2 ^ 31"
  defines "n \<equiv> length (m_connections m)" and "i \<equiv> unat (m_conn_index m)"
  obtains (none) "\<forall>c \<in> set (m_connections m). \<not> is_alive c"
      and "select_connection m = Inr (- 1, m\<lparr>m_conn_index := m_conn_index m + of_nat n\<rparr>)"
    | (one) k where "k < n" and "is_alive (m_connections m ! ((i + k) mod n))"
      and "\<forall>j < k. \<not> is_alive (m_connections m ! ((i + j) mod n))"
      and "select_connection m = Inr (int ((i + k) mod n), m\<lparr>m_conn_index := m_conn_index m + of_nat (Suc k)\<rparr>)"
proof (cases "m_connections m = []")
  case True
  then have "m_conn_count m = 0" using assms(1) by (simp add: mgr_ok_def unat_eq_0)
  with True show ?thesis by (intro none) (simp_all add: select_connection_def n_def)
next
  case False
  have idx: "m_conn_index m = of_nat i" by (simp add: i_def)
  have n: "unat (m_conn_count m) = n" "m_conn_count m \<noteq> 0" and n0: "0 < n"
    using False assms(1) by (auto simp: mgr_ok_def n_def)
  have fit: "slot m j = j mod n" if "j < i + n" for j
    using slot_fits [OF assms(2)] that by (simp add: i_def n_def)
  show ?thesis
  proof (cases "find (slot_alive m) [i..<i + n]")
    case None
    then have dead: "\<not> slot_alive m (i + k)" if "k < n" for k using that by (simp add: find_None_iff)
    have "\<not> is_alive c" if c: "c \<in> set (m_connections m)" for c
    proof -
      obtain p where "p < n" "c = m_connections m ! p" using c unfolding n_def in_set_conv_nth by blast
      with residue_in_window [of p n i] dead fit show ?thesis by (auto simp: slot_alive_def)
    qed
    with None n show ?thesis
      by (intro none) (simp_all add: select_connection_def select_loop_find [OF assms(1) False idx] idx)
  next
    case (Some j)
    from find_upt_Some [OF this] obtain k where j: "j = i + k" "k < n" "slot_alive m (i + k)"
        "\<forall>k'. i \<le> k' \<longrightarrow> k' < i + k \<longrightarrow> \<not> slot_alive m k'"
      by (metis add_less_cancel_left le_add_diff_inverse)
    have s: "slot m (i + k) = (i + k) mod n" using fit j(2) by simp
    have lt: "(i + k) mod n < n" using n0 by simp
    then have small: "(i + k) mod n < 2 ^ 31" using assms(3) unfolding n_def [symmetric] by linarith
    have al: "is_alive (m_connections m ! ((i + k) mod n))" using j(3) s by (simp add: slot_alive_def)
    have "\<forall>k' < k. \<not> is_alive (m_connections m ! ((i + k') mod n))"
    proof (intro allI impI)
      fix k' assume k': "k' < k"
      then have "\<not> slot_alive m (i + k')" using j(4) [rule_format, of "i + k'"] by simp
      with k' j(2) fit [of "i + k'"] show "\<not> is_alive (m_connections m ! ((i + k') mod n))"
        by (auto simp: slot_alive_def)
    qed
    moreover have "select_connection m = Inr (int ((i + k) mod n), m\<lparr>m_conn_index := m_conn_index m + of_nat (Suc k)\<rparr>)"
      using n Some j(1) s sint_of_slot [OF small]
      by (simp add: select_connection_def select_loop_find [OF assms(1) False idx] idx ac_simps)
    ultimately show ?thesis using j(2) al by (intro one)
  qed
qed

section \<open>Every operation keeps the pool\<close>

lemma add_host_ok:
  assumes "kernel_ok env" and "mgr_ok m" and "length (m_connections m) < 2 ^ 32 - 1" and "add_host env t (w, m) a = (w', m')"
  shows "mgr_ok m' \<and> length (m_connections m') \<le> Suc (length (m_connections m))
    \<and> keeps_pool w m w' m'"
proof -
  let ?ip = "split_string a CHR '':''"
  obtain r w1 where n: "sys env w New_client = (r, w1)" by fastforce
  obtain x1 c1 w2 where t: "set_timeout env w1 tcp_client_init t = (x1, c1, w2)" by (cases "set_timeout env w1 tcp_client_init t") auto
  obtain x2 c2 w3 where c: "connect_to env w2 c1 (?ip ! 0) (?ip ! 1) = (x2, c2, w3)"
    by (cases "connect_to env w2 c1 (?ip ! 0) (?ip ! 1)") auto
  have out1: "sockets_out fd w1 = sockets_out fd w" for fd using sys_sockets_out [OF n] by simp
  have "keeps_sockets w1 tcp_client_init w3 c2"
    using keeps_sockets_trans [OF set_timeout_keeps(1) [OF t]] connect_to_result [OF assms(1) c] by blast
  then have out3: "sockets_out fd w3 = sockets_out fd w + held fd c2" for fd
    using out1 by (simp add: keeps_sockets_def held_def tcp_client_init_def)
  have "unat (m_conn_count m + 1) = Suc (unat (m_conn_count m))"
    using iffD1 [OF unat_add_lem, of "m_conn_count m" 1] assms(2,3) by (simp add: mgr_ok_def)
  with assms(2,4) n t c out1 out3 show ?thesis
    by (auto simp: add_host_def mgr_ok_def keeps_pool_def pool_held_def Let_def split: if_splits)
qed

lemma add_hosts_ok:
  assumes "kernel_ok env"
  shows "mgr_ok m \<Longrightarrow> length (m_connections m) + length as < 2 ^ 32 \<Longrightarrow> foldl (add_host env t) (w, m) as = (w', m') \<Longrightarrow>
    mgr_ok m' \<and> keeps_pool w m w' m'"
proof (induction as arbitrary: w m)
  case (Cons a as)
  obtain w1 m1 where s: "add_host env t (w, m) a = (w1, m1)" by fastforce
  have one: "mgr_ok m1 \<and> length (m_connections m1) \<le> Suc (length (m_connections m))
      \<and> keeps_pool w m w1 m1"
    using Cons.prems(2) by (intro add_host_ok [OF assms Cons.prems(1) _ s]) simp
  then have "mgr_ok m' \<and> keeps_pool w1 m1 w' m'" using Cons.IH [of m1 w1] Cons.prems(2,3) s by simp
  with one keeps_pool_trans show ?case by blast
qed simp

lemma split_length: "length (split_string s d) \<le> length s"
proof (induction "length s" arbitrary: s rule: less_induct)
  case less
  show ?case
  proof (cases "d \<in> set s")
    case True
    then obtain x r where s: "s = x @ d # r" "d \<notin> set x" by (metis split_list_first)
    with less [of r] show ?thesis by (simp add: split_delim)
  next
    case False
    then show ?thesis by (cases "s = []") (simp_all add: split_no_delim Suc_leI)
  qed
qed

lemma mgr_init_ok:
  assumes "kernel_ok env" and "mgr_ok m" and "length host_list < 2 ^ 32"
    and "mgr_init env w m host_list ty t = (r, m', w')"
  shows "mgr_ok m' \<and> keeps_pool w m w' m'"
proof (cases "m_conn_count m > 0 \<or> host_list = []")
  case True
  with assms(2,4) show ?thesis by (auto simp: mgr_init_def split: if_splits)
next
  case False
  define m1 where "m1 = m\<lparr>m_send_type := (if ty \<noteq> 0 \<and> ty \<noteq> 1 then 1 else ty)\<rparr>"
  obtain w2 m2 where f: "foldl (add_host env t) (w, m1) (split_string host_list CHR '';'') = (w2, m2)" by fastforce
  have "m_conn_count m = 0" using False by (simp add: word_gt_0)
  then have "m_connections m = []" using assms(2) by (simp add: mgr_ok_def)
  then have "length (m_connections m1) + length (split_string host_list CHR '';'') < 2 ^ 32"
    using split_length [of host_list "CHR '';''"] assms(3) by (simp add: m1_def)
  moreover have "mgr_ok m1" using assms(2) by (simp add: m1_def mgr_ok_def)
  ultimately have "mgr_ok m2 \<and> keeps_pool w m1 w2 m2"
    using add_hosts_ok [OF assms(1) _ _ f] by blast
  moreover have "(r, m', w') = (0, m2, w2)"
    using assms(4) False f by (auto simp: mgr_init_def m1_def [symmetric])
  ultimately show ?thesis by (simp add: m1_def)
qed

text \<open>Replacing a connection by what an operation made of it.\<close>

lemma set_conn_keeps:
  assumes "conn_at m i = Inr c" and "keeps_sockets w c w' c'"
  shows "keeps_pool w m w' (set_conn m i c')"
  using assms by (auto simp: conn_at_def keeps_sockets_def keeps_pool_def pool_held_set_conn split: if_splits)

lemma check_loop_ok:
  assumes "kernel_ok env"
  shows "mgr_ok m \<Longrightarrow> (\<And>i. i \<in> set is \<Longrightarrow> i < m_conn_count m) \<Longrightarrow>
    \<exists>m' w'. check_loop env w m is = Inr (m', w') \<and> mgr_ok m' \<and> keeps_pool w m w' m'"
proof (induction "is" arbitrary: m w)
  case (Cons i "is")
  have c: "conn_at m i = Inr (m_connections m ! unat i)" using Cons.prems conn_at_ok by simp
  obtain r c1 w1 where r: "reconnect env w (m_connections m ! unat i) = (r, c1, w1)"
    by (cases "reconnect env w (m_connections m ! unat i)") auto
  have "mgr_ok (set_conn m i c1)" using Cons.prems(1) by simp
  from Cons.IH [OF this, of w1] Cons.prems(2) obtain m' w' where
    "check_loop env w1 (set_conn m i c1) is = Inr (m', w')" "mgr_ok m'" "keeps_pool w1 (set_conn m i c1) w' m'" by auto
  with c r keeps_pool_trans [OF set_conn_keeps [OF c reconnect_keeps [OF assms r]]]
  show ?case by simp
qed simp

lemma counter_less: "i \<in> set (counter m) \<Longrightarrow> i < m_conn_count m"
  by (auto simp: counter_def word_less_nat_alt unat_of_nat intro: le_less_trans [OF mod_less_eq_dividend])

lemma check_connection_ok:
  assumes "kernel_ok env" and "mgr_ok m"
  shows "\<exists>m' w'. check_connection env w m = Inr (0, m', w') \<and> mgr_ok m' \<and> keeps_pool w m w' m'"
  using check_loop_ok [OF assms(1,2), of "counter m" w] counter_less by (auto simp: check_connection_def)

lemma delete_loop_ok:
  "mgr_ok m \<Longrightarrow> (\<And>i. i \<in> set is \<Longrightarrow> i < m_conn_count m) \<Longrightarrow>
    \<exists>w'. delete_loop env w m is = Inr w'
      \<and> (\<forall>fd. sockets_out fd w' = sockets_out fd w - sum_list (map (\<lambda>i. held fd (m_connections m ! unat i)) is))"
proof (induction "is" arbitrary: w)
  case (Cons i "is")
  have c: "conn_at m i = Inr (m_connections m ! unat i)" using Cons.prems conn_at_ok by simp
  obtain c1 w1 where r: "close_client env w (m_connections m ! unat i) = (c1, w1)" by fastforce
  have "held fd c1 = 0" for fd using close_client_result(1) [OF r] by (simp add: held_def)
  with Cons.IH [OF Cons.prems(1), of w1] Cons.prems(2) c r close_client_result(2) [OF r]
  show ?case by (auto simp: keeps_sockets_def)
qed simp

lemma mgr_uninit_ok:
  assumes "mgr_ok m"
  shows "\<exists>m' w'. mgr_uninit env w m = Inr (0, m', w') \<and> mgr_ok m' \<and> m_connections m' = []
    \<and> (\<forall>fd. sockets_out fd w' = sockets_out fd w - pool_held fd m)"
proof -
  have len: "length (m_connections m) < 2 ^ 32"
    using assms unsigned_less [of "m_conn_count m", where ?'a = nat] by (simp add: mgr_ok_def)
  have "map (\<lambda>i. held fd (m_connections m ! unat i)) (counter m) = map (held fd) (m_connections m)" for fd
    using assms len by (auto simp: counter_def mgr_ok_def unat_of_nat intro!: nth_equalityI)
  then show ?thesis
    using delete_loop_ok [OF assms, of "counter m" env w] counter_less
    by (auto simp: mgr_uninit_def mgr_ok_def pool_held_def)
qed

lemma transfer_keeps:
  assumes "mgr_ok m" and "i < m_conn_count m" and "keeps_sockets w (m_connections m ! unat i) w' c'"
  shows "mgr_ok (set_conn m i c')" "keeps_pool w m w' (set_conn m i c')"
  using assms(1) set_conn_keeps [OF conn_at_ok [OF assms(1,2)] assms(3)] by simp_all

section \<open>Sequences of calls\<close>

datatype mgr_op =
    M_init string int int
  | M_uninit
  | M_check
  | M_select
  | M_close u32
  | M_send_to u32 "byte list option" u64
  | M_send "byte list option" u64
  | M_recv_from u32 bool u64
  | M_recv bool u64
  | M_writev_to u32 "byte list list option"
  | M_writev "byte list list option"
  | M_readv_from u32 "nat list option"
  | M_readv "nat list option"

text \<open>
  The effect of a call: \<open>None\<close> if it is still running when its fuel is used up, otherwise a fault
  or the new state. A host list of \<open>2 ^ 32\<close> characters and more is outside the model's bounds.
\<close>

fun mgr_call :: "nat \<Rightarrow> sock_env \<Rightarrow> sock_world \<Rightarrow> client_mgr \<Rightarrow> mgr_op \<Rightarrow> (fault + sock_world \<times> client_mgr) option" where
  "mgr_call fuel env w m (M_init hosts ty t) = (case mgr_init env w m hosts ty t of (_, m', w') \<Rightarrow> Some (Inr (w', m')))"
| "mgr_call fuel env w m M_uninit = Some (bind_err (mgr_uninit env w m) (\<lambda>(_, m', w'). Inr (w', m')))"
| "mgr_call fuel env w m M_check = Some (bind_err (check_connection env w m) (\<lambda>(_, m', w'). Inr (w', m')))"
| "mgr_call fuel env w m M_select = Some (bind_err (select_connection m) (\<lambda>(_, m'). Inr (w, m')))"
| "mgr_call fuel env w m (M_close i) = Some (bind_err (close_connection env w m i) (\<lambda>(m', w'). Inr (w', m')))"
| "mgr_call fuel env w m (M_send_to i buf len) =
     map_option (\<lambda>x. bind_err x (\<lambda>(_, m', w'). Inr (w', m'))) (mgr_send_to fuel env w m i buf len)"
| "mgr_call fuel env w m (M_send buf len) =
     map_option (\<lambda>x. bind_err x (\<lambda>(_, m', w'). Inr (w', m'))) (mgr_send fuel env w m buf len)"
| "mgr_call fuel env w m (M_recv_from i given len) =
     map_option (\<lambda>x. bind_err x (\<lambda>(_, _, m', w'). Inr (w', m'))) (mgr_recv_from fuel env w m i given len)"
| "mgr_call fuel env w m (M_recv given len) =
     map_option (\<lambda>x. bind_err x (\<lambda>(_, _, m', w'). Inr (w', m'))) (mgr_recv fuel env w m given len)"
| "mgr_call fuel env w m (M_writev_to i iov) = Some (bind_err (mgr_writev_to env w m i iov) (\<lambda>(_, m', w'). Inr (w', m')))"
| "mgr_call fuel env w m (M_writev iov) = Some (bind_err (mgr_writev env w m iov) (\<lambda>(_, m', w'). Inr (w', m')))"
| "mgr_call fuel env w m (M_readv_from i iov) = Some (bind_err (mgr_readv_from env w m i iov) (\<lambda>(_, _, m', w'). Inr (w', m')))"
| "mgr_call fuel env w m (M_readv iov) = Some (bind_err (mgr_readv env w m iov) (\<lambda>(_, _, m', w'). Inr (w', m')))"

fun op_small :: "mgr_op \<Rightarrow> bool" where
  "op_small (M_init hosts ty t) = (length hosts < 2 ^ 32)"
| "op_small _ = True"

text \<open>What every call does to the pool and its sockets.\<close>

definition pool_kept :: "sock_world \<Rightarrow> client_mgr \<Rightarrow> (fault + sock_world \<times> client_mgr) option \<Rightarrow> bool" where
  "pool_kept w m x \<longleftrightarrow>
     (case x of None \<Rightarrow> True | Some (Inl e) \<Rightarrow> False
      | Some (Inr (w', m')) \<Rightarrow> mgr_ok m' \<and> keeps_pool w m w' m')"

lemma pool_kept_simps [simp]:
  "pool_kept w m None"
  "pool_kept w m (Some (Inr (w', m'))) \<longleftrightarrow> mgr_ok m' \<and> keeps_pool w m w' m'"
  by (simp_all add: pool_kept_def)

lemma not_less_conv: "\<not> (i :: u32) \<ge> n \<Longrightarrow> i < n"
  by simp

lemma send_to_kept:
  assumes "kernel_ok env" and "mgr_ok m"
  shows "pool_kept w m (mgr_call fuel env w m (M_send_to i buf len))"
proof (cases "i \<ge> m_conn_count m")
  case False
  then have i: "i < m_conn_count m" by simp
  show ?thesis
  proof (cases "send_client fuel env w (m_connections m ! unat i) buf len")
    case (Some x)
    then obtain r c1 w1 where "send_client fuel env w (m_connections m ! unat i) buf len = Some (r, c1, w1)"
      by (cases x) auto
    with transfer_keeps [OF assms(2) i send_client_keeps [OF assms(1) this]] i show ?thesis
      by (simp add: mgr_send_to_def conn_at_ok [OF assms(2) i])
  qed (use i assms in \<open>simp add: mgr_send_to_def conn_at_ok [OF assms(2) i]\<close>)
qed (use assms in \<open>simp add: mgr_send_to_def\<close>)

lemma recv_from_kept:
  assumes "kernel_ok env" and "mgr_ok m"
  shows "pool_kept w m (mgr_call fuel env w m (M_recv_from i given len))"
proof (cases "i \<ge> m_conn_count m")
  case False
  then have i: "i < m_conn_count m" by simp
  show ?thesis
  proof (cases "recv_client fuel env w (m_connections m ! unat i) given len")
    case (Some x)
    then obtain r got c1 w1 where "recv_client fuel env w (m_connections m ! unat i) given len = Some (r, got, c1, w1)"
      by (cases x) auto
    with transfer_keeps [OF assms(2) i recv_client_keeps [OF assms(1) this]] i show ?thesis
      by (simp add: mgr_recv_from_def conn_at_ok [OF assms(2) i])
  qed (use i assms in \<open>simp add: mgr_recv_from_def conn_at_ok [OF assms(2) i]\<close>)
qed (use assms in \<open>simp add: mgr_recv_from_def\<close>)

lemma writev_to_kept:
  assumes "mgr_ok m"
  shows "pool_kept w m (mgr_call fuel env w m (M_writev_to i iov))"
proof (cases "i \<ge> m_conn_count m")
  case False
  then have i: "i < m_conn_count m" by simp
  obtain r c1 w1 where "writev_client env w (m_connections m ! unat i) iov = (r, c1, w1)"
    by (cases "writev_client env w (m_connections m ! unat i) iov") auto
  with transfer_keeps [OF assms i writev_keeps [OF this]] i show ?thesis
    by (simp add: mgr_writev_to_def conn_at_ok [OF assms i])
qed (use assms in \<open>simp add: mgr_writev_to_def\<close>)

lemma readv_from_kept:
  assumes "mgr_ok m"
  shows "pool_kept w m (mgr_call fuel env w m (M_readv_from i iov))"
proof (cases "i \<ge> m_conn_count m")
  case False
  then have i: "i < m_conn_count m" by simp
  obtain r got c1 w1 where "readv_client env w (m_connections m ! unat i) iov = (r, got, c1, w1)"
    by (cases "readv_client env w (m_connections m ! unat i) iov") auto
  with transfer_keeps [OF assms i readv_keeps [OF this]] i show ?thesis
    by (simp add: mgr_readv_from_def conn_at_ok [OF assms i])
qed (use assms in \<open>simp add: mgr_readv_from_def\<close>)

lemma close_kept:
  assumes "mgr_ok m"
  shows "pool_kept w m (mgr_call fuel env w m (M_close i))"
proof (cases "i \<ge> m_conn_count m")
  case False
  then have i: "i < m_conn_count m" by simp
  obtain c1 w1 where "close_client env w (m_connections m ! unat i) = (c1, w1)" by fastforce
  with transfer_keeps [OF assms i close_client_result(2) [OF this]] i show ?thesis
    by (simp add: close_connection_def conn_at_ok [OF assms i])
qed (use assms in \<open>simp add: close_connection_def\<close>)

lemma mgr_call_kept:
  assumes "kernel_ok env" and "mgr_ok m" and "op_small x"
  shows "pool_kept w m (mgr_call fuel env w m x)"
proof -
  obtain r y where sel: "select_connection m = Inr (r, m\<lparr>m_conn_index := y\<rparr>)" using select_connection_ok [OF assms(2)] by blast
  have ok: "mgr_ok (m\<lparr>m_conn_index := y\<rparr>)" using assms(2) by (simp add: mgr_ok_def)
  have upd: "pool_kept w (m\<lparr>m_conn_index := y\<rparr>) z = pool_kept w m z" for z
    by (auto simp: pool_kept_def split: option.split sum.split)
  show ?thesis
  proof (cases x)
    case (M_init hosts ty t)
    with mgr_init_ok [OF assms(1,2)] assms(3) show ?thesis by (auto split: prod.split)
  next
    case M_uninit
    with mgr_uninit_ok [OF assms(2), of env w] show ?thesis by (auto simp: keeps_pool_def pool_held_def)
  next
    case M_check
    with check_connection_ok [OF assms(1,2), of w] show ?thesis by auto
  next
    case M_select
    with sel ok show ?thesis by simp
  next
    case (M_send buf len)
    with send_to_kept [OF assms(1) ok, of w fuel "word_of_int r" buf len] sel ok show ?thesis
      by (auto simp: mgr_send_def upd)
  next
    case (M_recv given len)
    with recv_from_kept [OF assms(1) ok, of w fuel "word_of_int r" given len] sel ok show ?thesis
      by (auto simp: mgr_recv_def upd)
  next
    case (M_writev iov)
    with writev_to_kept [OF ok, of w fuel env "word_of_int r" iov] sel ok show ?thesis
      by (auto simp: mgr_writev_def upd)
  next
    case (M_readv iov)
    with readv_from_kept [OF ok, of w fuel env "word_of_int r" iov] sel ok show ?thesis
      by (auto simp: mgr_readv_def upd)
  qed (use assms send_to_kept recv_from_kept writev_to_kept readv_from_kept close_kept in \<open>simp_all del: mgr_call.simps\<close>)
qed

definition mgr_step :: "nat \<Rightarrow> sock_env \<Rightarrow> sock_world \<times> client_mgr \<Rightarrow> mgr_op \<Rightarrow> sock_world \<times> client_mgr" where
  "mgr_step fuel env s x = (case mgr_call fuel env (fst s) (snd s) x of Some (Inr s') \<Rightarrow> s' | _ \<Rightarrow> s)"

interpretation pool: accounted "mgr_step fuel env" op_small "\<lambda>(w, m). kernel_ok env \<and> mgr_ok m"
    "\<lambda>(w, m). sockets_out fd w - pool_held fd m"
  for fuel env fd
proof (unfold_locales, goal_cases)
  case (1 s x)
  then show ?case using mgr_call_kept [of env "snd s" x "fst s" fuel]
    by (auto simp: mgr_step_def pool_kept_def split: option.splits sum.splits prod.splits)
next
  case (2 s x)
  then show ?case using mgr_call_kept [of env "snd s" x "fst s" fuel]
    by (auto simp: mgr_step_def pool_kept_def keeps_pool_def split: option.splits sum.splits prod.splits)
qed

section \<open>The host list\<close>

text \<open>The target an entry of the host list names, if it has the form \<open>host:port\<close>; the target of a client.\<close>

definition entry_target :: "string \<Rightarrow> (string \<times> string) option" where
  "entry_target e = (case split_string e CHR '':'' of [host, port] \<Rightarrow> Some (host, port) | _ \<Rightarrow> None)"

definition target_of :: "tcp_client \<Rightarrow> string \<times> string" where
  "target_of c = (m_str_host c, m_str_port c)"

text \<open>A host list as it is documented, and the targets it can name.\<close>

definition render_hosts :: "(string \<times> string) list \<Rightarrow> string" where
  "render_hosts hosts = join_strings CHR '';'' (map (\<lambda>(host, port). host @ CHR '':'' # port) hosts)"

definition plain_target :: "string \<times> string \<Rightarrow> bool" where
  "plain_target = (\<lambda>(host, port). set host \<inter> {CHR '':'', CHR '';''} = {} \<and> set port \<inter> {CHR '':'', CHR '';''} = {} \<and> port \<noteq> [])"

lemma entry_target_plain: "plain_target (host, port) \<Longrightarrow> entry_target (host @ CHR '':'' # port) = Some (host, port)"
  by (simp add: plain_target_def entry_target_def split_delim split_no_delim)

lemma entries_render:
  assumes "list_all plain_target hosts"
  shows "List.map_filter entry_target (split_string (render_hosts hosts) CHR '';'') = hosts"
proof -
  let ?entries = "map (\<lambda>(host, port). host @ CHR '':'' # port) hosts"
  have plain: "plain_target (host, port)" if "(host, port) \<in> set hosts" for host port
    using assms that by (simp add: list_all_iff)
  have "split_string (render_hosts hosts) CHR '';'' = ?entries"
    unfolding render_hosts_def using plain
    by (intro split_join) (auto simp: plain_target_def last_map split: prod.splits)
  moreover have "List.map_filter entry_target ?entries = hosts"
    using plain by (induction hosts) (auto simp: List.map_filter_simps entry_target_plain split: prod.splits)
  ultimately show ?thesis by simp
qed

lemma add_host_target:
  assumes "kernel_ok env" and "add_host env t (w, m) a = (w', m')"
  obtains cs where "m_connections m' = m_connections m @ cs" and "m_send_type m' = m_send_type m"
    and "\<forall>c \<in> set cs. m_timeout c = t * 1000000"
    and "subseq (map target_of cs) (List.map_filter entry_target [a])"
    and "(\<And>h. ret_val (env h New_client) \<noteq> 0) \<Longrightarrow> map target_of cs = List.map_filter entry_target [a]"
proof (cases "entry_target a")
  case None
  then have "length (split_string a CHR '':'') \<noteq> 2"
    by (auto simp: entry_target_def length_Suc_conv numeral_2_eq_2)
  with assms(2) None show ?thesis by (intro that [of "[]"]) (auto simp: add_host_def List.map_filter_simps)
next
  case (Some x)
  then obtain host port where s: "split_string a CHR '':'' = [host, port]" and x: "x = (host, port)"
    by (auto simp: entry_target_def split: list.splits)
  obtain r w1 where n: "sys env w New_client = (r, w1)" by fastforce
  obtain x1 c1 w2 where t: "set_timeout env w1 tcp_client_init t = (x1, c1, w2)" by (cases "set_timeout env w1 tcp_client_init t") auto
  obtain x2 c2 w3 where c: "connect_to env w2 c1 host port = (x2, c2, w3)" by (cases "connect_to env w2 c1 host port") auto
  have "target_of c2 = x" and "m_timeout c2 = t * 1000000"
    using connect_to_target [OF assms(1) c] t x
    by (auto simp: target_of_def set_timeout_def tcp_client_init_def split: if_splits prod.splits)
  with assms(2) Some s n t c sys_answer(1) [OF n] show ?thesis
    by (cases "ret_val r = 0")
      (rule that [of "[]"], auto simp: add_host_def List.map_filter_simps, rule that [of "[c2]"], auto simp: add_host_def List.map_filter_simps)
qed

lemma add_hosts_targets:
  assumes "kernel_ok env" and "foldl (add_host env t) (w, m) as = (w', m')"
  obtains cs where "m_connections m' = m_connections m @ cs" and "m_send_type m' = m_send_type m"
    and "\<forall>c \<in> set cs. m_timeout c = t * 1000000"
    and "subseq (map target_of cs) (List.map_filter entry_target as)"
    and "(\<And>h. ret_val (env h New_client) \<noteq> 0) \<Longrightarrow> map target_of cs = List.map_filter entry_target as"
  using assms(2)
proof (induction as arbitrary: w m thesis)
  case Nil
  then show ?case by simp
next
  case (Cons a as)
  obtain w1 m1 where s: "add_host env t (w, m) a = (w1, m1)" by fastforce
  obtain cs where one: "m_connections m1 = m_connections m @ cs" "m_send_type m1 = m_send_type m"
      "\<forall>c \<in> set cs. m_timeout c = t * 1000000" "subseq (map target_of cs) (List.map_filter entry_target [a])"
      "(\<And>h. ret_val (env h New_client) \<noteq> 0) \<Longrightarrow> map target_of cs = List.map_filter entry_target [a]"
    using add_host_target [OF assms(1) s] by metis
  obtain ds where rest: "m_connections m' = m_connections m1 @ ds" "m_send_type m' = m_send_type m1"
      "\<forall>c \<in> set ds. m_timeout c = t * 1000000" "subseq (map target_of ds) (List.map_filter entry_target as)"
      "(\<And>h. ret_val (env h New_client) \<noteq> 0) \<Longrightarrow> map target_of ds = List.map_filter entry_target as"
    using Cons.IH [of m1 _ w1] Cons.prems(2) s by (metis foldl_Cons)
  have split: "List.map_filter entry_target (a # as) = List.map_filter entry_target [a] @ List.map_filter entry_target as"
    by (simp add: List.map_filter_simps split: option.split)
  show ?case
  proof (rule Cons.prems(1) [of "cs @ ds"])
    show "subseq (map target_of (cs @ ds)) (List.map_filter entry_target (a # as))"
      unfolding split map_append using one(4) rest(4) by (rule list_emb_append_mono)
    show "map target_of (cs @ ds) = List.map_filter entry_target (a # as)"
      if "\<And>h. ret_val (env h New_client) \<noteq> 0"
      unfolding split map_append using one(5) rest(5) that by simp
  qed (use one(1-3) rest(1-3) in auto)
qed

section \<open>Properties\<close>

text \<open>
  C13: In a pool of at most \<open>2 ^ 31\<close> connections whose counter does not wrap during the call (or
  whose size divides \<open>2 ^ 32\<close>), \<open>select_connection\<close> returns the first alive connection at or after
  the counter's position, cyclically, and moves the counter just past it; it returns -1 exactly if no connection
  is alive.
\<close>

theorem select_connection_first_alive:
  assumes "mgr_ok m" and "counter_fits m" and "length (m_connections m) \<le> 2 ^ 31"
  defines "n \<equiv> length (m_connections m)" and "i \<equiv> unat (m_conn_index m)"
  shows "case select_connection m of
      Inl _ \<Rightarrow> False
    | Inr (r, m') \<Rightarrow>
        if \<exists>c \<in> set (m_connections m). is_alive c
        then \<exists>k < n. r = int ((i + k) mod n) \<and> is_alive (m_connections m ! ((i + k) mod n))
               \<and> (\<forall>j < k. \<not> is_alive (m_connections m ! ((i + j) mod n)))
               \<and> m' = m\<lparr>m_conn_index := m_conn_index m + of_nat (Suc k)\<rparr>
        else r = - 1 \<and> m' = m\<lparr>m_conn_index := m_conn_index m + of_nat n\<rparr>"
proof (rule select_connection_scan [OF assms(1-3)], goal_cases)
  case 1
  then show ?case by (simp add: n_def)
next
  case one: (2 k)
  have "0 < n" unfolding n_def by (rule le_less_trans [OF le0 one(1)])
  then have "(i + k) mod n < n" by simp
  then have "\<exists>c \<in> set (m_connections m). is_alive c" using one(2) unfolding n_def i_def by (metis nth_mem)
  with one show ?case by (auto simp: n_def i_def)
qed

theorem select_connection_first_alive_witness:
  "let m = \<lparr>m_connections = [tcp_client_init, tcp_client_init\<lparr>m_fd := 5\<rparr>], m_conn_count = 2, m_conn_index = 2, m_send_type = 0\<rparr>
   in case select_connection m of Inl _ \<Rightarrow> False | Inr (r, m') \<Rightarrow> r \<noteq> - 1"
proof -
  let ?m = "\<lparr>m_connections = [tcp_client_init, tcp_client_init\<lparr>m_fd := 5\<rparr>], m_conn_count = 2, m_conn_index = 2, m_send_type = 0\<rparr>"
  have "mgr_ok ?m" "counter_fits ?m" "length (m_connections ?m) \<le> 2 ^ 31"
    by (simp_all add: mgr_ok_def counter_fits_def)
  from select_connection_first_alive [OF this] show ?thesis
    by (auto simp: is_alive_def Let_def split: sum.splits)
qed

text \<open>
  When the counter wraps at \<open>2 ^ 32\<close> in a pool whose size does not divide it, the slots are not
  all visited: with three connections and the counter at \<open>2 ^ 32 - 1\<close>, the last connection is
  skipped, and the call reports that all connections are lost although that one is alive.
\<close>

lemma select_misses_alive_at_wrap:
  assumes "m_connections m = [a, b, c]" and "m_conn_count m = 3" and "m_conn_index m = 2 ^ 32 - 1"
    and "\<not> is_alive a" and "\<not> is_alive b" and "is_alive c"
  shows "select_connection m = Inr (- 1, m\<lparr>m_conn_index := 2\<rparr>)"
proof -
  have ok: "mgr_ok m" "m_connections m \<noteq> []" "m_conn_index m = of_nat (2 ^ 32 - 1)"
    using assms(1-3) by (simp_all add: mgr_ok_def)
  have w: "[2 ^ 32 - 1..<2 ^ 32 - 1 + 3] = [2 ^ 32 - 1, 2 ^ 32, 2 ^ 32 + (1 :: nat)]" by (simp add: upt_rec)
  have "find (slot_alive m) [2 ^ 32 - 1..<2 ^ 32 - 1 + 3] = None"
    unfolding w using assms by (simp add: slot_alive_def slot_def)
  then have "select_loop 3 m = Inr (None, m\<lparr>m_conn_index := 2\<rparr>)"
    using select_loop_find [OF ok, of 3] by simp
  then show ?thesis using assms(2) by (simp add: select_connection_def)
qed

lemma select_misses_alive_at_wrap_witness:
  "select_connection \<lparr>m_connections = [tcp_client_init, tcp_client_init, tcp_client_init\<lparr>m_fd := 5\<rparr>], m_conn_count = 3,
       m_conn_index = 2 ^ 32 - 1, m_send_type = 0\<rparr>
   = Inr (- 1, \<lparr>m_connections = [tcp_client_init, tcp_client_init, tcp_client_init\<lparr>m_fd := 5\<rparr>], m_conn_count = 3,
       m_conn_index = 2, m_send_type = 0\<rparr>)"
  using select_misses_alive_at_wrap [of "\<lparr>m_connections = [tcp_client_init, tcp_client_init, tcp_client_init\<lparr>m_fd := 5\<rparr>],
      m_conn_count = 3, m_conn_index = 2 ^ 32 - 1, m_send_type = 0\<rparr>"]
  by (simp add: is_alive_def tcp_client_init_def)

text \<open>Repeated selection.\<close>

fun select_times :: "nat \<Rightarrow> client_mgr \<Rightarrow> fault + int list \<times> client_mgr" where
  "select_times 0 m = Inr ([], m)"
| "select_times (Suc k) m =
     bind_err (select_connection m) (\<lambda>(r, m1). bind_err (select_times k m1) (\<lambda>(rs, m2). Inr (r # rs, m2)))"

lemma select_times_all_alive:
  assumes "mgr_ok m" and "m_connections m \<noteq> []" and "list_all is_alive (m_connections m)"
    and "length (m_connections m) \<le> 2 ^ 31" and "m_conn_index m = of_nat i"
    and "i + k + length (m_connections m) \<le> 2 ^ 32"
  shows "select_times k m =
    Inr (map (\<lambda>j. int (j mod length (m_connections m))) [i..<i + k], m\<lparr>m_conn_index := of_nat (i + k)\<rparr>)"
  using assms
proof (induction k arbitrary: m i)
  case 0
  then show ?case by simp
next
  case (Suc k)
  define m1 where "m1 = m\<lparr>m_conn_index := of_nat (Suc i)\<rparr>"
  have n: "unat (m_conn_count m) = length (m_connections m)" "m_conn_count m \<noteq> 0"
    using Suc.prems(1,2) by (auto simp: mgr_ok_def)
  have l: "0 < length (m_connections m)" using Suc.prems(2) by simp
  have s: "slot m i = i mod length (m_connections m)" using Suc.prems(6) by (simp add: slot_def)
  have lt: "i mod length (m_connections m) < length (m_connections m)" using l by simp
  then have al: "slot_alive m i" using Suc.prems(3) s by (simp add: slot_alive_def list_all_length)
  have "find (slot_alive m) [i..<i + unat (m_conn_count m)] = Some i"
    using l n(1) al by (simp add: upt_conv_Cons)
  moreover have "i mod length (m_connections m) < 2 ^ 31" using lt Suc.prems(4) by linarith
  ultimately have sel: "select_connection m = Inr (int (i mod length (m_connections m)), m1)"
    using n sint_of_slot s
    by (simp add: select_connection_def select_loop_find [OF Suc.prems(1,2,5)] m1_def)
  have "select_times k m1 =
      Inr (map (\<lambda>j. int (j mod length (m_connections m1))) [Suc i..<Suc i + k], m1\<lparr>m_conn_index := of_nat (Suc i + k)\<rparr>)"
    by (rule Suc.IH) (use Suc.prems in \<open>simp_all add: m1_def mgr_ok_def\<close>)
  with sel show ?case by (simp add: m1_def upt_conv_Cons del: upt_Suc)
qed

lemma window_residues: "0 < n \<Longrightarrow> (\<lambda>j. j mod n) ` {i..<i + n} = {0..<n :: nat}"
proof (intro equalityI subsetI)
  fix c assume "0 < n" "c \<in> {0..<n}"
  with residue_in_window [of c n i] obtain k where "k < n" "(i + k) mod n = c" by auto
  then show "c \<in> (\<lambda>j. j mod n) ` {i..<i + n}" by (intro image_eqI [of _ _ "i + k"]) simp_all
qed auto

text \<open>
  While all connections are alive, the selections go round robin: as many calls as there are
  connections select every connection exactly once.
\<close>

lemma select_round_robin:
  assumes "mgr_ok m" and "m_connections m \<noteq> []" and "list_all is_alive (m_connections m)"
    and "length (m_connections m) \<le> 2 ^ 31" and "unat (m_conn_index m) + 2 * length (m_connections m) \<le> 2 ^ 32"
  shows "case select_times (length (m_connections m)) m of
      Inl _ \<Rightarrow> False
    | Inr (ids, m') \<Rightarrow> distinct ids \<and> set ids = int ` {0..<length (m_connections m)} \<and> m_connections m' = m_connections m"
proof -
  let ?n = "length (m_connections m)" and ?i = "unat (m_conn_index m)"
  have r: "select_times ?n m = Inr (map (\<lambda>j. int (j mod ?n)) [?i..<?i + ?n], m\<lparr>m_conn_index := of_nat (?i + ?n)\<rparr>)"
    using assms by (intro select_times_all_alive) simp_all
  have im: "set (map (\<lambda>j. j mod ?n) [?i..<?i + ?n]) = {0..<?n}" using window_residues [of ?n ?i] assms(2) by simp
  then have "card (set (map (\<lambda>j. j mod ?n) [?i..<?i + ?n])) = length (map (\<lambda>j. j mod ?n) [?i..<?i + ?n])" by simp
  then have d: "distinct (map (\<lambda>j. j mod ?n) [?i..<?i + ?n])" by (rule card_distinct)
  have m: "map (\<lambda>j. int (j mod ?n)) [?i..<?i + ?n] = map int (map (\<lambda>j. j mod ?n) [?i..<?i + ?n])" by simp
  have "distinct (map int (map (\<lambda>j. j mod ?n) [?i..<?i + ?n]))"
    using d by (subst distinct_map) (simp add: inj_on_def)
  moreover have "set (map int (map (\<lambda>j. j mod ?n) [?i..<?i + ?n])) = int ` {0..<?n}"
    using im by (simp only: set_map)
  ultimately show ?thesis unfolding r m by simp
qed

lemma select_round_robin_witness:
  "let m = \<lparr>m_connections = [tcp_client_init\<lparr>m_fd := 4\<rparr>, tcp_client_init\<lparr>m_fd := 5\<rparr>, tcp_client_init\<lparr>m_fd := 6\<rparr>],
       m_conn_count = 3, m_conn_index = 7, m_send_type = 0\<rparr>
   in case select_times 3 m of Inl _ \<Rightarrow> False | Inr (ids, m') \<Rightarrow> distinct ids"
proof -
  let ?m = "\<lparr>m_connections = [tcp_client_init\<lparr>m_fd := 4\<rparr>, tcp_client_init\<lparr>m_fd := 5\<rparr>, tcp_client_init\<lparr>m_fd := 6\<rparr>],
       m_conn_count = 3, m_conn_index = 7, m_send_type = 0\<rparr>"
  have "mgr_ok ?m" "m_connections ?m \<noteq> []" "list_all is_alive (m_connections ?m)" "length (m_connections ?m) \<le> 2 ^ 31"
    "unat (m_conn_index ?m) + 2 * length (m_connections ?m) \<le> 2 ^ 32" and l: "length (m_connections ?m) = 3"
    by (simp_all add: mgr_ok_def is_alive_def)
  from select_round_robin [OF this(1-5)] show ?thesis unfolding l Let_def by (simp split: sum.splits prod.splits)
qed

text \<open>
  C9: \<open>init\<close> turns the host list into the pool. On a pool without connections it returns 0 and makes
  one client for every entry of the form \<open>host:port\<close>, in the order of the list, with that host and
  port and the given timeout (in seconds, few enough for the microseconds to fit \<open>time_t\<close>); entries of another form, and those for which there is no memory, are left
  out. A list as documented, \<open>host:port;host:port\<close>, gives exactly its targets. A send type other
  than 0 and 1 becomes 1, the sockets opened are those the pool holds, and once the pool has a
  connection a further call does nothing. Hosts that cannot be resolved or reached are kept as clients
  without a socket.
\<close>

theorem mgr_init_targets:
  assumes "kernel_ok env" and "mgr_ok m" and "m_connections m = []" and "host_list \<noteq> []" and "length host_list < 2 ^ 32"
  shows "\<exists>m' w'. mgr_init env w m host_list ty t = (0, m', w')
    \<and> mgr_ok m' \<and> m_send_type m' = (if ty = 0 then 0 else 1)
    \<and> (\<forall>fd. sockets_out fd w' = sockets_out fd w + pool_held fd m')
    \<and> (\<forall>c \<in> set (m_connections m'). m_timeout c = t * 1000000)
    \<and> subseq (map target_of (m_connections m')) (List.map_filter entry_target (split_string host_list CHR '';''))
    \<and> ((\<forall>h. ret_val (env h New_client) \<noteq> 0) \<longrightarrow>
         map target_of (m_connections m') = List.map_filter entry_target (split_string host_list CHR '';'')
         \<and> (\<forall>hosts. list_all plain_target hosts \<and> host_list = render_hosts hosts \<longrightarrow>
              map target_of (m_connections m') = hosts))
    \<and> (m_connections m' \<noteq> [] \<longrightarrow> (\<forall>other ty' t'. mgr_init env w' m' other ty' t' = (0, m', w')))"
proof -
  define m1 where "m1 = m\<lparr>m_send_type := (if ty \<noteq> 0 \<and> ty \<noteq> 1 then 1 else ty)\<rparr>"
  obtain w' m' where f: "foldl (add_host env t) (w, m1) (split_string host_list CHR '';'') = (w', m')" by fastforce
  have "m_conn_count m = 0" using assms(2,3) by (simp add: mgr_ok_def unat_eq_0)
  then have run: "mgr_init env w m host_list ty t = (0, m', w')"
    using f assms(4) by (simp add: mgr_init_def m1_def)
  note kept = mgr_init_ok [OF assms(1,2,5) run]
  have "m_connections m' \<noteq> [] \<Longrightarrow> m_conn_count m' > 0" using kept by (auto simp: mgr_ok_def word_gt_0)
  then have again: "m_connections m' \<noteq> [] \<Longrightarrow> mgr_init env w' m' other ty' t' = (0, m', w')" for other ty' t'
    by (simp add: mgr_init_def)
  obtain cs where cs: "m_connections m' = m_connections m1 @ cs" "m_send_type m' = m_send_type m1"
      "\<forall>c \<in> set cs. m_timeout c = t * 1000000"
      "subseq (map target_of cs) (List.map_filter entry_target (split_string host_list CHR '';''))"
      "(\<And>h. ret_val (env h New_client) \<noteq> 0) \<Longrightarrow>
         map target_of cs = List.map_filter entry_target (split_string host_list CHR '';'')"
    using add_hosts_targets [OF assms(1) f] by metis
  then have "m_connections m' = cs" "m_send_type m' = (if ty = 0 then 0 else 1)" using assms(3) by (simp_all add: m1_def)
  moreover have "\<forall>fd. sockets_out fd w' = sockets_out fd w + pool_held fd m'"
    using kept assms(3) by (simp add: keeps_pool_def pool_held_def)
  ultimately show ?thesis using run kept again cs(3-5) entries_render by auto
qed

theorem mgr_init_targets_witness:
  "\<exists>m' w'. mgr_init sample_kernel start_world client_mgr_init ''h:80;g:81'' 7 5 = (0, m', w')
     \<and> map target_of (m_connections m') = [(''h'', ''80''), (''g'', ''81'')]"
proof -
  let ?hosts = "[(''h'', ''80''), (''g'', ''81'')]"
  have r: "''h:80;g:81'' = render_hosts ?hosts" by (simp add: render_hosts_def)
  have p: "list_all plain_target ?hosts" by (simp add: plain_target_def)
  have memory: "\<forall>h. ret_val (sample_kernel h New_client) \<noteq> 0" by (simp add: sample_kernel_def)
  have "m_connections client_mgr_init = []" by (simp add: client_mgr_init_def)
  then obtain m' w' where "mgr_init sample_kernel start_world client_mgr_init ''h:80;g:81'' 7 5 = (0, m', w')"
    and "\<forall>hosts. list_all plain_target hosts \<and> ''h:80;g:81'' = render_hosts hosts \<longrightarrow> map target_of (m_connections m') = hosts"
    using mgr_init_targets [OF sample_kernel_ok mgr_ok_init, of "''h:80;g:81''" start_world 7 5] memory by auto
  with p r show ?thesis by blast
qed

text \<open>
  C23: Over any sequence of calls on a pool, on any kernel, no call faults (every index is inside the
  vector), the counters stay in step with the vector, and for each descriptor the number of times
  \<open>socket\<close> returned it less the number of times it was closed is the number of connections that hold it, so
  that no socket leaks and none is closed twice; \<open>uninit\<close>, as the destructor runs it, succeeds and leaves none.
\<close>

theorem pool_no_fault_no_leak:
  assumes "kernel_ok env" and "list_all op_small ops"
    and "foldl (mgr_step fuel env) (w0, client_mgr_init) ops = (w, m)"
  shows "mgr_ok m \<and> (\<forall>fd. sockets_out fd w = sockets_out fd w0 + pool_held fd m)
    \<and> (\<forall>x e. op_small x \<longrightarrow> mgr_call fuel env w m x \<noteq> Some (Inl e))
    \<and> (\<exists>m' w'. mgr_uninit env w m = Inr (0, m', w') \<and> m_connections m' = []
         \<and> (\<forall>fd. sockets_out fd w' = sockets_out fd w0))"
proof -
  have z: "pool_held fd client_mgr_init = 0" for fd by (simp add: pool_held_def client_mgr_init_def)
  have ok: "mgr_ok m" and lev: "sockets_out fd w = sockets_out fd w0 + pool_held fd m" for fd
    using pool.run [where env = env and fuel = fuel and s = "(w0, client_mgr_init)" and xs = ops and fd = fd] assms z
    by (simp_all add: diff_eq_eq)
  have "mgr_call fuel env w m x \<noteq> Some (Inl e)" if "op_small x" for x e
    using mgr_call_kept [OF assms(1) ok that, of w fuel] by (auto simp: pool_kept_def)
  moreover obtain m' w' where "mgr_uninit env w m = Inr (0, m', w') \<and> m_connections m' = []
      \<and> (\<forall>fd. sockets_out fd w' = sockets_out fd w - pool_held fd m)"
    using mgr_uninit_ok [OF ok, of env w] by blast
  ultimately show ?thesis using ok lev by auto
qed

theorem pool_no_fault_no_leak_witness:
  "let (w, m) = foldl (mgr_step 5 sample_kernel) (start_world, client_mgr_init)
       [M_init ''h:80;bad;g:81'' 2 5, M_send (Some [1, 2]) 2, M_check, M_close 1]
   in mgr_ok m \<and> (\<forall>fd. sockets_out fd w = pool_held fd m)"
proof -
  let ?ops = "[M_init ''h:80;bad;g:81'' 2 5, M_send (Some [1, 2]) 2, M_check, M_close 1]"
  have z: "sockets_out fd start_world = 0" for fd by (simp add: sockets_out_def start_world_def)
  let ?s = "foldl (mgr_step 5 sample_kernel) (start_world, client_mgr_init) ?ops"
  have "list_all op_small ?ops" by simp
  from pool_no_fault_no_leak [OF sample_kernel_ok this prod.collapse [symmetric], of 5 start_world]
  have "mgr_ok (snd ?s) \<and> (\<forall>fd. sockets_out fd (fst ?s) = pool_held fd (snd ?s))" unfolding z add_0 by blast
  then show ?thesis unfolding Let_def split_beta .
qed

end
