(* ===== verification/Utils.thy ===== *)
theory Utils
  imports Prelude
begin

text \<open>
  The numeric helpers of \<open>utils.h\<close> on the 64-bit \<open>unsigned long\<close>: the power-of-two test
  and \<open>roundup_pow_of_two\<close>, with what they compute.
\<close>

definition is_power_of_2 :: "u64 \<Rightarrow> bool" where
  "is_power_of_2 n \<longleftrightarrow> n \<noteq> 0 \<and> (n AND (n - 1)) = 0"

text \<open>The compiler's \<open>__builtin_clzl\<close>: the number of zero bits above the highest set bit.\<close>

fun clz_from :: "u64 \<Rightarrow> nat \<Rightarrow> nat" where
  "clz_from n 0 = 0"
| "clz_from n (Suc i) = (if bit n i then 0 else Suc (clz_from n i))"

definition builtin_clzl :: "u64 \<Rightarrow> nat" where
  "builtin_clzl n = clz_from n 64"

definition roundup_pow_of_two :: "u64 \<Rightarrow> u64" where
  "roundup_pow_of_two n =
     (if n = 0 then 0
      else let left_zero_count = builtin_clzl n
           in push_bit (8 * 8 - left_zero_count - 1) 1)"

section \<open>The highest set bit\<close>

lemma bit_unat: "bit (n :: u64) i \<longleftrightarrow> odd (unat n div 2 ^ i)"
proof -
  have "bit n i \<longleftrightarrow> bit (unat n) i"
    by (auto simp: bit_unsigned_iff bit_imp_le_length)
  then show ?thesis by (simp add: bit_iff_odd)
qed

lemma clz_from_bounds:
  "unat n < 2 ^ i \<Longrightarrow> n \<noteq> 0 \<Longrightarrow>
   clz_from n i < i \<and> 2 ^ (i - 1 - clz_from n i) \<le> unat n \<and> unat n < 2 ^ (i - clz_from n i)"
proof (induction i)
  case 0
  then show ?case by (simp add: unat_eq_zero)
next
  case (Suc i)
  show ?case
  proof (cases "bit n i")
    case True
    then have "unat n div 2 ^ i \<noteq> 0" by (metis bit_unat even_zero)
    then have "2 ^ i \<le> unat n" by (meson div_less not_le)
    with True Suc.prems show ?thesis by simp
  next
    case False
    have "unat n div 2 ^ i < 2"
      using Suc.prems(1) by (simp add: less_mult_imp_div_less)
    moreover have "even (unat n div 2 ^ i)" using False by (simp add: bit_unat)
    ultimately have "unat n div 2 ^ i = 0" by (cases "unat n div 2 ^ i") auto
    then have "unat n < 2 ^ i" by (simp add: div_eq_0_iff)
    with Suc False show ?thesis by simp
  qed
qed

lemma clzl_bounds:
  assumes "n \<noteq> 0"
  shows "builtin_clzl n < 64" and "2 ^ (63 - builtin_clzl n) \<le> unat n"
    and "unat n < 2 ^ (64 - builtin_clzl n)"
proof -
  have "unat n < 2 ^ 64" using unsigned_less [of n] by simp
  from clz_from_bounds [OF this assms]
  show "builtin_clzl n < 64" "2 ^ (63 - builtin_clzl n) \<le> unat n"
    "unat n < 2 ^ (64 - builtin_clzl n)"
    by (simp_all add: builtin_clzl_def)
qed

lemma unat_exp64: "k < 64 \<Longrightarrow> unat (2 ^ k :: u64) = 2 ^ k"
proof -
  assume k: "k < 64"
  have "(2::nat) ^ k < 2 ^ 64" by (rule power_strict_increasing) (use k in simp_all)
  then show ?thesis using unat_of_nat [of "2 ^ k", where ?'a = 64] by simp
qed

lemma roundup_exp:
  assumes "n \<noteq> 0"
  obtains k where "k < 64" and "roundup_pow_of_two n = 2 ^ k"
    and "2 ^ k \<le> unat n" and "unat n < 2 ^ (k + 1)"
proof -
  let ?k = "63 - builtin_clzl n"
  note b = clzl_bounds [OF assms]
  have "roundup_pow_of_two n = 2 ^ ?k"
    using assms b(1) by (simp add: roundup_pow_of_two_def Let_def push_bit_eq_mult)
  moreover have "?k + 1 = 64 - builtin_clzl n" using b(1) by simp
  then have "unat n < 2 ^ (?k + 1)" using b(3) by metis
  ultimately show thesis using that [of ?k] b(2) by simp
qed

section \<open>Powers of two\<close>

lemma is_power_of_2_exp: "k < 64 \<Longrightarrow> is_power_of_2 (2 ^ k)"
proof -
  assume k: "k < 64"
  have "(2 ^ k AND (2 ^ k - 1) :: u64) = take_bit k (2 ^ k)"
    by (simp add: take_bit_eq_mask mask_eq_exp_minus_1)
  also have "\<dots> = 0" by (rule bit_word_eqI) (simp add: bit_simps)
  finally show ?thesis
    using k by (simp add: is_power_of_2_def exp_eq_zero_iff)
qed

lemma is_power_of_2_expD:
  assumes "is_power_of_2 n"
  obtains k where "k < 64" and "n = 2 ^ k"
proof -
  from assms have n0: "n \<noteq> 0" and and0: "n AND (n - 1) = 0"
    by (simp_all add: is_power_of_2_def)
  from roundup_exp [OF n0] obtain k where k: "k < 64" "2 ^ k \<le> unat n" "unat n < 2 ^ (k + 1)"
    by blast
  have "n = 2 ^ k"
  proof (rule ccontr)
    assume "n \<noteq> 2 ^ k"
    then have "unat n \<noteq> 2 ^ k"
      using k(1) unat_exp64 [of k] by (metis word_unat_eq_iff)
    moreover have "unat (n - 1) = unat n - 1"
      using n0 by (metis unat_minus_one)
    ultimately have "unat (n - 1) div 2 ^ k = 1" and "unat n div 2 ^ k = 1"
      using k by (auto intro!: div_nat_eqI)
    then have "bit (n AND (n - 1)) k"
      unfolding bit_and_iff by (simp add: bit_unat)
    with and0 show False by simp
  qed
  with k(1) show thesis using that by blast
qed

lemma is_power_of_2_iff: "is_power_of_2 n \<longleftrightarrow> (\<exists>k<64. unat n = 2 ^ k)"
proof
  assume "is_power_of_2 n"
  then show "\<exists>k<64. unat n = 2 ^ k"
    by (metis is_power_of_2_expD unat_exp64)
next
  assume "\<exists>k<64. unat n = 2 ^ k"
  then obtain k where "k < 64" "unat n = 2 ^ k" by blast
  then have "n = 2 ^ k" by (metis unat_exp64 word_unat_eq_iff)
  with \<open>k < 64\<close> show "is_power_of_2 n" by (simp add: is_power_of_2_exp)
qed

text \<open>Masking with \<open>size - 1\<close> is reduction modulo a power-of-two size.\<close>

lemma unat_and_mask:
  assumes "is_power_of_2 n"
  shows "unat (x AND (n - 1)) = unat x mod unat n"
proof -
  from assms obtain k where k: "k < 64" "n = 2 ^ k" by (rule is_power_of_2_expD)
  then have "x AND (n - 1) = take_bit k x"
    by (simp add: take_bit_eq_mask mask_eq_exp_minus_1)
  then have "unat (x AND (n - 1)) = take_bit k (unat x)"
    by (simp add: unsigned_take_bit_eq)
  with k show ?thesis by (simp add: take_bit_eq_mod unat_exp64)
qed

lemma pow2_dvd_word: "is_power_of_2 n \<Longrightarrow> unat n dvd 2 ^ 64"
  by (metis is_power_of_2_iff le_imp_power_dvd less_imp_le)

lemma unat_add_and_mask:
  assumes "is_power_of_2 n"
  shows "unat ((x + of_nat i) AND (n - 1)) = (unat x + i) mod unat n"
proof -
  have "unat ((x + of_nat i) AND (n - 1)) = unat (x + of_nat i) mod unat n"
    by (rule unat_and_mask [OF assms])
  also have "unat (x + of_nat i) = (unat x + i) mod 2 ^ 64"
    by (simp add: unat_word_ariths unat_of_nat mod_simps)
  also have "(unat x + i) mod 2 ^ 64 mod unat n = (unat x + i) mod unat n"
    using pow2_dvd_word [OF assms] by (rule mod_mod_cancel)
  finally show ?thesis .
qed

end
