(* ===== verification/Ring_Buffer.thy ===== *)
theory Ring_Buffer
  imports Utils
begin

text \<open>
  The single-producer single-consumer ring of \<open>ring_buffer.h\<close> and \<open>ring_buffer.cpp\<close>:
  its state, every operation of the class, the queue of bytes it stands for, and the
  interface \<open>byte_ring\<close> its clients rely on.

  The block a pointer refers to is part of the state (\<open>None\<close> is the null pointer); the
  allocator is an environment, so its calls are recorded in a history. The indices are
  64-bit words that only ever grow and wrap around, as in the code.
\<close>

section \<open>State and operations\<close>

datatype mem_call =
    Posix_memalign u64
  | Mmap u64
  | Mem_free "byte list option"
  | Munmap "byte list option" u64

type_synonym mem_env = "(mem_call, byte list option) env"
type_synonym mem_history = "(mem_call, byte list option) history"

record ring_buffer =
  m_buffer :: "byte list option"
  m_size :: u64
  m_in :: u64
  m_out :: u64
  m_shared :: bool

definition ring_buffer_init :: ring_buffer where
  "ring_buffer_init = \<lparr>m_buffer = None, m_size = 0, m_in = 0, m_out = 0, m_shared = False\<rparr>"

definition ring_buffer_reset :: "ring_buffer \<Rightarrow> ring_buffer" where
  "ring_buffer_reset rb = rb\<lparr>m_in := 0, m_out := 0\<rparr>"

definition ring_buffer_size :: "ring_buffer \<Rightarrow> u64" where
  "ring_buffer_size rb = m_size rb"

definition ring_buffer_readable_size :: "ring_buffer \<Rightarrow> u64" where
  "ring_buffer_readable_size rb = m_in rb - m_out rb"

definition get_shared :: "ring_buffer \<Rightarrow> bool" where
  "get_shared rb = m_shared rb"

definition set_shared :: "ring_buffer \<Rightarrow> bool \<Rightarrow> ring_buffer" where
  "set_shared rb shared = (if m_buffer rb \<noteq> None then rb else rb\<lparr>m_shared := shared\<rparr>)"

definition ring_buffer_alloc ::
  "mem_env \<Rightarrow> mem_history \<Rightarrow> ring_buffer \<Rightarrow> u64 \<Rightarrow> u64 \<times> ring_buffer \<times> mem_history" where
  "ring_buffer_alloc env h rb sz =
     (let rounded = (if is_power_of_2 sz then sz else roundup_pow_of_two sz)
      in if \<not> is_power_of_2 sz \<and> rounded = 0 then (0, rb, h)
         else let (p, h') = invoke env h (if \<not> m_shared rb then Posix_memalign rounded else Mmap rounded)
              in case p of
                   None \<Rightarrow> (0, rb\<lparr>m_buffer := None\<rparr>, h')
                 | Some b \<Rightarrow> (rounded, ring_buffer_reset (rb\<lparr>m_buffer := Some b, m_size := rounded\<rparr>), h'))"

definition ring_buffer_free ::
  "mem_env \<Rightarrow> mem_history \<Rightarrow> ring_buffer \<Rightarrow> ring_buffer \<times> mem_history" where
  "ring_buffer_free env h rb =
     (let (_, h') = invoke env h (if \<not> m_shared rb then Mem_free (m_buffer rb)
                                  else Munmap (m_buffer rb) (m_size rb))
      in ((ring_buffer_reset rb)\<lparr>m_buffer := None\<rparr>, h'))"

definition ring_buffer_write ::
  "ring_buffer \<Rightarrow> byte list option \<Rightarrow> u64 \<Rightarrow> fault + (u64 \<times> ring_buffer)" where
  "ring_buffer_write rb buffer len0 =
     (let len = min len0 (m_size rb - m_in rb + m_out rb);
          off = m_in rb AND (m_size rb - 1);
          l = min len (m_size rb - off)
      in bind_err (memcpy (m_buffer rb) (unat off) buffer 0 (unat l)) (\<lambda>b1.
         bind_err (memcpy b1 0 buffer (unat l) (unat (len - l))) (\<lambda>b2.
         Inr (len, rb\<lparr>m_buffer := b2, m_in := m_in rb + len\<rparr>))))"

definition ring_buffer_read ::
  "ring_buffer \<Rightarrow> byte list option \<Rightarrow> u64 \<Rightarrow> fault + (u64 \<times> byte list option \<times> ring_buffer)" where
  "ring_buffer_read rb buffer len0 =
     (let len = min len0 (m_in rb - m_out rb);
          off = m_out rb AND (m_size rb - 1);
          l = min len (m_size rb - off)
      in bind_err (memcpy buffer 0 (m_buffer rb) (unat off) (unat l)) (\<lambda>d1.
         bind_err (memcpy d1 (unat l) (m_buffer rb) 0 (unat (len - l))) (\<lambda>d2.
         Inr (len, d2, rb\<lparr>m_out := m_out rb + len\<rparr>))))"

section \<open>Invariant and abstraction\<close>

text \<open>The block position of the byte with index \<open>i\<close> after the read index.\<close>

definition ring_slot :: "u64 \<Rightarrow> u64 \<Rightarrow> nat \<Rightarrow> nat" where
  "ring_slot sz start i = unat ((start + of_nat i) AND (sz - 1))"

definition rb_ok :: "ring_buffer \<Rightarrow> bool" where
  "rb_ok rb \<longleftrightarrow> (case m_buffer rb of None \<Rightarrow> False | Some b \<Rightarrow> length b = unat (m_size rb))
     \<and> is_power_of_2 (m_size rb) \<and> m_in rb - m_out rb \<le> m_size rb"

definition rb_bytes :: "ring_buffer \<Rightarrow> byte list" where
  "rb_bytes rb = (case m_buffer rb of None \<Rightarrow> []
     | Some b \<Rightarrow> map (\<lambda>i. b ! ring_slot (m_size rb) (m_out rb) i) [0..<unat (m_in rb - m_out rb)])"

definition rb_free :: "ring_buffer \<Rightarrow> nat" where
  "rb_free rb = unat (m_size rb) - length (rb_bytes rb)"

section \<open>Copying around the end of a block\<close>

lemma circ_blit_length [block_simps]:
  assumes "p < length b" and "length xs \<le> length b" and "l = min (length xs) (length b - p)"
  shows "length (blit 0 (drop l xs) (blit p (take l xs) b)) = length b"
  using assms by (simp add: length_blit)

lemma mod_offset:
  assumes "(j::nat) < n" and "p < n"
  shows "(j + n - p) mod n = (if p \<le> j then j - p else j + n - p)"
proof (cases "p \<le> j")
  case True
  then have "j + n - p = (j - p) + n" by simp
  then have "(j + n - p) mod n = (j - p) mod n" by simp
  with True assms show ?thesis by simp
next
  case False
  with assms show ?thesis by simp
qed

lemma circ_blit_nth:
  assumes "p < length b" and "length xs \<le> length b" and "l = min (length xs) (length b - p)"
    and "j < length b"
  shows "blit 0 (drop l xs) (blit p (take l xs) b) ! j =
         (if (j + length b - p) mod length b < length xs
          then xs ! ((j + length b - p) mod length b) else b ! j)"
  using assms by (auto simp: nth_blit length_blit mod_offset min_def add.commute)

lemma circ_read:
  assumes "p < length b" and "len \<le> length b" and "l = min len (length b - p)"
  shows "take l (drop p b) @ take (len - l) b = map (\<lambda>i. b ! ((p + i) mod length b)) [0..<len]"
proof (rule nth_equalityI)
  show "length (take l (drop p b) @ take (len - l) b) =
        length (map (\<lambda>i. b ! ((p + i) mod length b)) [0..<len])"
    using assms by simp
next
  fix i
  assume "i < length (take l (drop p b) @ take (len - l) b)"
  then have i: "i < len" using assms by simp
  show "(take l (drop p b) @ take (len - l) b) ! i = map (\<lambda>i. b ! ((p + i) mod length b)) [0..<len] ! i"
  proof (cases "p + i < length b")
    case True
    with assms i show ?thesis by (auto simp: nth_append min_def)
  next
    case False
    then have "(p + i) mod length b = p + i - length b"
      using assms i by (simp add: mod_if)
    with False assms i show ?thesis by (auto simp: nth_append min_def add.commute)
  qed
qed

text \<open>The block position a cyclic offset away from the write position, seen from it.\<close>

lemma mod_distance:
  assumes "(n::nat) > 0" and "i < n" and "c \<le> n"
  shows "((x + i) mod n + n - (x + c) mod n) mod n = (if c \<le> i then i - c else n + i - c)"
proof -
  have "int (((x + i) mod n + n - (x + c) mod n) mod n) = (int (x + i) mod int n + int n - int (x + c) mod int n) mod int n"
    using mod_le_divisor [OF assms(1), of "x + c"] by (simp add: of_nat_diff zmod_int trans_le_add2)
  also have "\<dots> = (int (x + i) mod int n + (int n - int (x + c) mod int n)) mod int n"
    by (simp only: add_diff_eq)
  also have "\<dots> = (int (x + i) + (int n - int (x + c))) mod int n"
    by (metis mod_add_left_eq mod_add_right_eq mod_diff_right_eq)
  also have "\<dots> = ((int i - int c) + int n) mod int n"
    by (simp add: algebra_simps)
  also have "\<dots> = (int i - int c) mod int n"
    by simp
  also have "\<dots> = int (if c \<le> i then i - c else n + i - c)"
  proof (cases "c \<le> i")
    case True
    with assms show ?thesis by (simp add: of_nat_diff)
  next
    case False
    then have "(int i - int c) mod int n = (int i - int c + int n) mod int n" by simp
    also have "\<dots> = int i - int c + int n"
      using False assms by (intro mod_pos_pos_trivial) auto
    finally show ?thesis using False assms by (simp add: of_nat_diff)
  qed
  finally show ?thesis by (simp only: of_nat_eq_iff)
qed

section \<open>Writing appends, reading removes from the front\<close>

lemma rb_okE:
  assumes "rb_ok rb"
  obtains b where "m_buffer rb = Some b" and "length b = unat (m_size rb)"
    and "is_power_of_2 (m_size rb)" and "unat (m_in rb - m_out rb) \<le> unat (m_size rb)"
    and "0 < unat (m_size rb)"
  using assms
  by (auto simp: rb_ok_def word_le_nat_alt is_power_of_2_def unat_gt_0 split: option.splits)

lemma length_rb_bytes: "rb_ok rb \<Longrightarrow> length (rb_bytes rb) = unat (m_in rb - m_out rb)"
  by (auto elim!: rb_okE simp: rb_bytes_def)

lemma readable_length: "rb_ok rb \<Longrightarrow> unat (ring_buffer_readable_size rb) = length (rb_bytes rb)"
  by (simp add: ring_buffer_readable_size_def length_rb_bytes)

lemma rb_bytes_bound: "rb_ok rb \<Longrightarrow> length (rb_bytes rb) \<le> unat (m_size rb)"
  by (auto elim!: rb_okE simp: length_rb_bytes)

lemma unat_min: "unat (min a b :: u64) = min (unat a) (unat b)"
  by (simp add: min_def word_le_nat_alt)

lemma write_space:
  assumes "rb_ok rb"
  shows "unat (m_size rb - m_in rb + m_out rb) = rb_free rb"
proof -
  have "m_size rb - m_in rb + m_out rb = m_size rb - (m_in rb - m_out rb)" by simp
  moreover have "m_in rb - m_out rb \<le> m_size rb" using assms by (simp add: rb_ok_def)
  ultimately show ?thesis
    using assms by (simp only: unat_sub) (simp add: rb_free_def length_rb_bytes)
qed

lemma ring_slot_mod: "is_power_of_2 n \<Longrightarrow> ring_slot n x i = (unat x + i) mod unat n"
  by (simp add: ring_slot_def unat_add_and_mask)

lemma ring_slot_less: "is_power_of_2 n \<Longrightarrow> ring_slot n x i < unat n"
  by (simp add: ring_slot_mod is_power_of_2_def unat_gt_0)

lemma ring_slot_distance:
  assumes "is_power_of_2 n" and "i < unat n" and "unat c \<le> unat n"
  shows "(ring_slot n x i + unat n - ring_slot n (x + c) 0) mod unat n
         = (if unat c \<le> i then i - unat c else unat n + i - unat c)"
proof -
  have "ring_slot n (x + c) 0 = ring_slot n x (unat c)"
    by (simp add: ring_slot_def)
  with mod_distance [of "unat n" i "unat c" "unat x"] assms show ?thesis
    by (simp add: ring_slot_mod is_power_of_2_def unat_gt_0)
qed

definition circ_write :: "nat \<Rightarrow> byte list \<Rightarrow> byte list \<Rightarrow> byte list" where
  "circ_write p ys b = (let l = min (length ys) (length b - p)
     in blit 0 (drop l ys) (blit p (take l ys) b))"

lemma length_circ_write:
  "p < length b \<Longrightarrow> length ys \<le> length b \<Longrightarrow> length (circ_write p ys b) = length b"
  unfolding circ_write_def Let_def by (rule circ_blit_length) simp_all

lemma circ_write_slot:
  assumes "is_power_of_2 n" and "length b = unat n" and "unat c + length ys \<le> unat n" and "i < unat n"
  shows "circ_write (ring_slot n (x + c) 0) ys b ! ring_slot n x i =
         (if unat c \<le> i \<and> i - unat c < length ys then ys ! (i - unat c) else b ! ring_slot n x i)"
proof -
  let ?p = "ring_slot n (x + c) 0"
  have d: "(ring_slot n x i + unat n - ?p) mod unat n = (if unat c \<le> i then i - unat c else unat n + i - unat c)"
    using assms by (intro ring_slot_distance) simp_all
  have "circ_write ?p ys b ! ring_slot n x i =
        (if (ring_slot n x i + length b - ?p) mod length b < length ys
         then ys ! ((ring_slot n x i + length b - ?p) mod length b) else b ! ring_slot n x i)"
    unfolding circ_write_def Let_def
    by (rule circ_blit_nth) (use assms ring_slot_less in simp_all)
  with d assms show ?thesis by auto
qed

lemma circ_write_slots:
  assumes "is_power_of_2 n" and "length b = unat n" and "unat c + length ys \<le> unat n"
  shows "map (\<lambda>i. circ_write (ring_slot n (x + c) 0) ys b ! ring_slot n x i) [0..<unat c + length ys] =
         map (\<lambda>i. b ! ring_slot n x i) [0..<unat c] @ ys"
  by (rule nth_equalityI) (use assms in \<open>auto simp: circ_write_slot nth_append\<close>)

lemma ring_buffer_write_eq:
  assumes "rb_ok rb" and "m_buffer rb = Some b" and "unat len0 \<le> length xs"
  defines "len \<equiv> min len0 (m_size rb - m_in rb + m_out rb)"
  shows "ring_buffer_write rb (Some xs) len0 =
         Inr (len, rb\<lparr>m_buffer := Some (circ_write (ring_slot (m_size rb) (m_in rb) 0) (take (unat len) xs) b),
                      m_in := m_in rb + len\<rparr>)"
proof -
  let ?p = "m_in rb AND (m_size rb - 1)"
  let ?l = "min len (m_size rb - ?p)"
  from assms(1,2) have n: "length b = unat (m_size rb)" "is_power_of_2 (m_size rb)" "0 < unat (m_size rb)"
    by (auto elim!: rb_okE)
  have p: "unat ?p < unat (m_size rb)"
    using n by (simp add: unat_and_mask)
  then have np: "unat (m_size rb - ?p) = unat (m_size rb) - unat ?p"
    by (intro unat_sub) (simp add: word_le_nat_alt)
  have len: "unat len \<le> unat len0" "unat len \<le> unat (m_size rb)"
    using write_space [OF assms(1)] by (simp_all add: len_def unat_min rb_free_def)
  have l: "unat ?l = min (unat len) (length b - unat ?p)"
    by (simp add: unat_min np n)
  have dl: "unat (len - ?l) = unat len - unat ?l"
    by (intro unat_sub) simp
  have ys: "length (take (unat len) xs) = unat len" using len assms(3) by simp
  have "memcpy (Some b) (unat ?p) (Some xs) 0 (unat ?l) =
        Inr (Some (blit (unat ?p) (take (unat ?l) (take (unat len) xs)) b))"
    using p n l len assms(3) by (subst memcpy_ok) (auto simp: min_def)
  moreover have "memcpy (Some (blit (unat ?p) (take (unat ?l) (take (unat len) xs)) b)) 0 (Some xs) (unat ?l) (unat (len - ?l)) =
        Inr (Some (blit 0 (drop (unat ?l) (take (unat len) xs)) (blit (unat ?p) (take (unat ?l) (take (unat len) xs)) b)))"
    using p n l dl len assms(3)
    by (subst memcpy_ok) (auto simp: length_blit min_def drop_take)
  ultimately show ?thesis
    unfolding ring_buffer_write_def Let_def len_def [symmetric]
    using assms(2) l ys by (simp add: circ_write_def Let_def ring_slot_def)
qed

lemma ring_buffer_write_ok:
  assumes "rb_ok rb" and "unat len \<le> length xs"
  shows "\<exists>k rb'. ring_buffer_write rb (Some xs) len = Inr (k, rb')
           \<and> unat k = min (unat len) (rb_free rb) \<and> rb_ok rb' \<and> m_size rb' = m_size rb
           \<and> m_out rb' = m_out rb \<and> rb_bytes rb' = rb_bytes rb @ take (unat k) xs"
proof -
  from assms(1) obtain b where b: "m_buffer rb = Some b" "length b = unat (m_size rb)"
    "is_power_of_2 (m_size rb)" "unat (m_in rb - m_out rb) \<le> unat (m_size rb)" "0 < unat (m_size rb)"
    by (rule rb_okE)
  let ?k = "min len (m_size rb - m_in rb + m_out rb)"
  let ?c = "m_in rb - m_out rb"
  let ?ys = "take (unat ?k) xs"
  let ?b = "circ_write (ring_slot (m_size rb) (m_in rb) 0) ?ys b"
  let ?rb = "rb\<lparr>m_buffer := Some ?b, m_in := m_in rb + ?k\<rparr>"
  have k: "unat ?k = min (unat len) (rb_free rb)"
    using write_space [OF assms(1)] by (simp add: unat_min)
  then have ck: "unat ?c + unat ?k \<le> unat (m_size rb)"
    using b length_rb_bytes [OF assms(1)] by (simp add: rb_free_def)
  have ys: "length ?ys = unat ?k" using assms(2) k by simp
  have "unat ?c + unat ?k < 2 ^ 64"
    using ck u64_less [of "m_size rb"] by linarith
  then have sum: "unat (m_in rb + ?k - m_out rb) = unat ?c + unat ?k"
    using unat_add_lem [of ?c ?k] by (simp add: add_diff_eq diff_add_eq)
  have len: "length ?b = unat (m_size rb)"
    using b ck ys by (subst length_circ_write) (simp_all add: ring_slot_less)
  have "rb_ok ?rb"
    using b len ck sum by (simp add: rb_ok_def word_le_nat_alt)
  moreover have "rb_bytes ?rb = rb_bytes rb @ ?ys"
    using circ_write_slots [of "m_size rb" b ?c ?ys "m_out rb"] b ck ys sum
    by (simp add: rb_bytes_def)
  ultimately show ?thesis
    using ring_buffer_write_eq [OF assms(1) b(1) assms(2)] k
    by - (rule exI [of _ ?k], rule exI [of _ ?rb], simp)
qed

lemma ring_buffer_read_eq:
  assumes "rb_ok rb" and "unat len0 \<le> length dst"
  defines "len \<equiv> min len0 (m_in rb - m_out rb)"
  shows "ring_buffer_read rb (Some dst) len0 =
         Inr (len, Some (take (unat len) (rb_bytes rb) @ drop (unat len) dst),
              rb\<lparr>m_out := m_out rb + len\<rparr>)"
proof -
  let ?p = "m_out rb AND (m_size rb - 1)"
  let ?l = "min len (m_size rb - ?p)"
  from assms(1) obtain b where b: "m_buffer rb = Some b" "length b = unat (m_size rb)"
    "is_power_of_2 (m_size rb)" "unat (m_in rb - m_out rb) \<le> unat (m_size rb)" "0 < unat (m_size rb)"
    by (rule rb_okE)
  have p: "unat ?p < unat (m_size rb)"
    using b by (simp add: unat_and_mask)
  then have np: "unat (m_size rb - ?p) = unat (m_size rb) - unat ?p"
    by (intro unat_sub) (simp add: word_le_nat_alt)
  have len: "unat len \<le> unat len0" "unat len \<le> unat (m_size rb)" "unat len \<le> unat (m_in rb - m_out rb)"
    using b by (simp_all add: len_def unat_min)
  have l: "unat ?l = min (unat len) (length b - unat ?p)"
    by (simp add: unat_min np b)
  have dl: "unat (len - ?l) = unat len - unat ?l"
    by (intro unat_sub) simp
  have out: "take (unat ?l) (drop (unat ?p) b) @ take (unat len - unat ?l) b = take (unat len) (rb_bytes rb)"
  proof -
    have "take (unat ?l) (drop (unat ?p) b) @ take (unat len - unat ?l) b =
          map (\<lambda>i. b ! ((unat ?p + i) mod length b)) [0..<unat len]"
      by (rule circ_read) (use p b len l in simp_all)
    also have "\<dots> = map (\<lambda>i. b ! ring_slot (m_size rb) (m_out rb) i) [0..<unat len]"
      using b by (simp add: ring_slot_mod unat_and_mask mod_simps)
    also have "\<dots> = take (unat len) (rb_bytes rb)"
      using b len by (simp add: rb_bytes_def take_map)
    finally show ?thesis .
  qed
  let ?d1 = "blit 0 (take (unat ?l) (drop (unat ?p) b)) dst"
  have m1: "memcpy (Some dst) 0 (Some b) (unat ?p) (unat ?l) = Inr (Some ?d1)"
    using p b l len assms(2) by (subst memcpy_ok) (auto simp: min_def)
  have d1: "length ?d1 = length dst"
    using p b l len assms(2) by (subst length_blit) (auto simp: min_def)
  have m2: "memcpy (Some ?d1) (unat ?l) (Some b) 0 (unat (len - ?l)) =
        Inr (Some (blit (unat ?l) (take (unat (len - ?l)) b) ?d1))"
    using p b l dl d1 len assms(2) by (subst memcpy_ok) (auto simp: min_def)
  have "blit (unat ?l) (take (unat (len - ?l)) b) ?d1 = take (unat len) (rb_bytes rb) @ drop (unat len) dst"
    unfolding out [symmetric] dl using p b l len assms(2)
    by (auto simp: blit_def min_def)
  with m1 m2 show ?thesis
    unfolding ring_buffer_read_def Let_def len_def [symmetric]
    using b(1) by simp
qed

lemma advance_out:
  assumes "rb_ok rb" and "unat k \<le> length (rb_bytes rb)"
  shows "rb_ok (rb\<lparr>m_out := m_out rb + k\<rparr>)"
    and "rb_bytes (rb\<lparr>m_out := m_out rb + k\<rparr>) = drop (unat k) (rb_bytes rb)"
proof -
  from assms(1) obtain b where b: "m_buffer rb = Some b" "length b = unat (m_size rb)"
    "is_power_of_2 (m_size rb)" "unat (m_in rb - m_out rb) \<le> unat (m_size rb)" "0 < unat (m_size rb)"
    by (rule rb_okE)
  let ?c = "m_in rb - m_out rb"
  let ?rb = "rb\<lparr>m_out := m_out rb + k\<rparr>"
  have k: "unat k \<le> unat ?c" using assms by (simp add: length_rb_bytes)
  then have "unat (?c - k) = unat ?c - unat k"
    by (intro unat_sub) (simp add: word_le_nat_alt)
  then have rest: "unat (m_in rb - (m_out rb + k)) = unat ?c - unat k"
    by (simp only: diff_diff_add)
  show "rb_ok ?rb"
    using b rest by (simp add: rb_ok_def word_le_nat_alt)
  show "rb_bytes ?rb = drop (unat k) (rb_bytes rb)"
  proof (rule nth_equalityI)
    show "length (rb_bytes ?rb) = length (drop (unat k) (rb_bytes rb))"
      using b rest by (simp add: rb_bytes_def)
    fix i
    assume "i < length (rb_bytes ?rb)"
    then have "unat k + i < unat ?c" using b rest by (simp add: rb_bytes_def)
    then show "rb_bytes ?rb ! i = drop (unat k) (rb_bytes rb) ! i"
      using b rest by (simp add: rb_bytes_def ring_slot_def add.assoc)
  qed
qed

lemma in_out_sum:
  assumes "unat (a - b) + unat k < 2 ^ 64"
  shows "unat (a + k - b :: u64) = unat (a - b) + unat k"
  using assms unat_add_lem [of "a - b" k] by (simp add: add_diff_eq diff_add_eq)

lemma advance_in:
  assumes "rb_ok rb" and "m_buffer rb = Some b" and "length (rb_bytes rb) + unat k \<le> unat (m_size rb)"
  shows "rb_ok (rb\<lparr>m_in := m_in rb + k\<rparr>)"
    and "rb_bytes (rb\<lparr>m_in := m_in rb + k\<rparr>) =
         rb_bytes rb @ map (\<lambda>j. b ! ring_slot (m_size rb) (m_in rb) j) [0..<unat k]"
proof -
  let ?c = "m_in rb - m_out rb"
  let ?rb = "rb\<lparr>m_in := m_in rb + k\<rparr>"
  have ck: "unat ?c + unat k \<le> unat (m_size rb)"
    using assms by (simp add: length_rb_bytes)
  then have sum: "unat (m_in rb + k - m_out rb) = unat ?c + unat k"
    using u64_less [of "m_size rb"] by (intro in_out_sum) linarith
  show "rb_ok ?rb"
    using assms(1,2) ck sum by (simp add: rb_ok_def word_le_nat_alt)
  have "ring_slot (m_size rb) (m_out rb) (unat ?c + j) = ring_slot (m_size rb) (m_in rb) j" for j
    by (simp add: ring_slot_def)
  then have "map (\<lambda>j. b ! ring_slot (m_size rb) (m_out rb) j) [unat ?c..<unat ?c + unat k] =
             map (\<lambda>j. b ! ring_slot (m_size rb) (m_in rb) j) [0..<unat k]"
    by (intro nth_equalityI) simp_all
  then show "rb_bytes ?rb = rb_bytes rb @ map (\<lambda>j. b ! ring_slot (m_size rb) (m_in rb) j) [0..<unat k]"
    using assms(2) sum by (simp add: rb_bytes_def upt_add_eq_append [of 0])
qed

lemma ring_buffer_read_ok:
  assumes "rb_ok rb" and "unat len \<le> length dst"
  shows "\<exists>k rb'. ring_buffer_read rb (Some dst) len =
             Inr (k, Some (take (unat k) (rb_bytes rb) @ drop (unat k) dst), rb')
           \<and> unat k = min (unat len) (length (rb_bytes rb)) \<and> rb_ok rb' \<and> m_size rb' = m_size rb
           \<and> m_in rb' = m_in rb \<and> rb_bytes rb' = drop (unat k) (rb_bytes rb)"
proof -
  let ?k = "min len (m_in rb - m_out rb)"
  let ?rb = "rb\<lparr>m_out := m_out rb + ?k\<rparr>"
  have k: "unat ?k = min (unat len) (length (rb_bytes rb))"
    by (simp add: unat_min length_rb_bytes [OF assms(1)])
  then have "unat ?k \<le> length (rb_bytes rb)" by simp
  from advance_out [OF assms(1) this] show ?thesis
    using ring_buffer_read_eq [OF assms] k
    by - (rule exI [of _ ?k], rule exI [of _ ?rb], simp)
qed

section \<open>Allocation and release\<close>

text \<open>What the allocators promise: a block of the size that was asked for, or failure.\<close>

definition mem_ok :: "mem_env \<Rightarrow> bool" where
  "mem_ok env \<longleftrightarrow> (\<forall>h sz b. (env h (Posix_memalign sz) = Some b \<longrightarrow> length b = unat sz)
                        \<and> (env h (Mmap sz) = Some b \<longrightarrow> length b = unat sz))"

text \<open>An allocator that never fails and hands out zeroed blocks.\<close>

definition zero_mem :: mem_env where
  "zero_mem h c = (case c of Posix_memalign sz \<Rightarrow> Some (replicate (unat sz) 0)
     | Mmap sz \<Rightarrow> Some (replicate (unat sz) 0) | _ \<Rightarrow> None)"

lemma mem_ok_zero_mem: "mem_ok zero_mem"
  by (simp add: mem_ok_def zero_mem_def)

lemma pow2_roundup:
  assumes "sz \<noteq> 0"
  shows "is_power_of_2 (if is_power_of_2 sz then sz else roundup_pow_of_two sz)"
proof (cases "is_power_of_2 sz")
  case False
  obtain k where "k < 64" "roundup_pow_of_two sz = 2 ^ k"
    by (rule roundup_exp [OF assms])
  with False show ?thesis by (simp add: is_power_of_2_exp)
qed simp

lemma roundup_le: "unat (if is_power_of_2 sz then sz else roundup_pow_of_two sz) \<le> unat sz"
proof (cases "sz = 0")
  case True
  then show ?thesis by (simp add: roundup_pow_of_two_def)
next
  case False
  then obtain k where "k < 64" "roundup_pow_of_two sz = 2 ^ k" "2 ^ k \<le> unat sz"
    by (rule roundup_exp)
  then show ?thesis by (simp add: unat_exp64)
qed

lemma ring_buffer_alloc_cases:
  assumes "mem_ok env" and "ring_buffer_alloc env h rb sz = (r, rb', h')"
  shows "(r = 0 \<and> (rb' = rb \<or> m_buffer rb' = None))
       \<or> (r \<noteq> 0 \<and> unat r \<le> unat sz \<and> rb_ok rb' \<and> rb_bytes rb' = [] \<and> m_size rb' = r)"
proof (cases "sz = 0")
  case True
  with assms(2) show ?thesis
    by (simp add: ring_buffer_alloc_def is_power_of_2_def roundup_pow_of_two_def)
next
  case False
  let ?r = "if is_power_of_2 sz then sz else roundup_pow_of_two sz"
  have p: "is_power_of_2 ?r" using False by (rule pow2_roundup)
  then have "?r \<noteq> 0" by (simp add: is_power_of_2_def)
  with assms False p roundup_le [of sz] show ?thesis
    by (auto simp: ring_buffer_alloc_def invoke_def Let_def mem_ok_def ring_buffer_reset_def
        rb_ok_def rb_bytes_def split: option.splits if_splits)
qed

lemma ring_buffer_free_fields [simp]:
  "m_buffer (fst (ring_buffer_free env h rb)) = None"
  "m_in (fst (ring_buffer_free env h rb)) = 0"
  "m_out (fst (ring_buffer_free env h rb)) = 0"
  "m_size (fst (ring_buffer_free env h rb)) = m_size rb"
  "m_shared (fst (ring_buffer_free env h rb)) = m_shared rb"
  by (simp_all add: ring_buffer_free_def ring_buffer_reset_def invoke_def)

section \<open>The interface of a byte ring\<close>

text \<open>
  What a client may rely on: writing accepts as many bytes as there is room for and appends
  them, reading hands out bytes from the front, neither faults while the caller's own
  buffer is large enough.
\<close>

locale byte_ring =
  fixes ok :: "'q \<Rightarrow> bool"
    and contents :: "'q \<Rightarrow> byte list"
    and capacity :: "'q \<Rightarrow> u64"
    and put :: "'q \<Rightarrow> byte list option \<Rightarrow> u64 \<Rightarrow> fault + (u64 \<times> 'q)"
    and get :: "'q \<Rightarrow> byte list option \<Rightarrow> u64 \<Rightarrow> fault + (u64 \<times> byte list option \<times> 'q)"
  assumes bound: "ok q \<Longrightarrow> length (contents q) \<le> unat (capacity q)"
    and put_law: "ok q \<Longrightarrow> unat n \<le> length xs \<Longrightarrow>
      \<exists>k q'. put q (Some xs) n = Inr (k, q')
        \<and> unat k = min (unat n) (unat (capacity q) - length (contents q))
        \<and> ok q' \<and> capacity q' = capacity q \<and> contents q' = contents q @ take (unat k) xs"
    and get_law: "ok q \<Longrightarrow> unat n \<le> length dst \<Longrightarrow>
      \<exists>k q'. get q (Some dst) n =
          Inr (k, Some (take (unat k) (contents q) @ drop (unat k) dst), q')
        \<and> unat k = min (unat n) (length (contents q))
        \<and> ok q' \<and> capacity q' = capacity q \<and> contents q' = drop (unat k) (contents q)"
begin

lemma put_fits:
  assumes "ok q" and "unat n \<le> length xs" and "length (contents q) + unat n \<le> unat (capacity q)"
  shows "\<exists>q'. put q (Some xs) n = Inr (n, q') \<and> ok q' \<and> capacity q' = capacity q
           \<and> contents q' = contents q @ take (unat n) xs"
proof -
  from put_law [OF assms(1,2)] obtain k q' where
    "put q (Some xs) n = Inr (k, q')" "unat k = min (unat n) (unat (capacity q) - length (contents q))"
    "ok q'" "capacity q' = capacity q" "contents q' = contents q @ take (unat k) xs" by blast
  moreover from this(2) assms(3) have "k = n" by (simp add: word_unat_eq_iff)
  ultimately show ?thesis by blast
qed

lemma get_available:
  assumes "ok q" and "unat n \<le> length dst" and "unat n \<le> length (contents q)"
  shows "\<exists>q'. get q (Some dst) n = Inr (n, Some (take (unat n) (contents q) @ drop (unat n) dst), q')
           \<and> ok q' \<and> capacity q' = capacity q \<and> contents q' = drop (unat n) (contents q)"
proof -
  from get_law [OF assms(1,2)] obtain k q' where
    "get q (Some dst) n = Inr (k, Some (take (unat k) (contents q) @ drop (unat k) dst), q')"
    "unat k = min (unat n) (length (contents q))"
    "ok q'" "capacity q' = capacity q" "contents q' = drop (unat k) (contents q)" by blast
  moreover from this(2) assms(3) have "k = n" by (simp add: word_unat_eq_iff)
  ultimately show ?thesis by blast
qed

lemma put_get_roundtrip:
  assumes "ok q" and "contents q = []" and "unat n \<le> unat (capacity q)"
    and "unat n = length xs" and "unat n \<le> length dst"
  shows "\<exists>q1 q2. put q (Some xs) n = Inr (n, q1)
           \<and> get q1 (Some dst) n = Inr (n, Some (xs @ drop (length xs) dst), q2)
           \<and> ok q2 \<and> contents q2 = []"
proof -
  from put_fits [OF assms(1), of n xs] assms obtain q1 where
    q1: "put q (Some xs) n = Inr (n, q1)" "ok q1" "contents q1 = xs" by auto
  from get_available [OF q1(2) assms(5)] q1(3) assms(4) show ?thesis
    using q1 by auto
qed

end

interpretation ring: byte_ring rb_ok rb_bytes m_size ring_buffer_write ring_buffer_read
proof (unfold_locales, goal_cases)
  case (1 rb)
  then show ?case by (rule rb_bytes_bound)
next
  case (2 rb n xs)
  then show ?case
    using ring_buffer_write_ok [of rb n xs] unfolding rb_free_def by blast
next
  case (3 rb n dst)
  then show ?case
    using ring_buffer_read_ok [of rb n dst] by blast
qed

section \<open>Sequences of calls\<close>

text \<open>
  Any mix of writes and reads by one thread, each with the caller's own buffer. The run
  collects the bytes the ring accepted and the bytes it handed out.
\<close>

datatype ring_op = Op_write "byte list" u64 | Op_read "byte list" u64

fun ring_run :: "ring_buffer \<Rightarrow> ring_op list \<Rightarrow> fault + (byte list \<times> byte list \<times> ring_buffer)" where
  "ring_run rb [] = Inr ([], [], rb)"
| "ring_run rb (Op_write xs n # ops) =
     bind_err (ring_buffer_write rb (Some xs) n) (\<lambda>(k, rb1).
     bind_err (ring_run rb1 ops) (\<lambda>(accepted, delivered, rb2).
     Inr (take (unat k) xs @ accepted, delivered, rb2)))"
| "ring_run rb (Op_read dst n # ops) =
     bind_err (ring_buffer_read rb (Some dst) n) (\<lambda>(k, dst', rb1).
     bind_err (ring_run rb1 ops) (\<lambda>(accepted, delivered, rb2).
     Inr (accepted, (case dst' of Some d \<Rightarrow> take (unat k) d | None \<Rightarrow> []) @ delivered, rb2)))"

fun ring_op_ok :: "ring_op \<Rightarrow> bool" where
  "ring_op_ok (Op_write xs n) = (unat n \<le> length xs)"
| "ring_op_ok (Op_read dst n) = (unat n \<le> length dst)"

lemma ring_run_stream:
  "rb_ok rb \<Longrightarrow> list_all ring_op_ok ops \<Longrightarrow>
   \<exists>accepted delivered rb'. ring_run rb ops = Inr (accepted, delivered, rb') \<and> rb_ok rb'
     \<and> m_size rb' = m_size rb \<and> rb_bytes rb @ accepted = delivered @ rb_bytes rb'"
proof (induction ops arbitrary: rb)
  case Nil
  then show ?case by simp
next
  case (Cons op ops)
  show ?case
  proof (cases op)
    case (Op_write xs n)
    with Cons.prems ring.put_law [of rb n xs] obtain k rb1 where
      w: "ring_buffer_write rb (Some xs) n = Inr (k, rb1)" "rb_ok rb1" "m_size rb1 = m_size rb"
        "rb_bytes rb1 = rb_bytes rb @ take (unat k) xs" by auto
    with Cons.IH [of rb1] Cons.prems show ?thesis by (auto simp: Op_write)
  next
    case (Op_read dst n)
    with Cons.prems ring.get_law [of rb n dst] obtain k rb1 where
      r: "ring_buffer_read rb (Some dst) n = Inr (k, Some (take (unat k) (rb_bytes rb) @ drop (unat k) dst), rb1)"
        "unat k = min (unat n) (length (rb_bytes rb))" "rb_ok rb1" "m_size rb1 = m_size rb"
        "rb_bytes rb1 = drop (unat k) (rb_bytes rb)" by auto
    with Cons.IH [of rb1] Cons.prems obtain acc del rb2 where
      "ring_run rb1 ops = Inr (acc, del, rb2)" "rb_ok rb2" "m_size rb2 = m_size rb"
      "rb_bytes rb1 @ acc = del @ rb_bytes rb2" by auto
    moreover from this(4) have
      "take (unat k) (rb_bytes rb) @ drop (unat k) (rb_bytes rb) @ acc = (take (unat k) (rb_bytes rb) @ del) @ rb_bytes rb2"
      by (simp add: r(5))
    then have "rb_bytes rb @ acc = (take (unat k) (rb_bytes rb) @ del) @ rb_bytes rb2"
      by (metis append.assoc append_take_drop_id)
    ultimately show ?thesis
      using r by (auto simp: Op_read min_def)
  qed
qed

section \<open>Properties\<close>

text \<open>
  Starting from a freshly allocated ring, any sequence of writes and reads runs without a
  memory fault, never loses, duplicates, reorders or corrupts a byte (what was handed out
  is exactly a prefix of what was accepted, the rest being still in the ring), and never
  holds more than the allocated size, also when the 64-bit indices wrap around.
\<close>

lemma ring_stream_fifo:
  assumes "mem_ok env" and "ring_buffer_alloc env h rb0 sz = (r, rb, h')" and "r \<noteq> 0"
    and "list_all ring_op_ok ops"
  shows "\<exists>accepted delivered rb'. ring_run rb ops = Inr (accepted, delivered, rb')
           \<and> accepted = delivered @ rb_bytes rb' \<and> length (rb_bytes rb') \<le> unat r"
proof -
  from ring_buffer_alloc_cases [OF assms(1,2)] assms(3)
  have rb: "rb_ok rb" "rb_bytes rb = []" "m_size rb = r" by auto
  from ring_run_stream [OF rb(1) assms(4)] obtain acc del rb' where
    "ring_run rb ops = Inr (acc, del, rb')" "rb_ok rb'" "m_size rb' = m_size rb"
    "rb_bytes rb @ acc = del @ rb_bytes rb'" by blast
  with ring.bound [of rb'] rb show ?thesis by auto
qed

lemma ring_stream_fifo_witness:
  "\<exists>accepted delivered rb'.
     ring_run (fst (snd (ring_buffer_alloc zero_mem [] ring_buffer_init 4)))
       [Op_write [1, 2, 3] 3, Op_read [0, 0] 2, Op_write [4, 5, 6] 3] = Inr (accepted, delivered, rb')
     \<and> accepted = delivered @ rb_bytes rb' \<and> length (rb_bytes rb') \<le> unat (4 :: u64)"
proof -
  let ?a = "ring_buffer_alloc zero_mem [] ring_buffer_init 4"
  have "?a = (4, fst (snd ?a), snd (snd ?a))"
    by (simp add: ring_buffer_alloc_def is_power_of_2_def invoke_def zero_mem_def ring_buffer_init_def)
  then show ?thesis
    by (rule ring_stream_fifo [OF mem_ok_zero_mem]) simp_all
qed

text \<open>
  On a well-formed ring a write accepts as many bytes as are asked for and fit, appends
  exactly those, and a following read of that many bytes into a large enough buffer returns
  the bytes that were waiting before them, then theirs; the ring stays well-formed.
\<close>

lemma ring_write_then_read:
  assumes "rb_ok rb" and "unat n \<le> length xs" and "length (rb_bytes rb) + unat n \<le> length dst"
  shows "\<exists>k rb1 rb2. ring_buffer_write rb (Some xs) n = Inr (k, rb1)
           \<and> unat k = min (unat n) (unat (ring_buffer_size rb) - unat (ring_buffer_readable_size rb))
           \<and> rb_ok rb1 \<and> rb_bytes rb1 = rb_bytes rb @ take (unat k) xs
           \<and> ring_buffer_read rb1 (Some dst) (ring_buffer_readable_size rb1) =
               Inr (ring_buffer_readable_size rb1,
                    Some (rb_bytes rb @ take (unat k) xs @ drop (length (rb_bytes rb) + unat k) dst), rb2)
           \<and> rb_ok rb2 \<and> rb_bytes rb2 = []"
proof -
  from ring.put_law [OF assms(1,2)] obtain k rb1 where
    w: "ring_buffer_write rb (Some xs) n = Inr (k, rb1)"
      "unat k = min (unat n) (unat (m_size rb) - length (rb_bytes rb))"
      "rb_ok rb1" "rb_bytes rb1 = rb_bytes rb @ take (unat k) xs" by blast
  let ?m = "ring_buffer_readable_size rb1"
  have m: "unat ?m = length (rb_bytes rb) + unat k"
    using readable_length [OF w(3)] w(2,4) assms(2) by simp
  then have "unat ?m \<le> length dst" and "unat ?m = length (rb_bytes rb1)"
    using w(2,4) assms(2,3) by simp_all
  with ring.get_available [OF w(3), of ?m dst] obtain rb2 where
    "ring_buffer_read rb1 (Some dst) ?m = Inr (?m, Some (take (unat ?m) (rb_bytes rb1) @ drop (unat ?m) dst), rb2)"
    "rb_ok rb2" "rb_bytes rb2 = drop (unat ?m) (rb_bytes rb1)" by auto
  with w m \<open>unat ?m = length (rb_bytes rb1)\<close> readable_length [OF assms(1)] show ?thesis
    by (intro exI [of _ k] exI [of _ rb1] exI [of _ rb2]) (simp add: ring_buffer_size_def)
qed

text \<open>A full ring of two bytes whose write index has just wrapped around 64 bits.\<close>

definition wrapped_ring :: ring_buffer where
  "wrapped_ring = \<lparr>m_buffer = Some [7, 8], m_size = 2, m_in = 0, m_out = - 1, m_shared = False\<rparr>"

lemma ring_write_then_read_witness:
  "\<exists>k rb1 rb2. ring_buffer_write wrapped_ring (Some [9]) 1 = Inr (k, rb1)
     \<and> unat k = min 1 (unat (ring_buffer_size wrapped_ring) - unat (ring_buffer_readable_size wrapped_ring))
     \<and> rb_ok rb1 \<and> rb_bytes rb1 = rb_bytes wrapped_ring @ take (unat k) [9]
     \<and> ring_buffer_read rb1 (Some [0, 0]) (ring_buffer_readable_size rb1) =
         Inr (ring_buffer_readable_size rb1,
              Some (rb_bytes wrapped_ring @ take (unat k) [9] @ drop (length (rb_bytes wrapped_ring) + unat k) [0, 0]), rb2)
     \<and> rb_ok rb2 \<and> rb_bytes rb2 = []"
proof -
  have "rb_ok wrapped_ring"
    by (simp add: rb_ok_def wrapped_ring_def is_power_of_2_def)
  moreover have "length (rb_bytes wrapped_ring) = 1"
    by (simp add: rb_bytes_def wrapped_ring_def)
  ultimately show ?thesis
    using ring_write_then_read [of wrapped_ring 1 "[9]" "[0, 0]"] by simp
qed

text \<open>
  Allocation rounds a size that is no power of two \<^emph>\<open>down\<close>: the ring that
  comes out is well-formed and empty, and its size is the largest power of two not above
  the size asked for, so that such a request yields fewer bytes than asked for.
\<close>

lemma ring_alloc_rounds_down:
  assumes "mem_ok env" and "ring_buffer_alloc env h rb sz = (r, rb', h')" and "r \<noteq> 0"
  shows "rb_ok rb' \<and> rb_bytes rb' = [] \<and> ring_buffer_size rb' = r
       \<and> (\<exists>k<64. unat r = 2 ^ k \<and> 2 ^ k \<le> unat sz \<and> unat sz < 2 ^ (k + 1))
       \<and> (\<not> is_power_of_2 sz \<longrightarrow> unat r < unat sz)"
proof -
  from ring_buffer_alloc_cases [OF assms(1,2)] assms(3)
  have ok: "rb_ok rb'" "rb_bytes rb' = []" "m_size rb' = r" by auto
  have sz: "sz \<noteq> 0"
    using assms(2,3) by (auto simp: ring_buffer_alloc_def is_power_of_2_def roundup_pow_of_two_def)
  have r: "r = (if is_power_of_2 sz then sz else roundup_pow_of_two sz)"
    using assms(2,3) by (auto simp: ring_buffer_alloc_def Let_def split: option.splits prod.splits if_splits)
  have "\<exists>k<64. unat r = 2 ^ k \<and> 2 ^ k \<le> unat sz \<and> unat sz < 2 ^ (k + 1)"
  proof (cases "is_power_of_2 sz")
    case True
    with r show ?thesis by (auto simp: is_power_of_2_iff)
  next
    case False
    obtain k where "k < 64" "roundup_pow_of_two sz = 2 ^ k" "2 ^ k \<le> unat sz" "unat sz < 2 ^ (k + 1)"
      by (rule roundup_exp [OF sz])
    with False r show ?thesis by (auto simp: unat_exp64)
  qed
  moreover from this have "\<not> is_power_of_2 sz \<longrightarrow> unat r < unat sz"
    by (metis is_power_of_2_iff le_neq_implies_less)
  ultimately show ?thesis
    using ok by (simp add: ring_buffer_size_def)
qed

lemma ring_alloc_rounds_down_witness:
  "\<exists>rb' h'. ring_buffer_alloc zero_mem [] ring_buffer_init 5 = (4, rb', h') \<and> unat (4 :: u64) < unat (5 :: u64)"
proof -
  let ?a = "ring_buffer_alloc zero_mem [] ring_buffer_init 5"
  have not: "\<not> is_power_of_2 5" by (simp add: is_power_of_2_def)
  have "roundup_pow_of_two 5 = 4" by code_simp
  with not have a: "?a = (4, fst (snd ?a), snd (snd ?a))"
    by (simp add: ring_buffer_alloc_def invoke_def zero_mem_def ring_buffer_init_def)
  from ring_alloc_rounds_down [OF mem_ok_zero_mem a] not show ?thesis
    using a by (intro exI [of _ "fst (snd ?a)"] exI [of _ "snd (snd ?a)"]) simp
qed

text \<open>
  After \<open>ring_buffer_free\<close> the object still reports its old size and full room for
  writing, but writing any byte to it dereferences the null pointer.
\<close>

lemma ring_write_after_free_faults:
  assumes "rb_ok rb" and "0 < unat n" and "ring_buffer_free env h rb = (rb', h')"
  shows "ring_buffer_size rb' = ring_buffer_size rb \<and> ring_buffer_readable_size rb' = 0
       \<and> ring_buffer_write rb' (Some xs) n = Inl NullPointer"
proof -
  have f: "rb' = fst (ring_buffer_free env h rb)" using assms(3) by simp
  have sz: "0 < unat (m_size rb)" using assms(1) by (rule rb_okE)
  then have "0 < unat (min n (m_size rb))" using assms(2) by (simp add: unat_min)
  with f show ?thesis
    by (simp add: ring_buffer_size_def ring_buffer_readable_size_def ring_buffer_write_def Let_def
        memcpy_null_dst)
qed

lemma ring_write_after_free_faults_witness:
  "ring_buffer_write (fst (ring_buffer_free zero_mem [] wrapped_ring)) (Some [1]) 1 = Inl NullPointer"
proof -
  have ok: "rb_ok wrapped_ring"
    by (simp add: rb_ok_def wrapped_ring_def is_power_of_2_def)
  show ?thesis
    using ring_write_after_free_faults [OF ok, of 1 zero_mem "[]" _ _ "[1]"]
    by (metis one_neq_zero unat_1 neq0_conv prod.collapse)
qed

end
