(* ===== verification/Shared_Queue.thy ===== *)
theory Shared_Queue
  imports Ring_Buffer
begin

text \<open>
  The queue of \<open>shared_queue.h\<close> and \<open>shared_queue.cpp\<close>: a ring of bytes and a non-blocking pipe
  that carries one notification byte per message. The proofs use the ring through the interface
  \<open>byte_ring\<close> only. Calls on the pipe are answered by an environment, the blocks of the ring by
  the allocator's.
\<close>

section \<open>State and operations\<close>

datatype pipe_call =
    Pipe2
  | Pipe_close int
  | Pipe_read int
  | Pipe_write int

record pipe_ret =
  pr_val :: int
  pr_fds :: "int \<times> int"

type_synonym pipe_env = "(pipe_call, pipe_ret) env"
type_synonym pipe_history = "(pipe_call, pipe_ret) history"

record queue_world =
  pipe_calls :: pipe_history
  mem_calls :: mem_history

record shared_queue =
  m_pipefd :: "int \<times> int"
  m_ring_buffer :: ring_buffer

definition read_fd :: "shared_queue \<Rightarrow> int" where
  "read_fd q = fst (m_pipefd q)"

definition write_fd :: "shared_queue \<Rightarrow> int" where
  "write_fd q = snd (m_pipefd q)"

definition reset_fd :: "shared_queue \<Rightarrow> shared_queue" where
  "reset_fd q = q\<lparr>m_pipefd := (- 1, - 1)\<rparr>"

definition shared_queue_make :: shared_queue where
  "shared_queue_make = reset_fd \<lparr>m_pipefd = (0, 0), m_ring_buffer = ring_buffer_init\<rparr>"

definition pipe_sys :: "pipe_env \<Rightarrow> queue_world \<Rightarrow> pipe_call \<Rightarrow> pipe_ret \<times> queue_world" where
  "pipe_sys env w c = (let (r, h) = invoke env (pipe_calls w) c in (r, w\<lparr>pipe_calls := h\<rparr>))"

definition close_fd :: "pipe_env \<Rightarrow> queue_world \<Rightarrow> shared_queue \<Rightarrow> shared_queue \<times> queue_world" where
  "close_fd env w q =
     (let w1 = (if read_fd q \<ge> 0 then snd (pipe_sys env w (Pipe_close (read_fd q))) else w);
          w2 = (if write_fd q \<ge> 0 then snd (pipe_sys env w1 (Pipe_close (write_fd q))) else w1)
      in (reset_fd q, w2))"

definition queue_size :: "shared_queue \<Rightarrow> u64" where
  "queue_size q = ring_buffer_size (m_ring_buffer q)"

definition queue_readable_size :: "shared_queue \<Rightarrow> u64" where
  "queue_readable_size q = ring_buffer_readable_size (m_ring_buffer q)"

definition queue_writeable_size :: "shared_queue \<Rightarrow> u64" where
  "queue_writeable_size q = queue_size q - queue_readable_size q"

definition queue_init ::
  "pipe_env \<Rightarrow> mem_env \<Rightarrow> queue_world \<Rightarrow> shared_queue \<Rightarrow> u64 \<Rightarrow> bool \<Rightarrow> int \<times> shared_queue \<times> queue_world" where
  "queue_init penv menv w q sz shared =
     (if read_fd q \<ge> 0 \<or> write_fd q \<ge> 0 then (1, q, w)
      else let (r, w1) = pipe_sys penv w Pipe2
           in if pr_val r < 0 then (- 1, q, w1)
              else let q1 = q\<lparr>m_pipefd := pr_fds r, m_ring_buffer := set_shared (m_ring_buffer q) shared\<rparr>;
                       (n, rb, h) = ring_buffer_alloc menv (mem_calls w1) (m_ring_buffer q1) sz;
                       q2 = q1\<lparr>m_ring_buffer := rb\<rparr>; w2 = w1\<lparr>mem_calls := h\<rparr>
                   in if n = 0 then let (q3, w3) = close_fd penv w2 q2 in (- 2, q3, w3)
                      else (0, q2, w2))"

definition queue_uninit :: "pipe_env \<Rightarrow> mem_env \<Rightarrow> queue_world \<Rightarrow> shared_queue \<Rightarrow> int \<times> shared_queue \<times> queue_world" where
  "queue_uninit penv menv w q =
     (let (q1, w1) = close_fd penv w q;
          (rb, h) = ring_buffer_free menv (mem_calls w1) (m_ring_buffer q1)
      in (0, q1\<lparr>m_ring_buffer := rb\<rparr>, w1\<lparr>mem_calls := h\<rparr>))"

text \<open>The destructors: the queue's own body, then the one of its member.\<close>

definition queue_destroy :: "pipe_env \<Rightarrow> mem_env \<Rightarrow> queue_world \<Rightarrow> shared_queue \<Rightarrow> queue_world" where
  "queue_destroy penv menv w q =
     (let (q1, w1) = close_fd penv w q
      in w1\<lparr>mem_calls := snd (ring_buffer_free menv (mem_calls w1) (m_ring_buffer q1))\<rparr>)"

definition queue_read ::
  "pipe_env \<Rightarrow> queue_world \<Rightarrow> shared_queue \<Rightarrow> byte list option \<Rightarrow> u64 \<Rightarrow> bool
     \<Rightarrow> fault + int \<times> byte list option \<times> shared_queue \<times> queue_world" where
  "queue_read env w q buf sz clear_notify =
     (if queue_readable_size q < sz then Inr (- 1, buf, q, w)
      else bind_err (ring_buffer_read (m_ring_buffer q) buf sz) (\<lambda>(ret, d, rb).
        let q1 = q\<lparr>m_ring_buffer := rb\<rparr>
        in if ret = 0 then Inr (- 1, d, q1, w)
           else Inr (sint ret, d, q1, if clear_notify then snd (pipe_sys env w (Pipe_read (read_fd q1))) else w)))"

definition queue_write ::
  "pipe_env \<Rightarrow> queue_world \<Rightarrow> shared_queue \<Rightarrow> byte list option \<Rightarrow> u64 \<Rightarrow> bool
     \<Rightarrow> fault + int \<times> shared_queue \<times> queue_world" where
  "queue_write env w q buf sz write_notify =
     (if queue_writeable_size q < sz then Inr (- 1, q, w)
      else bind_err (ring_buffer_write (m_ring_buffer q) buf sz) (\<lambda>(ret, rb).
        let q1 = q\<lparr>m_ring_buffer := rb\<rparr>
        in if ret = 0 then Inr (- 1, q1, w)
           else Inr (sint ret, q1, if write_notify then snd (pipe_sys env w (Pipe_write (write_fd q1))) else w)))"

section \<open>Pipes\<close>

lemma pipe_sys_unfold [env_simps]:
  "pipe_sys env w c = (env (pipe_calls w) c, w\<lparr>pipe_calls := pipe_calls w @ [(c, env (pipe_calls w) c)]\<rparr>)"
  by (simp add: pipe_sys_def invoke_def)

text \<open>
  The pipe opened last: its ends, while they are open, and the notification bytes in it. Only a
  read from its read end takes a byte and only a write to its write end adds one.
\<close>

record pipe_state =
  read_end :: "int option"
  write_end :: "int option"
  pipe_bytes :: nat

fun pipe_after :: "pipe_state \<Rightarrow> pipe_call \<times> pipe_ret \<Rightarrow> pipe_state" where
  "pipe_after p (Pipe2, r) =
     (if pr_val r \<ge> 0 then \<lparr>read_end = Some (fst (pr_fds r)), write_end = Some (snd (pr_fds r)), pipe_bytes = 0\<rparr> else p)"
| "pipe_after p (Pipe_write fd, r) = (if write_end p = Some fd \<and> pr_val r = 1 then p\<lparr>pipe_bytes := Suc (pipe_bytes p)\<rparr> else p)"
| "pipe_after p (Pipe_read fd, r) = (if read_end p = Some fd \<and> pr_val r = 1 then p\<lparr>pipe_bytes := pipe_bytes p - 1\<rparr> else p)"
| "pipe_after p (Pipe_close fd, r) =
     p\<lparr>read_end := (if read_end p = Some fd then None else read_end p),
       write_end := (if write_end p = Some fd then None else write_end p)\<rparr>"

definition pipe_of :: "pipe_history \<Rightarrow> pipe_state" where
  "pipe_of h = foldl pipe_after \<lparr>read_end = None, write_end = None, pipe_bytes = 0\<rparr> h"

definition pending :: "pipe_history \<Rightarrow> nat" where
  "pending h = pipe_bytes (pipe_of h)"

lemma pipe_of_snoc [simp]: "pipe_of (h @ [cr]) = pipe_after (pipe_of h) cr"
  by (simp add: pipe_of_def)

text \<open>
  A kernel whose pipe holds up to \<open>cap\<close> bytes and does not block, and whose descriptors are valid and
  differ. Reads and writes on other descriptors answer as they like.
\<close>

definition pipe_ok :: "nat \<Rightarrow> pipe_env \<Rightarrow> bool" where
  "pipe_ok cap env \<longleftrightarrow>
     (\<forall>h fd. write_end (pipe_of h) = Some fd \<longrightarrow>
        pr_val (env h (Pipe_write fd)) = (if read_end (pipe_of h) \<noteq> None \<and> pending h < cap then 1 else - 1))
     \<and> (\<forall>h fd. read_end (pipe_of h) = Some fd \<longrightarrow>
        pr_val (env h (Pipe_read fd)) = (if pending h > 0 then 1 else if write_end (pipe_of h) \<noteq> None then - 1 else 0))
     \<and> (\<forall>h. pr_val (env h Pipe2) \<ge> 0 \<longrightarrow>
        fst (pr_fds (env h Pipe2)) \<ge> 0 \<and> snd (pr_fds (env h Pipe2)) \<ge> 0 \<and> fst (pr_fds (env h Pipe2)) \<noteq> snd (pr_fds (env h Pipe2)))"

text \<open>The sample kernel refuses any other descriptor.\<close>

definition sample_pipe :: "nat \<Rightarrow> pipe_env" where
  "sample_pipe cap h c =
     (case c of
        Pipe_write fd \<Rightarrow>
          \<lparr>pr_val = (if write_end (pipe_of h) = Some fd \<and> read_end (pipe_of h) \<noteq> None \<and> pending h < cap then 1 else - 1), pr_fds = (0, 0)\<rparr>
      | Pipe_read fd \<Rightarrow>
          \<lparr>pr_val = (if read_end (pipe_of h) \<noteq> Some fd then - 1 else if pending h > 0 then 1
             else if write_end (pipe_of h) \<noteq> None then - 1 else 0), pr_fds = (0, 0)\<rparr>
      | _ \<Rightarrow> \<lparr>pr_val = 0, pr_fds = (3, 4)\<rparr>)"

lemma sample_pipe_ok: "pipe_ok cap (sample_pipe cap)"
  by (simp add: pipe_ok_def sample_pipe_def)

text \<open>The queue's descriptors are the two ends of an open pipe with \<open>k\<close> notifications in it.\<close>

definition notified :: "shared_queue \<Rightarrow> queue_world \<Rightarrow> nat \<Rightarrow> bool" where
  "notified q w k \<longleftrightarrow> pipe_of (pipe_calls w) = \<lparr>read_end = Some (read_fd q), write_end = Some (write_fd q), pipe_bytes = k\<rparr>"

lemma notified_pending: "notified q w k \<Longrightarrow> pending (pipe_calls w) = k"
  by (simp add: notified_def pending_def)

lemma notified_write:
  "pipe_ok cap env \<Longrightarrow> notified q w k \<Longrightarrow> k < cap \<Longrightarrow> m_pipefd q' = m_pipefd q \<Longrightarrow>
   notified q' (snd (pipe_sys env w (Pipe_write (write_fd q)))) (Suc k)"
  by (simp add: notified_def pipe_ok_def pending_def pipe_sys_def invoke_def read_fd_def write_fd_def)

lemma notified_read:
  "pipe_ok cap env \<Longrightarrow> notified q w (Suc k) \<Longrightarrow> m_pipefd q' = m_pipefd q \<Longrightarrow>
   notified q' (snd (pipe_sys env w (Pipe_read (read_fd q)))) k"
  by (simp add: notified_def pipe_ok_def pending_def pipe_sys_def invoke_def read_fd_def write_fd_def)

section \<open>Life cycle\<close>

text \<open>Open: both descriptors and a block. Closed: neither, and nothing to read.\<close>

definition queue_open :: "shared_queue \<Rightarrow> bool" where
  "queue_open q \<longleftrightarrow> read_fd q \<ge> 0 \<and> write_fd q \<ge> 0 \<and> rb_ok (m_ring_buffer q)"

definition queue_closed :: "shared_queue \<Rightarrow> bool" where
  "queue_closed q \<longleftrightarrow> read_fd q < 0 \<and> write_fd q < 0 \<and> m_buffer (m_ring_buffer q) = None
     \<and> m_in (m_ring_buffer q) = 0 \<and> m_out (m_ring_buffer q) = 0"

definition queue_ok :: "shared_queue \<Rightarrow> bool" where
  "queue_ok q \<longleftrightarrow> queue_open q \<or> queue_closed q"

definition fd_count :: "pipe_history \<Rightarrow> int" where
  "fd_count h = sum_list (map (\<lambda>(c, r). case c of Pipe2 \<Rightarrow> if pr_val r \<ge> 0 then 2 else 0 | Pipe_close fd \<Rightarrow> - 1 | _ \<Rightarrow> 0) h)"

definition block_count :: "mem_history \<Rightarrow> int" where
  "block_count h = sum_list (map (\<lambda>(c, r). case c of
       Posix_memalign sz \<Rightarrow> if r = None then 0 else 1
     | Mmap sz \<Rightarrow> if r = None then 0 else 1
     | Mem_free p \<Rightarrow> if p = None then 0 else - 1
     | Munmap p sz \<Rightarrow> if p = None then 0 else - 1) h)"

lemma fd_count_append [simp]: "fd_count (h @ h') = fd_count h + fd_count h'"
  by (simp add: fd_count_def)

lemma block_count_append [simp]: "block_count (h @ h') = block_count h + block_count h'"
  by (simp add: block_count_def)

lemma count_Cons [simp]:
  "fd_count ((c, r) # h) = (case c of Pipe2 \<Rightarrow> if pr_val r \<ge> 0 then 2 else 0 | Pipe_close fd \<Rightarrow> - 1 | _ \<Rightarrow> 0) + fd_count h"
  "block_count ((d, p) # k) = (case d of
       Posix_memalign sz \<Rightarrow> if p = None then 0 else 1
     | Mmap sz \<Rightarrow> if p = None then 0 else 1
     | Mem_free b \<Rightarrow> if b = None then 0 else - 1
     | Munmap b sz \<Rightarrow> if b = None then 0 else - 1) + block_count k"
  "fd_count [] = 0" "block_count [] = 0"
  by (simp_all add: fd_count_def block_count_def)

text \<open>Descriptors and blocks acquired, less released, less held.\<close>

definition queue_fds :: "shared_queue \<Rightarrow> int" where
  "queue_fds q = (if read_fd q \<ge> 0 then 1 else 0) + (if write_fd q \<ge> 0 then 1 else 0)"

definition queue_blocks :: "shared_queue \<Rightarrow> int" where
  "queue_blocks q = (if m_buffer (m_ring_buffer q) = None then 0 else 1)"

definition queue_account :: "queue_world \<Rightarrow> shared_queue \<Rightarrow> int \<times> int" where
  "queue_account w q = (fd_count (pipe_calls w) - queue_fds q, block_count (mem_calls w) - queue_blocks q)"

lemma close_fd_result:
  assumes "close_fd env w q = (q', w')"
  shows "q' = reset_fd q" "mem_calls w' = mem_calls w" "fd_count (pipe_calls w') = fd_count (pipe_calls w) - queue_fds q"
  using assms by (auto simp: close_fd_def env_simps queue_fds_def Let_def)

lemma reset_fd_simps [simp]:
  "read_fd (reset_fd q) = - 1" "write_fd (reset_fd q) = - 1" "m_ring_buffer (reset_fd q) = m_ring_buffer q"
  by (simp_all add: reset_fd_def read_fd_def write_fd_def)

lemma fds_upd [simp]:
  "read_fd (q\<lparr>m_ring_buffer := rb\<rparr>) = read_fd q" "write_fd (q\<lparr>m_ring_buffer := rb\<rparr>) = write_fd q"
  by (simp_all add: read_fd_def write_fd_def)

lemma alloc_block_count:
  assumes "m_buffer rb = None" and "ring_buffer_alloc env h rb sz = (r, rb', h')"
  shows "block_count h' = block_count h + (if m_buffer rb' = None then 0 else 1)" "m_buffer rb' = None \<longleftrightarrow> r = 0"
  using assms by (auto simp: ring_buffer_alloc_def invoke_def ring_buffer_reset_def is_power_of_2_def Let_def
      split: option.splits if_splits)

lemma alloc_failed:
  assumes "m_buffer rb = None" and "ring_buffer_alloc env h rb sz = (0, rb', h')"
  shows "m_in rb' = m_in rb" "m_out rb' = m_out rb"
  using assms by (auto simp: ring_buffer_alloc_def invoke_def is_power_of_2_def Let_def split: option.splits if_splits)

lemma free_block_count:
  assumes "ring_buffer_free env h rb = (rb', h')"
  shows "block_count h' = block_count h - (if m_buffer rb = None then 0 else 1)" "m_buffer rb' = None"
    "m_in rb' = 0" "m_out rb' = 0" "m_size rb' = m_size rb"
  using assms by (auto simp: ring_buffer_free_def ring_buffer_reset_def invoke_def)

lemma set_shared_fields [simp]:
  "m_buffer (set_shared rb s) = m_buffer rb" "m_in (set_shared rb s) = m_in rb" "m_out (set_shared rb s) = m_out rb"
  by (simp_all add: set_shared_def)

lemma queue_init_result:
  assumes "pipe_ok cap penv" and "mem_ok menv" and "queue_ok q" and "queue_init penv menv w q sz shared = (r, q', w')"
  shows "queue_ok q' \<and> queue_account w' q' = queue_account w q
    \<and> (r = 0 \<longrightarrow> queue_open q' \<and> rb_bytes (m_ring_buffer q') = [] \<and> notified q' w' 0
         \<and> 0 < unat (queue_size q') \<and> unat (queue_size q') \<le> unat sz)"
proof (cases "read_fd q \<ge> 0 \<or> write_fd q \<ge> 0")
  case True
  with assms(3,4) show ?thesis by (auto simp: queue_init_def)
next
  case False
  then have none: "m_buffer (m_ring_buffer q) = None" "m_in (m_ring_buffer q) = 0" "m_out (m_ring_buffer q) = 0"
    using assms(3) by (auto simp: queue_ok_def queue_open_def queue_closed_def)
  define p where "p = penv (pipe_calls w) Pipe2"
  define w1 where "w1 = w\<lparr>pipe_calls := pipe_calls w @ [(Pipe2, p)]\<rparr>"
  have s: "pipe_sys penv w Pipe2 = (p, w1)" by (simp add: env_simps p_def w1_def)
  show ?thesis
  proof (cases "pr_val p < 0")
    case True
    with False s assms(3,4) show ?thesis by (auto simp: queue_init_def queue_account_def w1_def)
  next
    case pos: False
    then have fds: "fst (pr_fds p) \<ge> 0" "snd (pr_fds p) \<ge> 0" using assms(1) by (simp_all add: pipe_ok_def p_def)
    define rb1 where "rb1 = set_shared (m_ring_buffer q) shared"
    obtain n rb h where a: "ring_buffer_alloc menv (mem_calls w1) rb1 sz = (n, rb, h)"
      by (cases "ring_buffer_alloc menv (mem_calls w1) rb1 sz") auto
    define q2 where "q2 = q\<lparr>m_pipefd := pr_fds p, m_ring_buffer := rb\<rparr>"
    define w2 where "w2 = w1\<lparr>mem_calls := h\<rparr>"
    have bc: "block_count h = block_count (mem_calls w) + (if m_buffer rb = None then 0 else 1)" "m_buffer rb = None \<longleftrightarrow> n = 0"
      using alloc_block_count [OF _ a] none by (simp_all add: rb1_def w1_def)
    have fd2: "read_fd q2 \<ge> 0" "write_fd q2 \<ge> 0" using fds by (simp_all add: q2_def read_fd_def write_fd_def)
    obtain q3 w3 where c: "close_fd penv w2 q2 = (q3, w3)" by fastforce
    note cr = close_fd_result [OF c]
    have res: "(r, q', w') = (if n = 0 then (- 2, q3, w3) else (0, q2, w2))"
      using assms(4) False s pos a c by (simp add: queue_init_def rb1_def q2_def w2_def Let_def split: if_splits)
    show ?thesis
    proof (cases "n = 0")
      case True
      then have "m_in rb = 0" "m_out rb = 0" using alloc_failed [of rb1] a none by (auto simp: rb1_def)
      with True have "queue_closed q3" using bc(2) cr(1) by (simp add: queue_closed_def q2_def)
      with True res bc cr fd2 False pos none show ?thesis
        by (simp add: queue_ok_def queue_account_def queue_fds_def queue_blocks_def w2_def w1_def q2_def)
    next
      case nz: False
      with ring_buffer_alloc_cases [OF assms(2) a] have ok: "unat n \<le> unat sz" "rb_ok rb" "rb_bytes rb = []" "m_size rb = n"
        by auto
      with nz res fd2 bc pos False none show ?thesis
        by (auto simp: queue_ok_def queue_open_def queue_account_def queue_fds_def queue_blocks_def w2_def w1_def q2_def
            queue_size_def ring_buffer_size_def unat_gt_0 notified_def read_fd_def write_fd_def)
    qed
  qed
qed

lemma queue_uninit_result:
  assumes "queue_uninit penv menv w q = (r, q', w')"
  shows "queue_closed q' \<and> queue_account w' q' = queue_account w q"
proof -
  obtain q1 w1 where c: "close_fd penv w q = (q1, w1)" by fastforce
  obtain rb h where f: "ring_buffer_free menv (mem_calls w1) (m_ring_buffer q1) = (rb, h)" by fastforce
  from assms c f close_fd_result [OF c] free_block_count [OF f] show ?thesis
    by (auto simp: queue_uninit_def queue_closed_def queue_account_def queue_fds_def queue_blocks_def)
qed

section \<open>Reading and writing\<close>

lemma queue_sizes:
  assumes "queue_open q"
  shows "unat (queue_readable_size q) = length (rb_bytes (m_ring_buffer q))"
    and "unat (queue_writeable_size q) = unat (queue_size q) - length (rb_bytes (m_ring_buffer q))"
proof -
  have ok: "rb_ok (m_ring_buffer q)" using assms by (simp add: queue_open_def)
  show r: "unat (queue_readable_size q) = length (rb_bytes (m_ring_buffer q))"
    using readable_length [OF ok] by (simp add: queue_readable_size_def)
  have "queue_readable_size q \<le> queue_size q"
    using ring.bound [OF ok] r by (simp add: word_le_nat_alt queue_size_def ring_buffer_size_def)
  then show "unat (queue_writeable_size q) = unat (queue_size q) - length (rb_bytes (m_ring_buffer q))"
    by (simp add: queue_writeable_size_def unat_sub r)
qed

lemma queue_write_result:
  assumes "queue_open q" and "n \<noteq> 0" and "unat n \<le> length xs"
  shows "if unat (queue_size q) < length (rb_bytes (m_ring_buffer q)) + unat n
    then queue_write env w q (Some xs) n notify = Inr (- 1, q, w)
    else \<exists>q'. queue_write env w q (Some xs) n notify =
            Inr (sint n, q', if notify then snd (pipe_sys env w (Pipe_write (write_fd q))) else w)
          \<and> queue_open q' \<and> m_pipefd q' = m_pipefd q \<and> queue_size q' = queue_size q
          \<and> rb_bytes (m_ring_buffer q') = rb_bytes (m_ring_buffer q) @ take (unat n) xs"
proof -
  have ok: "rb_ok (m_ring_buffer q)" using assms(1) by (simp add: queue_open_def)
  have b: "length (rb_bytes (m_ring_buffer q)) \<le> unat (queue_size q)"
    using ring.bound [OF ok] by (simp add: queue_size_def ring_buffer_size_def)
  have room: "queue_writeable_size q < n \<longleftrightarrow> unat (queue_size q) < length (rb_bytes (m_ring_buffer q)) + unat n"
    using b by (simp add: word_less_nat_alt queue_sizes [OF assms(1)]) linarith
  show ?thesis
  proof (cases "unat (queue_size q) < length (rb_bytes (m_ring_buffer q)) + unat n")
    case True
    with room show ?thesis by (simp add: queue_write_def)
  next
    case False
    then have "length (rb_bytes (m_ring_buffer q)) + unat n \<le> unat (m_size (m_ring_buffer q))"
      by (simp add: queue_size_def ring_buffer_size_def)
    from ring.put_fits [OF ok assms(3) this] obtain rb where
      "ring_buffer_write (m_ring_buffer q) (Some xs) n = Inr (n, rb)" "rb_ok rb" "m_size rb = m_size (m_ring_buffer q)"
      "rb_bytes rb = rb_bytes (m_ring_buffer q) @ take (unat n) xs" by blast
    with False room assms(1,2) show ?thesis
      by (auto simp: queue_write_def queue_open_def queue_size_def ring_buffer_size_def Let_def
          intro!: exI [of _ "q\<lparr>m_ring_buffer := rb\<rparr>"])
  qed
qed

lemma queue_read_result:
  assumes "queue_open q" and "n \<noteq> 0" and "unat n \<le> length dst"
  shows "if length (rb_bytes (m_ring_buffer q)) < unat n
    then queue_read env w q (Some dst) n notify = Inr (- 1, Some dst, q, w)
    else \<exists>q'. queue_read env w q (Some dst) n notify =
            Inr (sint n, Some (take (unat n) (rb_bytes (m_ring_buffer q)) @ drop (unat n) dst), q',
                 if notify then snd (pipe_sys env w (Pipe_read (read_fd q))) else w)
          \<and> queue_open q' \<and> m_pipefd q' = m_pipefd q \<and> queue_size q' = queue_size q
          \<and> rb_bytes (m_ring_buffer q') = drop (unat n) (rb_bytes (m_ring_buffer q))"
proof -
  have ok: "rb_ok (m_ring_buffer q)" using assms(1) by (simp add: queue_open_def)
  have avail: "queue_readable_size q < n \<longleftrightarrow> length (rb_bytes (m_ring_buffer q)) < unat n"
    by (simp add: word_less_nat_alt queue_sizes [OF assms(1)])
  show ?thesis
  proof (cases "length (rb_bytes (m_ring_buffer q)) < unat n")
    case True
    with avail show ?thesis by (simp add: queue_read_def)
  next
    case False
    then have "unat n \<le> length (rb_bytes (m_ring_buffer q))" by simp
    from ring.get_available [OF ok assms(3) this] obtain rb where
      "ring_buffer_read (m_ring_buffer q) (Some dst) n
         = Inr (n, Some (take (unat n) (rb_bytes (m_ring_buffer q)) @ drop (unat n) dst), rb)"
      "rb_ok rb" "m_size rb = m_size (m_ring_buffer q)" "rb_bytes rb = drop (unat n) (rb_bytes (m_ring_buffer q))" by blast
    with False avail assms(1,2) show ?thesis
      by (auto simp: queue_read_def queue_open_def queue_size_def ring_buffer_size_def Let_def
          intro!: exI [of _ "q\<lparr>m_ring_buffer := rb\<rparr>"])
  qed
qed

section \<open>Messages\<close>

text \<open>
  Writers and readers that exchange messages of \<open>n\<close> bytes, each with its notification. A run
  collects the messages that were accepted and those that were handed out.
\<close>

datatype queue_op = Q_put "byte list" | Q_take "byte list"

fun queue_run ::
  "pipe_env \<Rightarrow> u64 \<Rightarrow> shared_queue \<Rightarrow> queue_world \<Rightarrow> queue_op list
     \<Rightarrow> fault + byte list list \<times> byte list list \<times> shared_queue \<times> queue_world" where
  "queue_run env n q w [] = Inr ([], [], q, w)"
| "queue_run env n q w (Q_put xs # ops) =
     bind_err (queue_write env w q (Some xs) n True) (\<lambda>(r, q1, w1).
     bind_err (queue_run env n q1 w1 ops) (\<lambda>(accepted, delivered, q2, w2).
     Inr ((if r = - 1 then [] else [xs]) @ accepted, delivered, q2, w2)))"
| "queue_run env n q w (Q_take dst # ops) =
     bind_err (queue_read env w q (Some dst) n True) (\<lambda>(r, dst', q1, w1).
     bind_err (queue_run env n q1 w1 ops) (\<lambda>(accepted, delivered, q2, w2).
     Inr (accepted, (if r = - 1 then [] else case dst' of Some d \<Rightarrow> [d] | None \<Rightarrow> []) @ delivered, q2, w2)))"

fun queue_op_ok :: "u64 \<Rightarrow> queue_op \<Rightarrow> bool" where
  "queue_op_ok n (Q_put xs) = (length xs = unat n)"
| "queue_op_ok n (Q_take dst) = (length dst = unat n)"

text \<open>The ring holds the messages \<open>ms\<close>, each with a notification in the pipe.\<close>

definition queue_holds :: "u64 \<Rightarrow> byte list list \<Rightarrow> shared_queue \<Rightarrow> queue_world \<Rightarrow> bool" where
  "queue_holds n ms q w \<longleftrightarrow> queue_open q \<and> list_all (\<lambda>x. length x = unat n) ms
     \<and> rb_bytes (m_ring_buffer q) = concat ms \<and> notified q w (length ms)"

lemma length_concat_messages: "list_all (\<lambda>x. length x = k) ms \<Longrightarrow> length (concat ms) = length ms * k"
  by (induction ms) simp_all

lemma holds_length: "queue_holds n ms q w \<Longrightarrow> length (rb_bytes (m_ring_buffer q)) = length ms * unat n"
  using length_concat_messages [of "unat n" ms] by (simp add: queue_holds_def)

lemma messages_bound:
  assumes "queue_holds n ms q w" and "n \<noteq> 0"
  shows "length ms \<le> unat (queue_size q) div unat n"
proof -
  have "rb_ok (m_ring_buffer q)" using assms(1) by (simp add: queue_holds_def queue_open_def)
  from ring.bound [OF this] have "length ms * unat n \<le> unat (queue_size q)"
    using holds_length [OF assms(1)] by (simp add: queue_size_def ring_buffer_size_def)
  then show ?thesis using assms(2) by (simp add: less_eq_div_iff_mult_less_eq unat_gt_0)
qed

lemma sint_not_minus_1: "n \<le> m \<Longrightarrow> unat (m :: u64) < 2 ^ 63 \<Longrightarrow> sint n \<noteq> - 1"
proof -
  assume "n \<le> m" "unat m < 2 ^ 63"
  then have "unat n < 2 ^ 63" by (simp add: word_le_nat_alt)
  moreover have "unat (- 1 :: u64) = 2 ^ 64 - 1" by (simp add: unsigned_minus_1_eq_mask mask_eq_exp_minus_1)
  ultimately have "n \<noteq> - 1" by auto
  then show "sint n \<noteq> - 1" by (metis signed_minus_1 signed_word_eqI)
qed

lemma queue_put_step:
  assumes "pipe_ok cap env" and "queue_holds n ms q w" and "n \<noteq> 0" and "length xs = unat n"
    and "unat (queue_size q) div unat n \<le> cap" and "unat (queue_size q) < 2 ^ 63"
  shows "\<exists>r q' w'. queue_write env w q (Some xs) n True = Inr (r, q', w')
    \<and> queue_size q' = queue_size q \<and> queue_holds n (ms @ (if r = - 1 then [] else [xs])) q' w'"
proof -
  have o: "queue_open q" using assms(2) by (simp add: queue_holds_def)
  have len: "unat n \<le> length xs" using assms(4) by simp
  note res = queue_write_result [OF o assms(3) len, of env w True]
  show ?thesis
  proof (cases "unat (queue_size q) < length (rb_bytes (m_ring_buffer q)) + unat n")
    case True
    with res assms(2) show ?thesis by (intro exI [of _ "- 1"] exI [of _ q] exI [of _ w]) simp
  next
    case False
    then have "n \<le> queue_size q" by (simp add: word_le_nat_alt)
    then have r: "sint n \<noteq> - 1" using assms(6) by (rule sint_not_minus_1)
    have "(length ms + 1) * unat n \<le> unat (queue_size q)"
      using False holds_length [OF assms(2)] by simp
    then have "length ms + 1 \<le> unat (queue_size q) div unat n"
      using assms(3) by (simp add: less_eq_div_iff_mult_less_eq unat_gt_0)
    then have cap: "length ms < cap" using assms(5) by simp
    have p: "notified q w (length ms)" using assms(2) by (simp add: queue_holds_def)
    define w' where "w' = snd (pipe_sys env w (Pipe_write (write_fd q)))"
    have pw: "notified q' w' (Suc (length ms))" if "m_pipefd q' = m_pipefd q" for q'
      unfolding w'_def by (rule notified_write [OF assms(1) p cap that])
    from False res obtain q' where q': "queue_write env w q (Some xs) n True = Inr (sint n, q', w')" "queue_open q'"
      "m_pipefd q' = m_pipefd q" "queue_size q' = queue_size q" "rb_bytes (m_ring_buffer q') = rb_bytes (m_ring_buffer q) @ take (unat n) xs"
      unfolding w'_def by auto
    with assms(2,4) r pw [OF q'(3)] show ?thesis
      by (intro exI [of _ "sint n"] exI [of _ q'] exI [of _ w']) (simp add: queue_holds_def)
  qed
qed

lemma queue_take_step:
  assumes "pipe_ok cap env" and "queue_holds n ms q w" and "n \<noteq> 0" and "length dst = unat n"
    and "unat (queue_size q) < 2 ^ 63"
  shows "\<exists>r d q' w'. queue_read env w q (Some dst) n True = Inr (r, Some d, q', w')
    \<and> queue_size q' = queue_size q
    \<and> (if ms = [] then r = - 1 \<and> queue_holds n [] q' w' else r \<noteq> - 1 \<and> d = hd ms \<and> queue_holds n (tl ms) q' w')"
proof -
  have o: "queue_open q" using assms(2) by (simp add: queue_holds_def)
  have len: "unat n \<le> length dst" using assms(4) by simp
  note l = holds_length [OF assms(2)]
  note res = queue_read_result [OF o assms(3) len, of env w True]
  show ?thesis
  proof (cases ms)
    case Nil
    then have "length (rb_bytes (m_ring_buffer q)) < unat n" using l assms(3) by (simp add: unat_gt_0)
    with res Nil assms(2) show ?thesis by (intro exI [of _ "- 1"] exI [of _ dst] exI [of _ q] exI [of _ w]) simp
  next
    case (Cons x rest)
    have enough: "\<not> length (rb_bytes (m_ring_buffer q)) < unat n" using l Cons by simp
    have "n \<le> queue_size q"
      using queue_sizes(1) [OF o] ring.bound [of "m_ring_buffer q"] o enough
      by (simp add: word_le_nat_alt queue_open_def queue_size_def ring_buffer_size_def)
    then have r: "sint n \<noteq> - 1" using assms(5) by (rule sint_not_minus_1)
    define w' where "w' = snd (pipe_sys env w (Pipe_read (read_fd q)))"
    have pw: "notified q' w' (length rest)" if "m_pipefd q' = m_pipefd q" for q'
      unfolding w'_def by (rule notified_read [OF assms(1) _ that]) (use assms(2) Cons in \<open>simp add: queue_holds_def\<close>)
    have x: "length x = unat n" "concat ms = x @ concat rest" using assms(2) Cons by (simp_all add: queue_holds_def)
    from enough res obtain q' where q': "queue_read env w q (Some dst) n True
        = Inr (sint n, Some (take (unat n) (rb_bytes (m_ring_buffer q)) @ drop (unat n) dst), q', w')" "queue_open q'"
      "m_pipefd q' = m_pipefd q" "queue_size q' = queue_size q" "rb_bytes (m_ring_buffer q') = drop (unat n) (rb_bytes (m_ring_buffer q))"
      unfolding w'_def by auto
    have "take (unat n) (rb_bytes (m_ring_buffer q)) @ drop (unat n) dst = x"
      using assms(2,4) x by (simp add: queue_holds_def)
    with q' r pw [OF q'(3)] x assms(2) Cons show ?thesis
      by (intro exI [of _ "sint n"] exI [of _ x] exI [of _ q'] exI [of _ w']) (simp add: queue_holds_def)
  qed
qed

lemma queue_run_messages:
  assumes "pipe_ok cap env" and "n \<noteq> 0"
  shows "queue_holds n ms q w \<Longrightarrow> unat (queue_size q) div unat n \<le> cap \<Longrightarrow> unat (queue_size q) < 2 ^ 63 \<Longrightarrow>
    list_all (queue_op_ok n) ops \<Longrightarrow>
    \<exists>accepted delivered rest q' w'. queue_run env n q w ops = Inr (accepted, delivered, q', w')
      \<and> ms @ accepted = delivered @ rest \<and> queue_holds n rest q' w'"
proof (induction ops arbitrary: ms q w)
  case Nil
  then show ?case by auto
next
  case (Cons op ops)
  show ?case
  proof (cases op)
    case (Q_put xs)
    with Cons.prems obtain r q1 w1 where s: "queue_write env w q (Some xs) n True = Inr (r, q1, w1)"
      "queue_size q1 = queue_size q" "queue_holds n (ms @ (if r = - 1 then [] else [xs])) q1 w1"
      using queue_put_step [OF assms(1) Cons.prems(1) assms(2), of xs] by auto
    from Cons.IH [OF s(3)] Cons.prems s(2) obtain accepted delivered rest q' w' where
      "queue_run env n q1 w1 ops = Inr (accepted, delivered, q', w')"
      "(ms @ (if r = - 1 then [] else [xs])) @ accepted = delivered @ rest" "queue_holds n rest q' w'" by auto
    with s(1) Q_put show ?thesis by auto
  next
    case (Q_take dst)
    with Cons.prems obtain r d q1 w1 where s: "queue_read env w q (Some dst) n True = Inr (r, Some d, q1, w1)"
      "queue_size q1 = queue_size q"
      "if ms = [] then r = - 1 \<and> queue_holds n [] q1 w1 else r \<noteq> - 1 \<and> d = hd ms \<and> queue_holds n (tl ms) q1 w1"
      using queue_take_step [OF assms(1) Cons.prems(1) assms(2), of dst] by auto
    then have "queue_holds n (tl ms) q1 w1" by (auto split: if_splits)
    from Cons.IH [OF this] Cons.prems s(2) obtain accepted delivered rest q' w' where
      run: "queue_run env n q1 w1 ops = Inr (accepted, delivered, q', w')"
      "tl ms @ accepted = delivered @ rest" "queue_holds n rest q' w'" by auto
    with s(1,3) Q_take show ?thesis by (cases ms) auto
  qed
qed

section \<open>Every call keeps the life cycle\<close>

lemma queue_account_ring:
  assumes "m_buffer rb = None \<longleftrightarrow> m_buffer (m_ring_buffer q) = None"
  shows "queue_account w (q\<lparr>m_ring_buffer := rb\<rparr>) = queue_account w q"
  using assms by (simp add: queue_account_def queue_fds_def queue_blocks_def)

lemma queue_account_notify [simp]:
  "queue_account (snd (pipe_sys env w (Pipe_read fd))) q = queue_account w q"
  "queue_account (snd (pipe_sys env w (Pipe_write fd))) q = queue_account w q"
  by (simp_all add: queue_account_def env_simps)

lemma rb_ok_buffer: "rb_ok rb \<Longrightarrow> m_buffer rb \<noteq> None"
  by (cases "m_buffer rb") (simp_all add: rb_ok_def)

lemma queue_read_kept:
  assumes "queue_ok q" and "unat n \<le> length dst" and "queue_read env w q (Some dst) n notify = Inr (r, d, q', w')"
  shows "queue_ok q' \<and> queue_account w' q' = queue_account w q"
proof (cases "queue_open q")
  case True
  then have ok: "rb_ok (m_ring_buffer q)" by (simp add: queue_open_def)
  from ring.get_law [OF ok assms(2)] obtain k rb e where
    rb: "ring_buffer_read (m_ring_buffer q) (Some dst) n = Inr (k, e, rb)" "rb_ok rb" by blast
  then have "queue_open (q\<lparr>m_ring_buffer := rb\<rparr>)" using True by (simp add: queue_open_def)
  with True assms(3) rb queue_account_ring [of rb q w] rb_ok_buffer [OF ok] rb_ok_buffer [OF rb(2)] show ?thesis
    by (auto simp: queue_read_def queue_ok_def Let_def split: if_splits)
next
  case False
  then have c: "queue_closed q" using assms(1) by (simp add: queue_ok_def)
  then have "queue_readable_size q = 0"
    by (simp add: queue_closed_def queue_readable_size_def ring_buffer_readable_size_def)
  with c assms(3) have res: "w' = w \<and> (q' = q \<or> q' = q\<lparr>m_ring_buffer := m_ring_buffer q\<lparr>m_out := 0\<rparr>\<rparr>)"
    by (auto simp: queue_read_def queue_closed_def ring_buffer_read_def Let_def split: if_splits)
  have "q\<lparr>m_ring_buffer := m_ring_buffer q\<lparr>m_out := 0\<rparr>\<rparr> = q"
    using c by (cases q; cases "m_ring_buffer q") (simp add: queue_closed_def)
  with res have "w' = w \<and> q' = q" by metis
  with assms(1) show ?thesis by simp
qed

lemma queue_write_kept:
  assumes "queue_ok q" and "unat n \<le> length xs" and "queue_write env w q (Some xs) n notify = Inr (r, q', w')"
  shows "queue_ok q' \<and> queue_account w' q' = queue_account w q"
proof (cases "queue_open q")
  case True
  then have ok: "rb_ok (m_ring_buffer q)" by (simp add: queue_open_def)
  from ring.put_law [OF ok assms(2)] obtain k rb where
    rb: "ring_buffer_write (m_ring_buffer q) (Some xs) n = Inr (k, rb)" "rb_ok rb" by blast
  then have "queue_open (q\<lparr>m_ring_buffer := rb\<rparr>)" using True by (simp add: queue_open_def)
  with True assms(3) rb queue_account_ring [of rb q w] rb_ok_buffer [OF ok] rb_ok_buffer [OF rb(2)] show ?thesis
    by (auto simp: queue_write_def queue_ok_def Let_def split: if_splits)
next
  case False
  then have c: "queue_closed q" using assms(1) by (simp add: queue_ok_def)
  show ?thesis
  proof (cases "queue_writeable_size q < n")
    case True
    with assms(1,3) show ?thesis by (simp add: queue_write_def)
  next
    case room: False
    obtain k rb where k: "ring_buffer_write (m_ring_buffer q) (Some xs) n = Inr (k, rb)"
      using assms(3) room by (auto simp: queue_write_def bind_err_Inr_iff)
    from k c have "k = 0 \<and> rb = m_ring_buffer q"
      by (auto simp: ring_buffer_write_def queue_closed_def Let_def memcpy_def bind_err_Inr_iff unat_eq_0 split: if_splits)
    with k room assms(1,3) show ?thesis by (auto simp: queue_write_def)
  qed
qed

datatype queue_call =
    QC_init u64 bool
  | QC_uninit
  | QC_read "byte list" u64 bool
  | QC_write "byte list" u64 bool

text \<open>A call that faults has no state to go on with; it is accounted with the state before it.\<close>

fun queue_step :: "pipe_env \<Rightarrow> mem_env \<Rightarrow> queue_world \<times> shared_queue \<Rightarrow> queue_call \<Rightarrow> queue_world \<times> shared_queue" where
  "queue_step penv menv (w, q) (QC_init sz shared) = (case queue_init penv menv w q sz shared of (_, q', w') \<Rightarrow> (w', q'))"
| "queue_step penv menv (w, q) QC_uninit = (case queue_uninit penv menv w q of (_, q', w') \<Rightarrow> (w', q'))"
| "queue_step penv menv (w, q) (QC_read dst n notify) =
     (case queue_read penv w q (Some dst) n notify of Inl _ \<Rightarrow> (w, q) | Inr (_, _, q', w') \<Rightarrow> (w', q'))"
| "queue_step penv menv (w, q) (QC_write xs n notify) =
     (case queue_write penv w q (Some xs) n notify of Inl _ \<Rightarrow> (w, q) | Inr (_, q', w') \<Rightarrow> (w', q'))"

fun queue_call_ok :: "queue_call \<Rightarrow> bool" where
  "queue_call_ok (QC_read dst n notify) = (unat n \<le> length dst)"
| "queue_call_ok (QC_write xs n notify) = (unat n \<le> length xs)"
| "queue_call_ok _ = True"

lemma queue_step_kept:
  assumes "pipe_ok cap penv" and "mem_ok menv" and "queue_ok q" and "queue_call_ok x"
    and "queue_step penv menv (w, q) x = (w', q')"
  shows "queue_ok q' \<and> queue_account w' q' = queue_account w q"
proof (cases x)
  case (QC_init sz shared)
  with assms queue_init_result [OF assms(1-3)] show ?thesis by (auto split: prod.splits)
next
  case QC_uninit
  with assms queue_uninit_result show ?thesis by (auto simp: queue_ok_def split: prod.splits)
next
  case (QC_read dst n notify)
  with assms queue_read_kept [OF assms(3)] show ?thesis by (auto split: sum.splits prod.splits)
next
  case (QC_write xs n notify)
  with assms queue_write_kept [OF assms(3)] show ?thesis by (auto split: sum.splits prod.splits)
qed

interpretation queue_descriptors: accounted "queue_step penv menv" queue_call_ok
    "\<lambda>(w, q). pipe_ok cap penv \<and> mem_ok menv \<and> queue_ok q" "\<lambda>(w, q). fst (queue_account w q)"
  for cap penv menv
  by unfold_locales (auto dest: queue_step_kept [rotated -1] split: prod.splits)

interpretation queue_memory: accounted "queue_step penv menv" queue_call_ok
    "\<lambda>(w, q). pipe_ok cap penv \<and> mem_ok menv \<and> queue_ok q" "\<lambda>(w, q). snd (queue_account w q)"
  for cap penv menv
  by unfold_locales (auto dest: queue_step_kept [rotated -1] split: prod.splits)

lemma queue_ok_make: "queue_ok shared_queue_make"
  by (simp add: queue_ok_def queue_closed_def shared_queue_make_def ring_buffer_init_def)

lemma queue_account_make: "queue_account w shared_queue_make = (fd_count (pipe_calls w), block_count (mem_calls w))"
  by (simp add: queue_account_def queue_fds_def queue_blocks_def shared_queue_make_def ring_buffer_init_def)

section \<open>Properties\<close>

text \<open>
  C12: After a successful \<open>init\<close>, writers and readers of \<open>n\<close>-byte messages never fault; each write is
  accepted whole or refused, each read hands out one whole message, in the order of the writes; and
  the pipe whose read and write ends are the queue's descriptors is open and holds exactly one
  notification per message in the queue, provided it has room for as many notifications as the ring
  has for messages. Nothing is assumed of reads and writes on other descriptors.
\<close>

theorem queue_messages_fifo:
  assumes "pipe_ok cap penv" and "mem_ok menv" and "queue_ok q0"
    and "queue_init penv menv w0 q0 sz shared = (0, q, w)" and "read_fd q0 < 0" and "unat sz < 2 ^ 63"
    and "n \<noteq> 0" and "unat sz div unat n \<le> cap" and "list_all (queue_op_ok n) ops"
  shows "\<exists>accepted delivered rest q' w'. queue_run penv n q w ops = Inr (accepted, delivered, q', w')
    \<and> accepted = delivered @ rest \<and> rb_bytes (m_ring_buffer q') = concat rest
    \<and> list_all (\<lambda>x. length x = unat n) rest
    \<and> pipe_of (pipe_calls w') = \<lparr>read_end = Some (read_fd q'), write_end = Some (write_fd q'), pipe_bytes = length rest\<rparr>"
proof -
  note init = queue_init_result [OF assms(1-4)]
  then have h: "queue_holds n [] q w" and sz: "unat (queue_size q) \<le> unat sz"
    by (simp_all add: queue_holds_def)
  have "unat (queue_size q) div unat n \<le> cap" using div_le_mono [OF sz, of "unat n"] assms(8) by simp
  moreover have "unat (queue_size q) < 2 ^ 63" using sz assms(6) by simp
  ultimately show ?thesis
    using queue_run_messages [OF assms(1,7) h _ _ assms(9)] by (auto simp: queue_holds_def notified_def)
qed

theorem queue_messages_fifo_witness:
  "\<exists>accepted delivered rest q' w'.
     queue_run (sample_pipe 4) 2 (fst (snd (queue_init (sample_pipe 4) zero_mem \<lparr>pipe_calls = [], mem_calls = []\<rparr> shared_queue_make 4 False)))
       (snd (snd (queue_init (sample_pipe 4) zero_mem \<lparr>pipe_calls = [], mem_calls = []\<rparr> shared_queue_make 4 False)))
       [Q_put [1, 2], Q_put [3, 4], Q_put [5, 6], Q_take [0, 0], Q_put [7, 8]] = Inr (accepted, delivered, q', w')
     \<and> accepted = delivered @ rest \<and> pending (pipe_calls w') = length rest"
proof -
  let ?i = "queue_init (sample_pipe 4) zero_mem \<lparr>pipe_calls = [], mem_calls = []\<rparr> shared_queue_make 4 False"
  have "fst ?i = 0"
    by (simp add: queue_init_def shared_queue_make_def pipe_sys_def invoke_def sample_pipe_def ring_buffer_alloc_def
        is_power_of_2_def zero_mem_def ring_buffer_init_def set_shared_def Let_def)
  then have i: "?i = (0, fst (snd ?i), snd (snd ?i))" by (metis prod.collapse)
  have "read_fd shared_queue_make < 0" "unat (4 :: u64) < 2 ^ 63" "(2 :: u64) \<noteq> 0" "unat (4 :: u64) div unat (2 :: u64) \<le> 4"
    "list_all (queue_op_ok 2) [Q_put [1, 2], Q_put [3, 4], Q_put [5, 6], Q_take [0, 0], Q_put [7, 8]]"
    by (simp_all add: shared_queue_make_def)
  from queue_messages_fifo [OF sample_pipe_ok mem_ok_zero_mem queue_ok_make i this] show ?thesis
    unfolding pending_def by (elim exE conjE) (auto intro!: exI)
qed

text \<open>
  Over any sequence of calls (with caller's buffers as large as announced) on any kernel and
  allocator, the descriptors and blocks acquired and not yet released are those the queue holds,
  both or none; destroying it releases them.
\<close>

lemma queue_no_leak:
  assumes "pipe_ok cap penv" and "mem_ok menv" and "list_all queue_call_ok xs"
    and "foldl (queue_step penv menv) (\<lparr>pipe_calls = [], mem_calls = []\<rparr>, shared_queue_make) xs = (w, q)"
  shows "queue_ok q \<and> fd_count (pipe_calls w) = queue_fds q \<and> block_count (mem_calls w) = queue_blocks q
    \<and> fd_count (pipe_calls (queue_destroy penv menv w q)) = 0
    \<and> block_count (mem_calls (queue_destroy penv menv w q)) = 0"
proof -
  let ?w0 = "\<lparr>pipe_calls = [], mem_calls = []\<rparr> :: queue_world"
  have s: "(case (?w0, shared_queue_make) of (w, q) \<Rightarrow> pipe_ok cap penv \<and> mem_ok menv \<and> queue_ok q)"
    using assms(1,2) queue_ok_make by simp
  have ok: "queue_ok q" and f: "fd_count (pipe_calls w) = queue_fds q" and b: "block_count (mem_calls w) = queue_blocks q"
    using queue_descriptors.run [OF s assms(3)] queue_memory.run [OF s assms(3)] assms(4) queue_account_make [of ?w0]
    by (simp_all add: queue_account_def)
  obtain q1 w1 where c: "close_fd penv w q = (q1, w1)" by fastforce
  obtain rb h where fr: "ring_buffer_free menv (mem_calls w1) (m_ring_buffer q1) = (rb, h)" by fastforce
  from ok f b c fr close_fd_result [OF c] free_block_count [OF fr] show ?thesis
    by (auto simp: queue_destroy_def queue_blocks_def)
qed

lemma queue_no_leak_witness:
  "let (w, q) = foldl (queue_step (sample_pipe 4) zero_mem) (\<lparr>pipe_calls = [], mem_calls = []\<rparr>, shared_queue_make)
       [QC_init 4 True, QC_write [1, 2] 2 True, QC_uninit, QC_init 8 False, QC_read [0] 1 True]
   in fd_count (pipe_calls w) = queue_fds q \<and> block_count (mem_calls (queue_destroy (sample_pipe 4) zero_mem w q)) = 0"
proof -
  have "list_all queue_call_ok [QC_init 4 True, QC_write [1, 2] 2 True, QC_uninit, QC_init 8 False, QC_read [0] 1 True]"
    by simp
  from queue_no_leak [OF sample_pipe_ok mem_ok_zero_mem this prod.collapse [symmetric]] show ?thesis
    unfolding split_beta Let_def by blast
qed

text \<open>
  After \<open>uninit\<close>, which reports success, the queue still announces its old size as free room,
  and writing a message that fits it dereferences the null pointer instead of failing with -1.
\<close>

lemma queue_write_after_uninit_faults:
  assumes "queue_open q" and "queue_uninit penv menv w q = (r, q', w')" and "n \<noteq> 0" and "n \<le> queue_size q"
  shows "r = 0 \<and> queue_writeable_size q' = queue_size q \<and> queue_write penv w' q' (Some xs) n notify = Inl NullPointer"
proof -
  obtain q1 w1 where c: "close_fd penv w q = (q1, w1)" by fastforce
  obtain rb h where f: "ring_buffer_free menv (mem_calls w1) (m_ring_buffer q1) = (rb, h)" by fastforce
  have res: "r = 0" "m_ring_buffer q' = rb" using assms(2) c f by (auto simp: queue_uninit_def)
  note fr = free_block_count [OF f]
  have sz: "m_size rb = queue_size q" using fr(5) close_fd_result(1) [OF c] by (simp add: queue_size_def ring_buffer_size_def)
  have room: "queue_writeable_size q' = queue_size q"
    using res fr sz by (simp add: queue_writeable_size_def queue_size_def queue_readable_size_def ring_buffer_size_def ring_buffer_readable_size_def)
  have "0 < unat n" using assms(3) by (simp add: unat_gt_0)
  moreover have "min n (queue_size q) = n" using assms(4) by (simp add: min_def)
  ultimately have "ring_buffer_write rb (Some xs) n = Inl NullPointer"
    using fr sz by (simp add: ring_buffer_write_def Let_def memcpy_null_dst)
  with res room assms(4) show ?thesis by (simp add: queue_write_def)
qed

lemma queue_write_after_uninit_faults_witness:
  "queue_write (sample_pipe 4) (snd (snd (queue_uninit (sample_pipe 4) zero_mem \<lparr>pipe_calls = [], mem_calls = []\<rparr>
       \<lparr>m_pipefd = (3, 4), m_ring_buffer = wrapped_ring\<rparr>)))
     (fst (snd (queue_uninit (sample_pipe 4) zero_mem \<lparr>pipe_calls = [], mem_calls = []\<rparr>
       \<lparr>m_pipefd = (3, 4), m_ring_buffer = wrapped_ring\<rparr>))) (Some [1]) 1 True = Inl NullPointer"
proof -
  let ?q = "\<lparr>m_pipefd = (3, 4), m_ring_buffer = wrapped_ring\<rparr>"
  let ?u = "queue_uninit (sample_pipe 4) zero_mem \<lparr>pipe_calls = [], mem_calls = []\<rparr> ?q"
  have "queue_open ?q" "(1 :: u64) \<noteq> 0" "1 \<le> queue_size ?q"
    by (simp_all add: queue_open_def read_fd_def write_fd_def rb_ok_def wrapped_ring_def is_power_of_2_def
        queue_size_def ring_buffer_size_def)
  moreover have "?u = (fst ?u, fst (snd ?u), snd (snd ?u))" by simp
  ultimately show ?thesis using queue_write_after_uninit_faults by blast
qed

end
