(* ===== verification/Ring_Concurrent.thy ===== *)
theory Ring_Concurrent
  imports Ring_Buffer
begin

text \<open>
  One writer thread and one reader thread on the same ring, without a lock: the use
  \<open>ring_buffer.h\<close> is written for. A call of \<open>ring_buffer_write\<close> is split at every access
  to shared memory: sampling \<open>m_out\<close>, copying one byte, publishing \<open>m_in\<close>; a call of
  \<open>ring_buffer_read\<close> likewise. The steps of the two threads interleave in any order.
  Memory is sequentially consistent: the barriers of the code (\<open>mb\<close>, \<open>rmb\<close>, \<open>wmb\<close>) keep
  each thread's steps in this order. \<open>Ring_Tso\<close> shows that buffered stores change nothing.
\<close>

section \<open>Threads and steps\<close>

text \<open>
  Where byte \<open>i\<close> of a copy of \<open>len\<close> bytes lies in the block: the first \<open>memcpy\<close> fills up to
  the end of the block, the second one goes on at its start.
\<close>

definition copy_pos :: "u64 \<Rightarrow> u64 \<Rightarrow> u64 \<Rightarrow> nat \<Rightarrow> nat" where
  "copy_pos sz start len i =
     (let off = start AND (sz - 1); l = min len (sz - off)
      in if i < unat l then unat off + i else i - unat l)"

datatype writer_pc = W_idle | W_copy "byte list" u64 nat
datatype reader_pc = R_idle | R_copy u64 "byte list"

text \<open>The last two fields are ghosts: everything published, everything taken.\<close>

record spsc =
  shared_ring :: ring_buffer
  writer :: writer_pc
  reader :: reader_pc
  sent :: "byte list"
  received :: "byte list"

inductive writer_step :: "spsc \<Rightarrow> spsc \<Rightarrow> bool" where
  w_sample: "writer s = W_idle \<Longrightarrow> unat n \<le> length src \<Longrightarrow> rb = shared_ring s \<Longrightarrow>
     writer_step s (s\<lparr>writer := W_copy src (min n (m_size rb - m_in rb + m_out rb)) 0\<rparr>)"
| w_copy: "writer s = W_copy src len i \<Longrightarrow> i < unat len \<Longrightarrow> rb = shared_ring s \<Longrightarrow>
     m_buffer rb = Some b \<Longrightarrow>
     writer_step s (s\<lparr>shared_ring := rb\<lparr>m_buffer := Some (b[copy_pos (m_size rb) (m_in rb) len i := src ! i])\<rparr>,
                      writer := W_copy src len (Suc i)\<rparr>)"
| w_publish: "writer s = W_copy src len (unat len) \<Longrightarrow> rb = shared_ring s \<Longrightarrow>
     writer_step s (s\<lparr>shared_ring := rb\<lparr>m_in := m_in rb + len\<rparr>, writer := W_idle,
                      sent := sent s @ take (unat len) src\<rparr>)"

inductive reader_step :: "spsc \<Rightarrow> spsc \<Rightarrow> bool" where
  r_sample: "reader s = R_idle \<Longrightarrow> rb = shared_ring s \<Longrightarrow>
     reader_step s (s\<lparr>reader := R_copy (min n (m_in rb - m_out rb)) []\<rparr>)"
| r_copy: "reader s = R_copy len got \<Longrightarrow> length got < unat len \<Longrightarrow> rb = shared_ring s \<Longrightarrow>
     m_buffer rb = Some b \<Longrightarrow>
     reader_step s (s\<lparr>reader := R_copy len (got @ [b ! copy_pos (m_size rb) (m_out rb) len (length got)])\<rparr>)"
| r_publish: "reader s = R_copy len got \<Longrightarrow> length got = unat len \<Longrightarrow> rb = shared_ring s \<Longrightarrow>
     reader_step s (s\<lparr>shared_ring := rb\<lparr>m_out := m_out rb + len\<rparr>, reader := R_idle,
                      received := received s @ got\<rparr>)"

inductive spsc_step :: "spsc \<Rightarrow> spsc \<Rightarrow> bool" where
  by_writer: "writer_step s t \<Longrightarrow> spsc_step s t"
| by_reader: "reader_step s t \<Longrightarrow> spsc_step s t"

inductive_cases writer_stepE: "writer_step s t"
inductive_cases reader_stepE: "reader_step s t"
lemmas writer_step_cases = writer_stepE [consumes 1, case_names sample copy publish]
lemmas reader_step_cases = reader_stepE [consumes 1, case_names sample copy publish]
inductive_simps spsc_step_iff: "spsc_step s t"

definition spsc_start :: "ring_buffer \<Rightarrow> spsc" where
  "spsc_start rb = \<lparr>shared_ring = rb, writer = W_idle, reader = R_idle, sent = [], received = []\<rparr>"

section \<open>Positions\<close>

lemma copy_pos_slot:
  assumes "is_power_of_2 n" and "i < unat len" and "unat len \<le> unat n"
  shows "copy_pos n start len i = ring_slot n start i"
proof -
  let ?off = "start AND (n - 1)"
  have off: "unat ?off = unat start mod unat n" and less: "unat ?off < unat n"
    using assms by (simp_all add: unat_and_mask is_power_of_2_def unat_gt_0)
  then have l: "unat (min len (n - ?off)) = min (unat len) (unat n - unat ?off)"
    by (simp add: unat_min unat_sub word_le_nat_alt)
  have "ring_slot n start i = (unat ?off + i) mod unat n"
    using assms(1) by (simp add: ring_slot_mod off mod_simps)
  with l less assms(2,3) show ?thesis
    by (auto simp: copy_pos_def Let_def min_def mod_if add.commute)
qed

lemma ring_slot_inj:
  assumes "is_power_of_2 n" and "i < unat n" and "j < unat n" and "ring_slot n x i = ring_slot n x j"
  shows "i = j"
proof -
  have "(ring_slot n x i + unat n - ring_slot n (x + 0) 0) mod unat n = i" if "i < unat n" for i
    using ring_slot_distance [OF assms(1) that, of 0 x] that by simp
  with assms(2-4) show ?thesis by metis
qed

lemma ring_slot_shift: "ring_slot n (x + c) i = ring_slot n x (unat c + i)"
  by (simp add: ring_slot_def add.assoc)

text \<open>Writing behind the published bytes changes none of them.\<close>

lemma rb_bytes_update:
  assumes "rb_ok rb" and "m_buffer rb = Some b" and "length (rb_bytes rb) + i < unat (m_size rb)"
  shows "rb_ok (rb\<lparr>m_buffer := Some (b[ring_slot (m_size rb) (m_in rb) i := v])\<rparr>)"
    and "rb_bytes (rb\<lparr>m_buffer := Some (b[ring_slot (m_size rb) (m_in rb) i := v])\<rparr>) = rb_bytes rb"
proof -
  let ?c = "m_in rb - m_out rb"
  have p2: "is_power_of_2 (m_size rb)" using assms(1) by (rule rb_okE)
  have c: "unat ?c + i < unat (m_size rb)" using assms by (simp add: length_rb_bytes)
  have "ring_slot (m_size rb) (m_in rb) i = ring_slot (m_size rb) (m_out rb) (unat ?c + i)"
    using ring_slot_shift [of "m_size rb" "m_out rb" ?c i] by simp
  then have "ring_slot (m_size rb) (m_in rb) i \<noteq> ring_slot (m_size rb) (m_out rb) j" if "j < unat ?c" for j
    using ring_slot_inj [OF p2, of "unat ?c + i" j "m_out rb"] c that by auto
  then show "rb_bytes (rb\<lparr>m_buffer := Some (b[ring_slot (m_size rb) (m_in rb) i := v])\<rparr>) = rb_bytes rb"
    using assms(2) by (auto simp: rb_bytes_def nth_list_update)
  show "rb_ok (rb\<lparr>m_buffer := Some (b[ring_slot (m_size rb) (m_in rb) i := v])\<rparr>)"
    using assms(1,2) by (simp add: rb_ok_def)
qed

section \<open>The invariant of the interleaving\<close>

text \<open>
  The writer has reserved room behind the published bytes and has filled a prefix of it;
  the reader has copied a prefix of the published bytes.
\<close>

definition writer_inv :: "ring_buffer \<Rightarrow> writer_pc \<Rightarrow> bool" where
  "writer_inv rb w \<longleftrightarrow> (case w of W_idle \<Rightarrow> True
     | W_copy src len i \<Rightarrow> unat len \<le> length src \<and> i \<le> unat len
         \<and> length (rb_bytes rb) + unat len \<le> unat (m_size rb)
         \<and> (\<forall>j<i. the (m_buffer rb) ! ring_slot (m_size rb) (m_in rb) j = src ! j))"

definition reader_inv :: "ring_buffer \<Rightarrow> reader_pc \<Rightarrow> bool" where
  "reader_inv rb r \<longleftrightarrow> (case r of R_idle \<Rightarrow> True
     | R_copy len got \<Rightarrow> length got \<le> unat len \<and> unat len \<le> length (rb_bytes rb)
         \<and> got = take (length got) (rb_bytes rb))"

definition spsc_inv :: "spsc \<Rightarrow> bool" where
  "spsc_inv s \<longleftrightarrow> rb_ok (shared_ring s)
     \<and> sent s = received s @ rb_bytes (shared_ring s)
     \<and> writer_inv (shared_ring s) (writer s) \<and> reader_inv (shared_ring s) (reader s)"

lemma writer_inv_simps [simp]:
  "writer_inv rb W_idle"
  "writer_inv rb (W_copy src len i) \<longleftrightarrow> unat len \<le> length src \<and> i \<le> unat len
     \<and> length (rb_bytes rb) + unat len \<le> unat (m_size rb)
     \<and> (\<forall>j<i. the (m_buffer rb) ! ring_slot (m_size rb) (m_in rb) j = src ! j)"
  by (simp_all add: writer_inv_def)

lemma reader_inv_simps [simp]:
  "reader_inv rb R_idle"
  "reader_inv rb (R_copy len got) \<longleftrightarrow> length got \<le> unat len \<and> unat len \<le> length (rb_bytes rb)
     \<and> got = take (length got) (rb_bytes rb)"
  by (simp_all add: reader_inv_def)

lemma reader_inv_append:
  assumes "reader_inv rb r" and "rb_bytes rb' = rb_bytes rb @ ys"
  shows "reader_inv rb' r"
  using assms by (cases r) auto

lemma w_copy_inv:
  assumes "spsc_inv s" and "writer s = W_copy src len i" and "i < unat len"
    and "m_buffer (shared_ring s) = Some b"
  defines "rb' \<equiv> shared_ring s\<lparr>m_buffer := Some (b[copy_pos (m_size (shared_ring s)) (m_in (shared_ring s)) len i := src ! i])\<rparr>"
  shows "rb_ok rb'" and "rb_bytes rb' = rb_bytes (shared_ring s)" and "writer_inv rb' (W_copy src len (Suc i))"
proof -
  let ?rb = "shared_ring s"
  from assms(1,2) have ok: "rb_ok ?rb" and w: "writer_inv ?rb (W_copy src len i)"
    by (simp_all add: spsc_inv_def)
  have p2: "is_power_of_2 (m_size ?rb)" and len_b: "length b = unat (m_size ?rb)"
    using ok assms(4) by (auto elim!: rb_okE)
  have pos: "copy_pos (m_size ?rb) (m_in ?rb) len i = ring_slot (m_size ?rb) (m_in ?rb) i"
    by (rule copy_pos_slot [OF p2 assms(3)]) (use w in simp)
  have room: "length (rb_bytes ?rb) + i < unat (m_size ?rb)" using w assms(3) by simp
  note upd = rb_bytes_update [OF ok assms(4) room, of "src ! i"]
  show "rb_ok rb'" and bytes: "rb_bytes rb' = rb_bytes ?rb"
    using upd by (simp_all add: rb'_def pos)
  have "b[ring_slot (m_size ?rb) (m_in ?rb) i := src ! i] ! ring_slot (m_size ?rb) (m_in ?rb) j = src ! j"
    if "j < Suc i" for j
  proof (cases "j = i")
    case True
    then show ?thesis using ring_slot_less [OF p2] len_b by simp
  next
    case False
    then have "ring_slot (m_size ?rb) (m_in ?rb) i \<noteq> ring_slot (m_size ?rb) (m_in ?rb) j"
      using ring_slot_inj [OF p2, of i j "m_in ?rb"] that room by auto
    with False that w assms(4) show ?thesis by simp
  qed
  then show "writer_inv rb' (W_copy src len (Suc i))"
    using w assms(3) bytes by (simp add: rb'_def pos)
qed

lemma writer_step_inv:
  assumes "writer_step s t" and "spsc_inv s"
  shows "spsc_inv t"
  using assms(1)
proof (cases rule: writer_step_cases)
  case (sample n src)
  from assms(2) have "rb_ok (shared_ring s)" by (simp add: spsc_inv_def)
  from write_space [OF this] rb_bytes_bound [OF this] show ?thesis
    using assms(2) sample by (auto simp: spsc_inv_def unat_min rb_free_def)
next
  case (copy src len i b)
  note w = w_copy_inv [OF assms(2) copy(2,3)]
  show ?thesis
    using assms(2) copy w reader_inv_append [of "shared_ring s" "reader s" _ "[]"]
    by (simp add: spsc_inv_def)
next
  case (publish src len)
  let ?rb = "shared_ring s"
  from assms(2) publish have ok: "rb_ok ?rb" and w: "writer_inv ?rb (W_copy src len (unat len))"
    by (simp_all add: spsc_inv_def)
  then obtain b where b: "m_buffer ?rb = Some b" by (auto elim: rb_okE)
  have room: "length (rb_bytes ?rb) + unat len \<le> unat (m_size ?rb)" using w by simp
  have "map (\<lambda>j. b ! ring_slot (m_size ?rb) (m_in ?rb) j) [0..<unat len] = take (unat len) src"
    by (rule nth_equalityI) (use w b in simp_all)
  with advance_in [OF ok b room] show ?thesis
    using assms(2) publish reader_inv_append [of ?rb "reader s"] by (simp add: spsc_inv_def)
qed

lemma reader_step_inv:
  assumes "reader_step s t" and "spsc_inv s"
  shows "spsc_inv t"
  using assms(1)
proof (cases rule: reader_step_cases)
  case (sample n)
  from assms(2) have "rb_ok (shared_ring s)" by (simp add: spsc_inv_def)
  then show ?thesis
    using assms(2) sample by (simp add: spsc_inv_def unat_min length_rb_bytes)
next
  case (copy len got b)
  let ?rb = "shared_ring s"
  from assms(2) copy have ok: "rb_ok ?rb" and r: "reader_inv ?rb (R_copy len got)"
    by (simp_all add: spsc_inv_def)
  have p2: "is_power_of_2 (m_size ?rb)" using ok by (rule rb_okE)
  have "unat len \<le> unat (m_size ?rb)" using r rb_bytes_bound [OF ok] by simp
  then have "b ! copy_pos (m_size ?rb) (m_out ?rb) len (length got) = rb_bytes ?rb ! length got"
    using copy r copy_pos_slot [OF p2] length_rb_bytes [OF ok] by (simp add: rb_bytes_def)
  then have "got @ [b ! copy_pos (m_size ?rb) (m_out ?rb) len (length got)] = take (Suc (length got)) (rb_bytes ?rb)"
    using r copy by (simp add: take_Suc_conv_app_nth)
  then show ?thesis
    using assms(2) copy r by (simp add: spsc_inv_def)
next
  case (publish len got)
  let ?rb = "shared_ring s"
  let ?rb' = "?rb\<lparr>m_out := m_out ?rb + len\<rparr>"
  from assms(2) publish have ok: "rb_ok ?rb" and r: "reader_inv ?rb (R_copy len got)"
    by (simp_all add: spsc_inv_def)
  then have len: "unat len \<le> length (rb_bytes ?rb)" by simp
  have got: "got = take (unat len) (rb_bytes ?rb)" using r publish by simp
  have "writer_inv ?rb' (writer s)"
  proof (cases "writer s")
    case (W_copy src l i)
    with assms(2) have "writer_inv ?rb (W_copy src l i)" by (simp add: spsc_inv_def)
    then show ?thesis using W_copy advance_out(2) [OF ok len] by auto
  qed simp
  moreover have "sent s = received s @ rb_bytes ?rb"
    using assms(2) by (simp add: spsc_inv_def)
  ultimately show ?thesis
    using publish(1) advance_out [OF ok len] by (simp add: spsc_inv_def got)
qed

lemma spsc_step_inv: "spsc_step s t \<Longrightarrow> spsc_inv s \<Longrightarrow> spsc_inv t"
  by (auto simp: spsc_step_iff dest: writer_step_inv reader_step_inv)

lemma spsc_inv_start: "rb_ok rb \<Longrightarrow> rb_bytes rb = [] \<Longrightarrow> spsc_inv (spsc_start rb)"
  by (simp add: spsc_inv_def spsc_start_def)

text \<open>The two threads on a ring that is empty at the start, as an instance of the interface.\<close>

definition spsc_init :: "spsc \<Rightarrow> bool" where
  "spsc_init s \<longleftrightarrow> rb_ok (shared_ring s) \<and> rb_bytes (shared_ring s) = [] \<and> s = spsc_start (shared_ring s)"

lemma spsc_init_start: "rb_ok rb \<Longrightarrow> rb_bytes rb = [] \<Longrightarrow> spsc_init (spsc_start rb)"
  by (simp add: spsc_init_def spsc_start_def)

interpretation spsc: state_machine spsc_init spsc_step spsc_inv
proof unfold_locales
  fix s
  assume "spsc_init s"
  then show "spsc_inv s" unfolding spsc_init_def by (metis spsc_inv_start)
qed (rule spsc_step_inv)

section \<open>Steps left in a call\<close>

fun writer_left :: "writer_pc \<Rightarrow> nat" where
  "writer_left W_idle = 0"
| "writer_left (W_copy src len i) = Suc (unat len - i)"

fun reader_left :: "reader_pc \<Rightarrow> nat" where
  "reader_left R_idle = 0"
| "reader_left (R_copy len got) = Suc (unat len - length got)"

lemma writer_enabled:
  assumes "spsc_inv s" and "writer s \<noteq> W_idle"
  shows "\<exists>t. writer_step s t"
proof -
  obtain src len i where w: "writer s = W_copy src len i" using assms(2) by (cases "writer s") auto
  obtain b where b: "m_buffer (shared_ring s) = Some b" using assms(1) by (auto simp: spsc_inv_def elim: rb_okE)
  have "i \<le> unat len" using assms(1) w by (simp add: spsc_inv_def)
  then show ?thesis
    using w_copy [OF w _ refl b] w_publish [of s src len, OF _ refl] w by (cases "i < unat len") auto
qed

lemma reader_enabled:
  assumes "spsc_inv s" and "reader s \<noteq> R_idle"
  shows "\<exists>t. reader_step s t"
proof -
  obtain len got where r: "reader s = R_copy len got" using assms(2) by (cases "reader s") auto
  obtain b where b: "m_buffer (shared_ring s) = Some b" using assms(1) by (auto simp: spsc_inv_def elim: rb_okE)
  have "length got \<le> unat len" using assms(1) r by (simp add: spsc_inv_def)
  then show ?thesis
    using r_copy [OF r _ refl b] r_publish [OF r _ refl] by (cases "length got < unat len") auto
qed

lemma writer_step_left: "writer_step s t \<Longrightarrow> writer s \<noteq> W_idle \<Longrightarrow> writer_left (writer s) = Suc (writer_left (writer t)) \<and> reader t = reader s"
  by (cases rule: writer_step_cases) auto

lemma reader_step_left: "reader_step s t \<Longrightarrow> reader s \<noteq> R_idle \<Longrightarrow> reader_left (reader s) = Suc (reader_left (reader t)) \<and> writer t = writer s"
  by (cases rule: reader_step_cases) auto

lemma step_other: "writer_step s t \<Longrightarrow> reader t = reader s" "reader_step s t \<Longrightarrow> writer t = writer s"
  by (auto elim: writer_stepE reader_stepE)

section \<open>A call without interference\<close>

text \<open>
  When the other thread does not move, the steps of one call add up to what the sequential
  definition computes.
\<close>

definition copied :: "ring_buffer \<Rightarrow> byte list \<Rightarrow> nat \<Rightarrow> byte list \<Rightarrow> byte list" where
  "copied rb src i b = fold (\<lambda>j b. b[ring_slot (m_size rb) (m_in rb) j := src ! j]) [0..<i] b"

lemma length_copied [simp]: "length (copied rb src i b) = length b"
  by (induction i) (simp_all add: copied_def)

lemma copied_Suc: "copied rb src (Suc i) b = (copied rb src i b)[ring_slot (m_size rb) (m_in rb) i := src ! i]"
  by (simp add: copied_def)

lemma nth_copied:
  assumes "is_power_of_2 (m_size rb)" and "length b = unat (m_size rb)" and "i \<le> unat (m_size rb)"
    and "j < unat (m_size rb)"
  shows "copied rb src i b ! ring_slot (m_size rb) (m_in rb) j =
         (if j < i then src ! j else b ! ring_slot (m_size rb) (m_in rb) j)"
  using assms(3)
proof (induction i)
  case 0
  then show ?case by (simp add: copied_def)
next
  case (Suc i)
  show ?case
  proof (cases "j = i")
    case True
    then show ?thesis
      using assms ring_slot_less [OF assms(1)] by (simp add: copied_Suc)
  next
    case False
    then have "ring_slot (m_size rb) (m_in rb) i \<noteq> ring_slot (m_size rb) (m_in rb) j"
      using ring_slot_inj [OF assms(1), of i j "m_in rb"] assms(4) Suc.prems by auto
    with False Suc show ?thesis by (auto simp: copied_Suc)
  qed
qed

lemma ring_slot_onto:
  assumes "is_power_of_2 n" and "p < unat n"
  shows "\<exists>j<unat n. p = ring_slot n x j"
proof -
  let ?j = "(p + unat n - unat x mod unat n) mod unat n"
  have "int ((unat x + ?j) mod unat n) = (int (unat x) + (int p + int (unat n) - int (unat x) mod int (unat n)) mod int (unat n)) mod int (unat n)"
    using assms(2) mod_le_divisor [of "unat n" "unat x"] by (simp add: zmod_int of_nat_diff trans_le_add2)
  also have "\<dots> = int p mod int (unat n)"
    by (simp add: mod_simps algebra_simps)
  also have "\<dots> = int p" by (metis assms(2) mod_less zmod_int)
  finally have "(unat x + ?j) mod unat n = p" by (simp only: of_nat_eq_iff)
  then show ?thesis using assms by (intro exI [of _ ?j]) (simp add: ring_slot_mod)
qed

lemma copied_circ_write:
  assumes "is_power_of_2 (m_size rb)" and "length b = unat (m_size rb)" and "k \<le> length src"
    and "k \<le> unat (m_size rb)"
  shows "copied rb src k b = circ_write (ring_slot (m_size rb) (m_in rb) 0) (take k src) b"
proof (rule nth_equalityI)
  show "length (copied rb src k b) = length (circ_write (ring_slot (m_size rb) (m_in rb) 0) (take k src) b)"
    using assms by (simp add: length_circ_write ring_slot_less)
next
  fix p
  assume "p < length (copied rb src k b)"
  then obtain j where j: "j < unat (m_size rb)" "p = ring_slot (m_size rb) (m_in rb) j"
    using ring_slot_onto [OF assms(1)] assms(2) by auto
  have "circ_write (ring_slot (m_size rb) (m_in rb + 0) 0) (take k src) b ! p =
        (if unat (0 :: u64) \<le> j \<and> j - unat (0 :: u64) < length (take k src)
         then take k src ! (j - unat (0 :: u64)) else b ! p)"
    unfolding j(2) by (rule circ_write_slot) (use assms j in simp_all)
  then show "copied rb src k b ! p = circ_write (ring_slot (m_size rb) (m_in rb) 0) (take k src) b ! p"
    using nth_copied [OF assms(1,2,4) j(1), of src] j(2) assms(3) by simp
qed

lemma writer_copies:
  assumes "is_power_of_2 (m_size rb)" and "unat len \<le> unat (m_size rb)" and "i \<le> unat len"
  shows "writer_step\<^sup>*\<^sup>* (s\<lparr>shared_ring := rb\<lparr>m_buffer := Some b\<rparr>, writer := W_copy src len 0\<rparr>)
           (s\<lparr>shared_ring := rb\<lparr>m_buffer := Some (copied rb src i b)\<rparr>, writer := W_copy src len i\<rparr>)"
  using assms(3)
proof (induction i)
  case 0
  then show ?case by (simp add: copied_def)
next
  case (Suc i)
  let ?s = "s\<lparr>shared_ring := rb\<lparr>m_buffer := Some (copied rb src i b)\<rparr>, writer := W_copy src len i\<rparr>"
  from Suc.prems have i: "i < unat len" by simp
  have "writer_step ?s (?s\<lparr>shared_ring := rb\<lparr>m_buffer := Some ((copied rb src i b)[copy_pos (m_size rb) (m_in rb) len i := src ! i])\<rparr>,
                       writer := W_copy src len (Suc i)\<rparr>)"
    using w_copy [of ?s src len i "rb\<lparr>m_buffer := Some (copied rb src i b)\<rparr>" "copied rb src i b"] i by simp
  then have "writer_step ?s (s\<lparr>shared_ring := rb\<lparr>m_buffer := Some (copied rb src (Suc i) b)\<rparr>, writer := W_copy src len (Suc i)\<rparr>)"
    using copy_pos_slot [OF assms(1) i assms(2)] by (simp add: copied_Suc)
  with Suc show ?case by (simp add: rtranclp.rtrancl_into_rtrancl)
qed

lemma writer_runs_alone:
  assumes "rb_ok (shared_ring s)" and "writer s = W_idle" and "unat n \<le> length src"
    and "ring_buffer_write (shared_ring s) (Some src) n = Inr (k, rb')"
  shows "writer_step\<^sup>*\<^sup>* s (s\<lparr>shared_ring := rb', sent := sent s @ take (unat k) src\<rparr>)"
proof -
  let ?rb = "shared_ring s"
  from assms(1) obtain b where b: "m_buffer ?rb = Some b" "length b = unat (m_size ?rb)"
    "is_power_of_2 (m_size ?rb)" by (rule rb_okE)
  from ring_buffer_write_eq [OF assms(1) b(1) assms(3)] assms(4)
  have k: "k = min n (m_size ?rb - m_in ?rb + m_out ?rb)"
    and rb': "rb' = ?rb\<lparr>m_buffer := Some (circ_write (ring_slot (m_size ?rb) (m_in ?rb) 0) (take (unat k) src) b),
                         m_in := m_in ?rb + k\<rparr>" by simp_all
  have le: "unat k \<le> length src" "unat k \<le> unat (m_size ?rb)"
    using write_space [OF assms(1)] assms(3) by (auto simp: k unat_min rb_free_def)
  have start: "s\<lparr>shared_ring := ?rb\<lparr>m_buffer := Some b\<rparr>, writer := W_copy src k 0\<rparr> = s\<lparr>writer := W_copy src k 0\<rparr>"
    using b(1) by simp
  let ?t = "s\<lparr>shared_ring := ?rb\<lparr>m_buffer := Some (copied ?rb src (unat k) b)\<rparr>, writer := W_copy src k (unat k)\<rparr>"
  have st: "writer_step s (s\<lparr>writer := W_copy src k 0\<rparr>)"
    unfolding k by (rule w_sample [OF assms(2,3) refl])
  have mid: "writer_step\<^sup>*\<^sup>* (s\<lparr>writer := W_copy src k 0\<rparr>) ?t"
    using writer_copies [OF b(3) le(2) order_refl, where s = s and src = src and b = b] unfolding start .
  have fin: "writer_step ?t (?t\<lparr>shared_ring := rb', writer := W_idle, sent := sent s @ take (unat k) src\<rparr>)"
    using w_publish [of ?t src k] copied_circ_write [OF b(3,2) le] by (simp add: rb')
  have eq: "?t\<lparr>shared_ring := rb', writer := W_idle, sent := sent s @ take (unat k) src\<rparr> =
      s\<lparr>shared_ring := rb', sent := sent s @ take (unat k) src\<rparr>"
    using assms(2) by (cases s) simp
  from st rtranclp.rtrancl_into_rtrancl [OF mid fin]
  have "writer_step\<^sup>*\<^sup>* s (?t\<lparr>shared_ring := rb', writer := W_idle, sent := sent s @ take (unat k) src\<rparr>)"
    by (rule converse_rtranclp_into_rtranclp)
  then show ?thesis by (simp only: eq)
qed

section \<open>Properties\<close>

text \<open>
  C1: In every interleaving of one writer and one reader on a freshly allocated ring, what
  the reader has taken is a prefix of what the writer has published, the published rest is
  exactly what the ring holds, and the ring never exceeds its size: no byte is lost,
  duplicated, reordered, or read before it is completely written.
\<close>

theorem spsc_fifo:
  assumes "rb_ok rb" and "rb_bytes rb = []" and "spsc_step\<^sup>*\<^sup>* (spsc_start rb) s"
  shows "sent s = received s @ rb_bytes (shared_ring s)
       \<and> length (rb_bytes (shared_ring s)) \<le> unat (m_size (shared_ring s))"
  using spsc.reachable_inv [OF assms(3) spsc_init_start [OF assms(1,2)]]
  by (auto simp: spsc_inv_def rb_bytes_bound)

definition empty_ring2 :: ring_buffer where
  "empty_ring2 = \<lparr>m_buffer = Some [0, 0], m_size = 2, m_in = 0, m_out = 0, m_shared = False\<rparr>"

lemma empty_ring2_ok: "rb_ok empty_ring2" "rb_bytes empty_ring2 = []"
  by (simp_all add: rb_ok_def rb_bytes_def empty_ring2_def is_power_of_2_def)

theorem spsc_fifo_witness:
  "\<exists>s. spsc_step\<^sup>*\<^sup>* (spsc_start empty_ring2) s \<and> sent s = [5]
     \<and> sent s = received s @ rb_bytes (shared_ring s)"
proof -
  obtain k rb' where w: "ring_buffer_write empty_ring2 (Some [5]) 1 = Inr (k, rb')" "unat k = 1"
    using ring_buffer_write_ok [OF empty_ring2_ok(1), of 1 "[5]"] empty_ring2_ok(2)
    by (auto simp: rb_free_def empty_ring2_def)
  let ?s = "spsc_start empty_ring2"
  let ?t = "?s\<lparr>shared_ring := rb', sent := sent ?s @ take (unat k) [5]\<rparr>"
  have "writer_step\<^sup>*\<^sup>* ?s ?t"
    by (rule writer_runs_alone) (use w empty_ring2_ok in \<open>simp_all add: spsc_start_def\<close>)
  then have t: "spsc_step\<^sup>*\<^sup>* ?s ?t"
    by (rule rtranclp_mono [THEN predicate2D, rotated]) (auto intro: by_writer)
  moreover have "sent ?t = [5]" using w(2) by (simp add: spsc_start_def)
  ultimately show ?thesis
    using spsc_fifo [OF empty_ring2_ok t] by blast
qed



text \<open>
  The sequential definition of a write is the solo run of the interleaved one: when the
  reader stands still, the writer's steps lead exactly to the ring \<open>ring_buffer_write\<close> returns.
\<close>

lemma spsc_write_refines:
  assumes "rb_ok (shared_ring s)" and "writer s = W_idle" and "unat n \<le> length src"
  shows "\<exists>k rb'. ring_buffer_write (shared_ring s) (Some src) n = Inr (k, rb')
           \<and> spsc_step\<^sup>*\<^sup>* s (s\<lparr>shared_ring := rb', sent := sent s @ take (unat k) src\<rparr>)"
proof -
  from ring_buffer_write_ok [OF assms(1,3)] obtain k rb' where
    w: "ring_buffer_write (shared_ring s) (Some src) n = Inr (k, rb')" by blast
  have "writer_step\<^sup>*\<^sup>* s (s\<lparr>shared_ring := rb', sent := sent s @ take (unat k) src\<rparr>)"
    by (rule writer_runs_alone [OF assms w])
  then have "spsc_step\<^sup>*\<^sup>* s (s\<lparr>shared_ring := rb', sent := sent s @ take (unat k) src\<rparr>)"
    by (rule rtranclp_mono [THEN predicate2D, rotated]) (auto intro: by_writer)
  with w show ?thesis by blast
qed

lemma spsc_write_refines_witness:
  "\<exists>k rb'. ring_buffer_write empty_ring2 (Some [5, 6, 7]) 3 = Inr (k, rb')
     \<and> spsc_step\<^sup>*\<^sup>* (spsc_start empty_ring2)
         ((spsc_start empty_ring2)\<lparr>shared_ring := rb', sent := take (unat k) [5, 6, 7]\<rparr>)"
  using spsc_write_refines [of "spsc_start empty_ring2" 3 "[5, 6, 7]"] empty_ring2_ok
  by (simp add: spsc_start_def)

text \<open>
  C24: Both operations are wait-free: a thread inside a call is never blocked, whatever the other one
  is doing; every step of its own brings it one step closer to the end of the call, and
  no step of the other thread moves it back. A call that transfers \<open>k\<close> bytes has \<open>k + 1\<close> steps
  left once it has looked at the other thread's index.
\<close>

theorem spsc_wait_free:
  assumes "rb_ok rb" and "rb_bytes rb = []" and "spsc_step\<^sup>*\<^sup>* (spsc_start rb) s"
  shows "(writer s \<noteq> W_idle \<longrightarrow> (\<exists>t. writer_step s t))
    \<and> (reader s \<noteq> R_idle \<longrightarrow> (\<exists>t. reader_step s t))
    \<and> (\<forall>t. writer_step s t \<longrightarrow> reader t = reader s
          \<and> (if writer s = W_idle then (\<exists>src len. writer t = W_copy src len 0 \<and> writer_left (writer t) = Suc (unat len))
             else writer_left (writer s) = Suc (writer_left (writer t))))
    \<and> (\<forall>t. reader_step s t \<longrightarrow> writer t = writer s
          \<and> (if reader s = R_idle then (\<exists>len. reader t = R_copy len [] \<and> reader_left (reader t) = Suc (unat len))
             else reader_left (reader s) = Suc (reader_left (reader t))))"
proof -
  have inv: "spsc_inv s" by (rule spsc.reachable_inv [OF assms(3) spsc_init_start [OF assms(1,2)]])
  have "\<exists>src len. writer t = W_copy src len 0 \<and> writer_left (writer t) = Suc (unat len)"
    if "writer_step s t" "writer s = W_idle" for t using that by (cases rule: writer_step_cases) auto
  moreover have "\<exists>len. reader t = R_copy len [] \<and> reader_left (reader t) = Suc (unat len)"
    if "reader_step s t" "reader s = R_idle" for t using that by (cases rule: reader_step_cases) auto
  ultimately show ?thesis
    using writer_enabled [OF inv] reader_enabled [OF inv] step_other writer_step_left reader_step_left by auto
qed

theorem spsc_wait_free_witness:
  "let s = (spsc_start empty_ring2)\<lparr>writer := W_copy [5, 6] 2 0\<rparr> in \<exists>t. writer_step s t"
proof -
  let ?s = "(spsc_start empty_ring2)\<lparr>writer := W_copy [5, 6] 2 0\<rparr>"
  have "writer_step (spsc_start empty_ring2) ?s"
    using w_sample [of "spsc_start empty_ring2" 2 "[5, 6]"] by (simp add: spsc_start_def empty_ring2_def)
  then have "spsc_step\<^sup>*\<^sup>* (spsc_start empty_ring2) ?s" by (auto intro: by_writer)
  from spsc_wait_free [OF empty_ring2_ok this] show ?thesis by simp
qed

end
