(* ===== verification/Queue_Concurrent.thy ===== *)
theory Queue_Concurrent
  imports Shared_Queue Ring_Concurrent
begin

text \<open>
  \<open>SharedQueue::write\<close> and \<open>SharedQueue::read\<close> of \<open>shared_queue.cpp\<close> in two threads: the test for
  room, the steps of the ring, and then the byte written to the pipe; the test for a message, the
  steps of the ring, and then the byte taken from the pipe. Messages have one size, \<open>n\<close>. The pipe
  holds at most \<open>cap\<close> bytes and does not block. With \<open>poll\<close>, the reader calls \<open>read\<close> only when the
  descriptor of the pipe is readable, which is what \<open>get_read_fd\<close> is for. \<open>Queue_Tso\<close> adds
  store buffers.
\<close>

section \<open>Steps\<close>

datatype queue_writer = QW_idle | QW_checked "byte list" | QW_copying | QW_notify
datatype queue_reader = QR_idle | QR_called | QR_checked | QR_copying | QR_clear

text \<open>The last field counts the reads that have returned -1.\<close>

record queue_run =
  q_ring :: spsc
  q_writer :: queue_writer
  q_reader :: queue_reader
  q_pending :: nat
  q_failed :: nat

definition q_size :: "queue_run \<Rightarrow> u64" where
  "q_size q = ring_buffer_size (shared_ring (q_ring q))"

definition q_readable :: "queue_run \<Rightarrow> u64" where
  "q_readable q = ring_buffer_readable_size (shared_ring (q_ring q))"

definition q_writeable :: "queue_run \<Rightarrow> u64" where
  "q_writeable q = q_size q - q_readable q"

inductive queue_writer_step :: "nat \<Rightarrow> u64 \<Rightarrow> queue_run \<Rightarrow> queue_run \<Rightarrow> bool" for cap n where
  qw_full: "q_writer q = QW_idle \<Longrightarrow> q_writeable q < n \<Longrightarrow> queue_writer_step cap n q q"
| qw_check: "q_writer q = QW_idle \<Longrightarrow> length src = unat n \<Longrightarrow> \<not> q_writeable q < n \<Longrightarrow>
    queue_writer_step cap n q (q\<lparr>q_writer := QW_checked src\<rparr>)"
| qw_sample: "q_writer q = QW_checked src \<Longrightarrow> rb = shared_ring (q_ring q) \<Longrightarrow>
    queue_writer_step cap n q
      (q\<lparr>q_ring := (q_ring q)\<lparr>writer := W_copy src (min n (m_size rb - m_in rb + m_out rb)) 0\<rparr>, q_writer := QW_copying\<rparr>)"
| qw_copy: "q_writer q = QW_copying \<Longrightarrow> writer_step (q_ring q) s \<Longrightarrow> writer s \<noteq> W_idle \<Longrightarrow>
    queue_writer_step cap n q (q\<lparr>q_ring := s\<rparr>)"
| qw_publish: "q_writer q = QW_copying \<Longrightarrow> writer (q_ring q) = W_copy src len i \<Longrightarrow>
    writer_step (q_ring q) s \<Longrightarrow> writer s = W_idle \<Longrightarrow>
    queue_writer_step cap n q (q\<lparr>q_ring := s, q_writer := (if len = 0 then QW_idle else QW_notify)\<rparr>)"
| qw_notify: "q_writer q = QW_notify \<Longrightarrow>
    queue_writer_step cap n q
      (q\<lparr>q_pending := (if q_pending q < cap then Suc (q_pending q) else q_pending q), q_writer := QW_idle\<rparr>)"

inductive queue_reader_step :: "bool \<Rightarrow> u64 \<Rightarrow> queue_run \<Rightarrow> queue_run \<Rightarrow> bool" for poll n where
  qr_call: "q_reader q = QR_idle \<Longrightarrow> poll \<longrightarrow> 0 < q_pending q \<Longrightarrow> queue_reader_step poll n q (q\<lparr>q_reader := QR_called\<rparr>)"
| qr_empty: "q_reader q = QR_called \<Longrightarrow> q_readable q < n \<Longrightarrow>
    queue_reader_step poll n q (q\<lparr>q_reader := QR_idle, q_failed := Suc (q_failed q)\<rparr>)"
| qr_check: "q_reader q = QR_called \<Longrightarrow> \<not> q_readable q < n \<Longrightarrow> queue_reader_step poll n q (q\<lparr>q_reader := QR_checked\<rparr>)"
| qr_sample: "q_reader q = QR_checked \<Longrightarrow> rb = shared_ring (q_ring q) \<Longrightarrow>
    queue_reader_step poll n q
      (q\<lparr>q_ring := (q_ring q)\<lparr>reader := R_copy (min n (m_in rb - m_out rb)) []\<rparr>, q_reader := QR_copying\<rparr>)"
| qr_copy: "q_reader q = QR_copying \<Longrightarrow> reader_step (q_ring q) s \<Longrightarrow> reader s \<noteq> R_idle \<Longrightarrow>
    queue_reader_step poll n q (q\<lparr>q_ring := s\<rparr>)"
| qr_publish: "q_reader q = QR_copying \<Longrightarrow> reader (q_ring q) = R_copy len got \<Longrightarrow>
    reader_step (q_ring q) s \<Longrightarrow> reader s = R_idle \<Longrightarrow>
    queue_reader_step poll n q
      (q\<lparr>q_ring := s, q_reader := (if len = 0 then QR_idle else QR_clear),
         q_failed := (if len = 0 then Suc (q_failed q) else q_failed q)\<rparr>)"
| qr_clear: "q_reader q = QR_clear \<Longrightarrow>
    queue_reader_step poll n q (q\<lparr>q_pending := q_pending q - 1, q_reader := QR_idle\<rparr>)"

inductive queue_run_step :: "nat \<Rightarrow> bool \<Rightarrow> u64 \<Rightarrow> queue_run \<Rightarrow> queue_run \<Rightarrow> bool" for cap poll n where
  by_queue_writer: "queue_writer_step cap n q q' \<Longrightarrow> queue_run_step cap poll n q q'"
| by_queue_reader: "queue_reader_step poll n q q' \<Longrightarrow> queue_run_step cap poll n q q'"

inductive_cases queue_writer_stepE: "queue_writer_step cap n q q'"
inductive_cases queue_reader_stepE: "queue_reader_step poll n q q'"
lemmas queue_writer_cases = queue_writer_stepE [consumes 1, case_names full check sample copy publish notify]
lemmas queue_reader_cases = queue_reader_stepE [consumes 1, case_names call empty check sample copy publish clear]
inductive_simps queue_run_step_iff: "queue_run_step cap poll n q q'"

definition queue_run_start :: "ring_buffer \<Rightarrow> queue_run" where
  "queue_run_start rb = \<lparr>q_ring = spsc_start rb, q_writer = QW_idle, q_reader = QR_idle, q_pending = 0, q_failed = 0\<rparr>"

section \<open>What a step of the ring does to its bytes\<close>

abbreviation ring_bytes :: "spsc \<Rightarrow> byte list" where
  "ring_bytes s \<equiv> rb_bytes (shared_ring s)"

lemma writer_step_bytes:
  assumes "writer_step s t" and "spsc_inv s" and "writer s = W_copy src len i"
  shows "spsc_inv t" and "reader t = reader s" and "m_size (shared_ring t) = m_size (shared_ring s)"
    and "writer t \<noteq> W_idle \<Longrightarrow> \<exists>j. writer t = W_copy src len j" and "writer t \<noteq> W_idle \<Longrightarrow> ring_bytes t = ring_bytes s"
    and "writer t = W_idle \<Longrightarrow> ring_bytes t = ring_bytes s @ take (unat len) src"
proof -
  show inv: "spsc_inv t" by (rule writer_step_inv [OF assms(1,2)])
  from assms(1,3) show "reader t = reader s" "m_size (shared_ring t) = m_size (shared_ring s)"
    "writer t \<noteq> W_idle \<Longrightarrow> \<exists>j. writer t = W_copy src len j"
    by (cases rule: writer_step_cases; auto)+
  from inv assms(2) have eq: "sent t = received t @ ring_bytes t" "sent s = received s @ ring_bytes s"
    by (simp_all add: spsc_inv_def)
  show "writer t \<noteq> W_idle \<Longrightarrow> ring_bytes t = ring_bytes s"
    "writer t = W_idle \<Longrightarrow> ring_bytes t = ring_bytes s @ take (unat len) src"
    using assms(1,3) eq by (cases rule: writer_step_cases; auto)+
qed

lemma reader_step_bytes:
  assumes "reader_step s t" and "spsc_inv s" and "reader s = R_copy len got"
  shows "spsc_inv t" and "writer t = writer s" and "m_size (shared_ring t) = m_size (shared_ring s)"
    and "reader t \<noteq> R_idle \<Longrightarrow> \<exists>got'. reader t = R_copy len got'" and "reader t \<noteq> R_idle \<Longrightarrow> ring_bytes t = ring_bytes s"
    and "reader t = R_idle \<Longrightarrow> ring_bytes s = got @ ring_bytes t \<and> length got = unat len"
proof -
  show inv: "spsc_inv t" by (rule reader_step_inv [OF assms(1,2)])
  from assms(1,3) show "writer t = writer s" "m_size (shared_ring t) = m_size (shared_ring s)"
    "reader t \<noteq> R_idle \<Longrightarrow> \<exists>got'. reader t = R_copy len got'"
    by (cases rule: reader_step_cases; auto)+
  from inv assms(2) have eq: "sent t = received t @ ring_bytes t" "sent s = received s @ ring_bytes s"
    by (simp_all add: spsc_inv_def)
  show "reader t \<noteq> R_idle \<Longrightarrow> ring_bytes t = ring_bytes s"
    "reader t = R_idle \<Longrightarrow> ring_bytes s = got @ ring_bytes t \<and> length got = unat len"
    using assms(1,3) eq by (cases rule: reader_step_cases; auto)+
qed

section \<open>The invariant\<close>

text \<open>Where the two calls are, against where their calls of the ring are.\<close>

fun writer_phase_ok :: "u64 \<Rightarrow> spsc \<Rightarrow> queue_writer \<Rightarrow> bool" where
  "writer_phase_ok n s QW_copying \<longleftrightarrow> (\<exists>src i. writer s = W_copy src n i)"
| "writer_phase_ok n s (QW_checked src) \<longleftrightarrow> writer s = W_idle \<and> length src = unat n
     \<and> length (ring_bytes s) + unat n \<le> unat (m_size (shared_ring s))"
| "writer_phase_ok n s _ \<longleftrightarrow> writer s = W_idle"

fun reader_phase_ok :: "u64 \<Rightarrow> spsc \<Rightarrow> queue_reader \<Rightarrow> bool" where
  "reader_phase_ok n s QR_copying \<longleftrightarrow> (\<exists>got. reader s = R_copy n got)"
| "reader_phase_ok n s QR_checked \<longleftrightarrow> reader s = R_idle \<and> unat n \<le> length (ring_bytes s)"
| "reader_phase_ok n s _ \<longleftrightarrow> reader s = R_idle"

definition phases_ok :: "u64 \<Rightarrow> queue_run \<Rightarrow> bool" where
  "phases_ok n q \<longleftrightarrow> writer_phase_ok n (q_ring q) (q_writer q) \<and> reader_phase_ok n (q_ring q) (q_reader q)"

lemma writer_phase_mono:
  "writer_phase_ok n s w \<Longrightarrow> writer t = writer s \<Longrightarrow> m_size (shared_ring t) = m_size (shared_ring s) \<Longrightarrow>
   length (ring_bytes t) \<le> length (ring_bytes s) \<Longrightarrow> writer_phase_ok n t w"
  by (cases w) auto

lemma reader_phase_mono:
  "reader_phase_ok n s r \<Longrightarrow> reader t = reader s \<Longrightarrow> length (ring_bytes s) \<le> length (ring_bytes t) \<Longrightarrow> reader_phase_ok n t r"
  by (cases r) auto

text \<open>
  The ring holds whole messages; each has its byte in the pipe, but for the one whose writer has not
  got that far; and the byte of the message taken last is still there until the reader takes it out.
\<close>

definition accounts_ok :: "nat \<Rightarrow> u64 \<Rightarrow> queue_run \<Rightarrow> bool" where
  "accounts_ok cap n q \<longleftrightarrow>
     (\<exists>k. length (ring_bytes (q_ring q)) = k * unat n
        \<and> q_pending q + (if q_writer q = QW_notify then 1 else 0) = k + (if q_reader q = QR_clear then 1 else 0))
   \<and> (q_reader q \<noteq> QR_idle \<longrightarrow> 0 < q_pending q) \<and> q_failed q = 0
   \<and> unat (m_size (shared_ring (q_ring q))) div unat n < cap"

definition queue_run_inv :: "nat \<Rightarrow> u64 \<Rightarrow> queue_run \<Rightarrow> bool" where
  "queue_run_inv cap n q \<longleftrightarrow> spsc_inv (q_ring q) \<and> phases_ok n q \<and> accounts_ok cap n q"

lemma q_sizes:
  assumes "spsc_inv (q_ring q)"
  shows "unat (q_readable q) = length (ring_bytes (q_ring q))"
    and "unat (q_writeable q) = unat (m_size (shared_ring (q_ring q))) - length (ring_bytes (q_ring q))"
    and "length (ring_bytes (q_ring q)) \<le> unat (m_size (shared_ring (q_ring q)))"
proof -
  have ok: "rb_ok (shared_ring (q_ring q))" using assms by (simp add: spsc_inv_def)
  show r: "unat (q_readable q) = length (ring_bytes (q_ring q))"
    unfolding q_readable_def by (rule readable_length [OF ok])
  show le: "length (ring_bytes (q_ring q)) \<le> unat (m_size (shared_ring (q_ring q)))" by (rule rb_bytes_bound [OF ok])
  show "unat (q_writeable q) = unat (m_size (shared_ring (q_ring q))) - length (ring_bytes (q_ring q))"
    using r le unat_sub [of "q_readable q" "q_size q"]
    by (simp add: q_writeable_def q_size_def ring_buffer_size_def word_le_nat_alt)
qed

lemma room_min:
  assumes "spsc_inv s" and "rb = shared_ring s" and "length (ring_bytes s) + unat n \<le> unat (m_size rb)"
  shows "min n (m_size rb - m_in rb + m_out rb) = n"
proof -
  have "rb_ok rb" using assms(1,2) by (simp add: spsc_inv_def)
  from write_space [OF this] have "unat n \<le> unat (m_size rb - m_in rb + m_out rb)"
    using assms(2,3) by (simp add: rb_free_def)
  then show ?thesis by (simp add: min_def word_le_nat_alt)
qed

lemma avail_min:
  assumes "spsc_inv s" and "rb = shared_ring s" and "unat n \<le> length (ring_bytes s)"
  shows "min n (m_in rb - m_out rb) = n"
proof -
  have "rb_ok rb" using assms(1,2) by (simp add: spsc_inv_def)
  from length_rb_bytes [OF this] show ?thesis using assms(2,3) by (simp add: min_def word_le_nat_alt)
qed

lemma queue_writer_inv:
  assumes "queue_writer_step cap n q q'" and "queue_run_inv cap n q" and "n \<noteq> 0"
  shows "queue_run_inv cap n q'"
proof -
  let ?s = "q_ring q"
  have inv: "spsc_inv ?s" and ph: "phases_ok n q" and ac: "accounts_ok cap n q"
    using assms(2) by (simp_all add: queue_run_inv_def)
  have n0: "0 < unat n" using assms(3) by (simp add: unat_gt_0)
  show ?thesis using assms(1)
  proof (cases rule: queue_writer_cases)
    case full
    with assms(2) show ?thesis by simp
  next
    case (check src)
    then have "length (ring_bytes ?s) + unat n \<le> unat (m_size (shared_ring ?s))"
      using q_sizes [OF inv] by (simp add: not_less word_le_nat_alt)
    with check inv ph ac show ?thesis by (simp add: queue_run_inv_def phases_ok_def accounts_ok_def)
  next
    case (sample src)
    with ph have w: "writer ?s = W_idle" "length src = unat n" and
      room: "length (ring_bytes ?s) + unat n \<le> unat (m_size (shared_ring ?s))" by (simp_all add: phases_ok_def)
    note m = room_min [OF inv refl room]
    have "writer_step ?s (?s\<lparr>writer := W_copy src n 0\<rparr>)"
      using w_sample [OF w(1) _ refl, of n src] w(2) m by simp
    from writer_step_inv [OF this inv] show ?thesis
      using sample m room ph ac by (auto simp: queue_run_inv_def phases_ok_def accounts_ok_def intro: reader_phase_mono)
  next
    case (copy s)
    with ph obtain src i where w: "writer ?s = W_copy src n i" by (auto simp: phases_ok_def)
    note st = writer_step_bytes [OF copy(3) inv w]
    show ?thesis
      using copy ph ac st(1-3) st(4,5) [OF copy(4)]
      by (auto simp: queue_run_inv_def phases_ok_def accounts_ok_def intro: reader_phase_mono)
  next
    case (publish src len i s)
    with ph have len: "len = n" by (auto simp: phases_ok_def)
    note st = writer_step_bytes [OF publish(4) inv publish(3)]
    have "writer_inv (shared_ring ?s) (W_copy src len i)" using inv publish(3) by (simp add: spsc_inv_def)
    then have "length (take (unat n) src) = unat n" using len by simp
    with st(6) [OF publish(5)] len have l: "length (ring_bytes s) = length (ring_bytes ?s) + unat n" by simp
    from ac obtain k where k: "length (ring_bytes ?s) = k * unat n" "q_pending q = k + (if q_reader q = QR_clear then 1 else 0)"
      using publish(2) by (auto simp: accounts_ok_def)
    have "phases_ok n q'" using publish ph st(2) l assms(3) len by (auto simp: phases_ok_def intro: reader_phase_mono)
    moreover have "accounts_ok cap n q'"
      using publish ac k l st(3) assms(3) len by (auto simp: accounts_ok_def intro!: exI [of _ "Suc k"])
    ultimately show ?thesis using st(1) publish by (simp add: queue_run_inv_def)
  next
    case notify
    from ac obtain k where k: "length (ring_bytes ?s) = k * unat n" "q_pending q + 1 = k + (if q_reader q = QR_clear then 1 else 0)"
      using notify(2) by (auto simp: accounts_ok_def)
    have "k \<le> unat (m_size (shared_ring ?s)) div unat n"
      using q_sizes(3) [OF inv] n0 k(1) by (simp add: less_eq_div_iff_mult_less_eq)
    then have "q_pending q < cap" using ac k(2) by (auto simp: accounts_ok_def split: if_splits)
    with notify inv ph ac k show ?thesis
      by (auto simp: queue_run_inv_def phases_ok_def accounts_ok_def split: if_splits)
  qed
qed

lemma queue_reader_inv:
  assumes "queue_reader_step True n q q'" and "queue_run_inv cap n q" and "n \<noteq> 0"
  shows "queue_run_inv cap n q'"
proof -
  let ?s = "q_ring q"
  have inv: "spsc_inv ?s" and ph: "phases_ok n q" and ac: "accounts_ok cap n q"
    using assms(2) by (simp_all add: queue_run_inv_def)
  have n0: "0 < unat n" using assms(3) by (simp add: unat_gt_0)
  show ?thesis using assms(1)
  proof (cases rule: queue_reader_cases)
    case call
    with inv ph ac show ?thesis by (simp add: queue_run_inv_def phases_ok_def accounts_ok_def)
  next
    case empty
    from ac obtain k where k: "length (ring_bytes ?s) = k * unat n" "0 < q_pending q"
        "q_pending q + (if q_writer q = QW_notify then 1 else 0) = k"
      using empty(2) by (auto simp: accounts_ok_def)
    then have "unat n \<le> length (ring_bytes ?s)" by simp
    with empty(3) q_sizes(1) [OF inv] show ?thesis by (simp add: word_less_nat_alt)
  next
    case check
    then have "unat n \<le> length (ring_bytes ?s)" using q_sizes(1) [OF inv] by (simp add: word_less_nat_alt)
    with check inv ph ac show ?thesis by (simp add: queue_run_inv_def phases_ok_def accounts_ok_def)
  next
    case sample
    with ph have r: "reader ?s = R_idle" and av: "unat n \<le> length (ring_bytes ?s)" by (simp_all add: phases_ok_def)
    note m = avail_min [OF inv refl av]
    have "reader_step ?s (?s\<lparr>reader := R_copy n []\<rparr>)" using r_sample [OF r refl, of n] m by simp
    from reader_step_inv [OF this inv] show ?thesis
      using sample m ph ac by (auto simp: queue_run_inv_def phases_ok_def accounts_ok_def intro: writer_phase_mono)
  next
    case (copy s)
    with ph obtain got where r: "reader ?s = R_copy n got" by (auto simp: phases_ok_def)
    note st = reader_step_bytes [OF copy(3) inv r]
    show ?thesis
      using copy ph ac st(1-3) st(4,5) [OF copy(4)]
      by (auto simp: queue_run_inv_def phases_ok_def accounts_ok_def intro: writer_phase_mono)
  next
    case (publish len got s)
    with ph have len: "len = n" by (auto simp: phases_ok_def)
    note st = reader_step_bytes [OF publish(4) inv publish(3)]
    have l: "length (ring_bytes ?s) = unat n + length (ring_bytes s)" using st(6) [OF publish(5)] len by auto
    from ac obtain k where k: "length (ring_bytes ?s) = k * unat n"
        "q_pending q + (if q_writer q = QW_notify then 1 else 0) = k"
      using publish(2) by (auto simp: accounts_ok_def)
    obtain k' where k': "k = Suc k'" using l k(1) n0 by (cases k) auto
    have "phases_ok n q'" using publish ph st(2,3) l assms(3) len by (auto simp: phases_ok_def intro: writer_phase_mono)
    moreover have "accounts_ok cap n q'"
      using publish ac k k' l st(3) assms(3) len by (auto simp: accounts_ok_def intro!: exI [of _ k'])
    ultimately show ?thesis using st(1) publish by (simp add: queue_run_inv_def)
  next
    case clear
    then have "0 < q_pending q" using ac by (simp add: accounts_ok_def)
    with clear inv ph ac show ?thesis
      by (auto simp: queue_run_inv_def phases_ok_def accounts_ok_def)
  qed
qed

definition queue_run_init :: "nat \<Rightarrow> u64 \<Rightarrow> queue_run \<Rightarrow> bool" where
  "queue_run_init cap n q \<longleftrightarrow> (let rb = shared_ring (q_ring q) in
     rb_ok rb \<and> rb_bytes rb = [] \<and> n \<noteq> 0 \<and> unat (m_size rb) div unat n < cap \<and> q = queue_run_start rb)"

lemma queue_run_init_start:
  "rb_ok rb \<Longrightarrow> rb_bytes rb = [] \<Longrightarrow> n \<noteq> 0 \<Longrightarrow> unat (m_size rb) div unat n < cap \<Longrightarrow> queue_run_init cap n (queue_run_start rb)"
  by (simp add: queue_run_init_def queue_run_start_def spsc_start_def)

lemma queue_run_start_inv:
  assumes "queue_run_init cap n q"
  shows "queue_run_inv cap n q"
proof -
  from assms obtain rb where rb: "rb_ok rb" "rb_bytes rb = []" "unat (m_size rb) div unat n < cap" "q = queue_run_start rb"
    unfolding queue_run_init_def Let_def by blast
  then show ?thesis
    using spsc_inv_start [OF rb(1,2)]
    by (simp add: queue_run_inv_def queue_run_start_def phases_ok_def accounts_ok_def spsc_start_def)
qed

interpretation queue_threads: state_machine "queue_run_init cap n" "queue_run_step cap True n"
  "\<lambda>q. n \<noteq> 0 \<and> queue_run_inv cap n q"
proof (unfold_locales, goal_cases)
  case (1 q)
  then show ?case using queue_run_start_inv [OF 1] by (simp add: queue_run_init_def Let_def)
next
  case (2 q q')
  then show ?case by (auto simp: queue_run_step_iff dest: queue_writer_inv queue_reader_inv)
qed

section \<open>Whole calls for one byte\<close>

lemma queue_writes_byte:
  assumes "q_writer q = QW_idle" and "writer (q_ring q) = W_idle" and "rb = shared_ring (q_ring q)"
    and "m_buffer rb = Some b" and "\<not> q_writeable q < 1" and "min 1 (m_size rb - m_in rb + m_out rb) = 1"
  shows "(queue_run_step cap poll 1)\<^sup>*\<^sup>* q (q\<lparr>q_ring := (q_ring q)\<lparr>
      shared_ring := rb\<lparr>m_buffer := Some (b[copy_pos (m_size rb) (m_in rb) 1 0 := v]), m_in := m_in rb + 1\<rparr>,
      sent := sent (q_ring q) @ [v]\<rparr>, q_writer := QW_notify\<rparr>)"
proof -
  let ?s = "q_ring q"
  let ?b = "b[copy_pos (m_size rb) (m_in rb) 1 0 := v]"
  let ?s2 = "?s\<lparr>writer := W_copy [v] 1 0\<rparr>"
  let ?s3 = "?s\<lparr>shared_ring := rb\<lparr>m_buffer := Some ?b\<rparr>, writer := W_copy [v] 1 1\<rparr>"
  let ?s4 = "?s\<lparr>shared_ring := rb\<lparr>m_buffer := Some ?b, m_in := m_in rb + 1\<rparr>, writer := W_idle, sent := sent ?s @ [v]\<rparr>"
  let ?q1 = "q\<lparr>q_writer := QW_checked [v]\<rparr>"
  let ?q2 = "?q1\<lparr>q_ring := ?s2, q_writer := QW_copying\<rparr>"
  let ?q3 = "?q2\<lparr>q_ring := ?s3\<rparr>"
  let ?q4 = "?q3\<lparr>q_ring := ?s4, q_writer := QW_notify\<rparr>"
  have "queue_writer_step cap 1 q ?q1" using qw_check [of q "[v]" 1 cap] assms(1,5) by simp
  moreover have "queue_writer_step cap 1 ?q1 ?q2" using qw_sample [of ?q1 "[v]" rb cap 1] assms(3,6) by simp
  moreover have "writer_step ?s2 ?s3" using w_copy [of ?s2 "[v]" 1 0 rb b] assms(3,4) by simp
  then have "queue_writer_step cap 1 ?q2 ?q3" using qw_copy [of ?q2 ?s3 cap 1] by simp
  moreover have "writer_step ?s3 ?s4" using w_publish [of ?s3 "[v]" 1 "rb\<lparr>m_buffer := Some ?b\<rparr>"] by simp
  then have "queue_writer_step cap 1 ?q3 ?q4" using qw_publish [of ?q3 "[v]" 1 1 ?s4 cap 1] by simp
  ultimately have "(queue_run_step cap poll 1)\<^sup>*\<^sup>* q ?q4"
    by (meson by_queue_writer converse_rtranclp_into_rtranclp rtranclp.rtrancl_refl)
  moreover have "?q4 = q\<lparr>q_ring := ?s\<lparr>shared_ring := rb\<lparr>m_buffer := Some ?b, m_in := m_in rb + 1\<rparr>, sent := sent ?s @ [v]\<rparr>,
      q_writer := QW_notify\<rparr>"
    using assms(2) by (auto intro!: queue_run.equality spsc.equality)
  ultimately show ?thesis by simp
qed

lemma queue_reads_byte:
  assumes "q_reader q = QR_called" and "reader (q_ring q) = R_idle" and "rb = shared_ring (q_ring q)"
    and "m_buffer rb = Some b" and "\<not> q_readable q < 1" and "min 1 (m_in rb - m_out rb) = 1"
  shows "(queue_run_step cap poll 1)\<^sup>*\<^sup>* q (q\<lparr>q_ring := (q_ring q)\<lparr>
      shared_ring := rb\<lparr>m_out := m_out rb + 1\<rparr>,
      received := received (q_ring q) @ [b ! copy_pos (m_size rb) (m_out rb) 1 0]\<rparr>, q_reader := QR_clear\<rparr>)"
proof -
  let ?s = "q_ring q"
  let ?v = "b ! copy_pos (m_size rb) (m_out rb) 1 0"
  let ?s2 = "?s\<lparr>reader := R_copy 1 []\<rparr>"
  let ?s3 = "?s\<lparr>reader := R_copy 1 [?v]\<rparr>"
  let ?s4 = "?s\<lparr>shared_ring := rb\<lparr>m_out := m_out rb + 1\<rparr>, reader := R_idle, received := received ?s @ [?v]\<rparr>"
  let ?q1 = "q\<lparr>q_reader := QR_checked\<rparr>"
  let ?q2 = "?q1\<lparr>q_ring := ?s2, q_reader := QR_copying\<rparr>"
  let ?q3 = "?q2\<lparr>q_ring := ?s3\<rparr>"
  let ?q4 = "?q3\<lparr>q_ring := ?s4, q_reader := QR_clear\<rparr>"
  have "queue_reader_step poll 1 q ?q1" using qr_check [of q 1 poll] assms(1,5) by simp
  moreover have "queue_reader_step poll 1 ?q1 ?q2" using qr_sample [of ?q1 rb poll 1] assms(3,6) by simp
  moreover have "reader_step ?s2 ?s3" using r_copy [of ?s2 1 "[]" rb b] assms(3,4) by simp
  then have "queue_reader_step poll 1 ?q2 ?q3" using qr_copy [of ?q2 ?s3 poll 1] by simp
  moreover have "reader_step ?s3 ?s4" using r_publish [of ?s3 1 "[?v]" rb] assms(3) by simp
  then have "queue_reader_step poll 1 ?q3 ?q4" using qr_publish [of ?q3 1 "[?v]" ?s4 poll 1] by simp
  ultimately have "(queue_run_step cap poll 1)\<^sup>*\<^sup>* q ?q4"
    by (meson by_queue_reader converse_rtranclp_into_rtranclp rtranclp.rtrancl_refl)
  moreover have "?q4 = q\<lparr>q_ring := ?s\<lparr>shared_ring := rb\<lparr>m_out := m_out rb + 1\<rparr>, received := received ?s @ [?v]\<rparr>,
      q_reader := QR_clear\<rparr>"
    using assms(2) by (auto intro!: queue_run.equality spsc.equality)
  ultimately show ?thesis by simp
qed

text \<open>States between the steps of the ring, on a ring of two bytes.\<close>

definition ring2 :: "byte list \<Rightarrow> u64 \<Rightarrow> u64 \<Rightarrow> ring_buffer" where
  "ring2 b i j = \<lparr>m_buffer = Some b, m_size = 2, m_in = i, m_out = j, m_shared = False\<rparr>"

definition at_rest :: "ring_buffer \<Rightarrow> byte list \<Rightarrow> byte list \<Rightarrow> queue_writer \<Rightarrow> queue_reader \<Rightarrow> nat \<Rightarrow> queue_run" where
  "at_rest rb snt rcv w r p = \<lparr>q_ring = \<lparr>shared_ring = rb, writer = W_idle, reader = R_idle, sent = snt, received = rcv\<rparr>,
     q_writer = w, q_reader = r, q_pending = p, q_failed = 0\<rparr>"

lemmas sample_sizes = at_rest_def ring2_def q_writeable_def q_size_def q_readable_def ring_buffer_size_def ring_buffer_readable_size_def

lemma queue_start_at_rest: "queue_run_start empty_ring2 = at_rest (ring2 [0, 0] 0 0) [] [] QW_idle QR_idle 0"
  by (simp add: queue_run_start_def spsc_start_def empty_ring2_def at_rest_def ring2_def)

lemma writes_at_rest:
  assumes "\<not> 2 - (i - j) < (1 :: u64)" and "min 1 (2 - i + j) = (1 :: u64)"
  shows "(queue_run_step cap poll 1)\<^sup>*\<^sup>* (at_rest (ring2 b i j) snt rcv QW_idle r p)
     (at_rest (ring2 (b[copy_pos 2 i 1 0 := v]) (i + 1) j) (snt @ [v]) rcv QW_notify r p)"
  using queue_writes_byte [of "at_rest (ring2 b i j) snt rcv QW_idle r p" "ring2 b i j" b cap poll v] assms
  by (simp add: sample_sizes)

lemma reads_at_rest:
  assumes "\<not> i - j < (1 :: u64)" and "min 1 (i - j) = (1 :: u64)"
  shows "(queue_run_step cap poll 1)\<^sup>*\<^sup>* (at_rest (ring2 b i j) snt rcv w QR_called p)
     (at_rest (ring2 b i (j + 1)) snt (rcv @ [b ! copy_pos 2 j 1 0]) w QR_clear p)"
  using queue_reads_byte [of "at_rest (ring2 b i j) snt rcv w QR_called p" "ring2 b i j" b cap poll] assms
  by (simp add: sample_sizes)

lemma single_at_rest:
  "(queue_run_step cap poll n)\<^sup>*\<^sup>* (at_rest rb snt rcv QW_notify r p) (at_rest rb snt rcv QW_idle r (if p < cap then Suc p else p))"
  "poll \<longrightarrow> 0 < p \<Longrightarrow> (queue_run_step cap poll n)\<^sup>*\<^sup>* (at_rest rb snt rcv w QR_idle p) (at_rest rb snt rcv w QR_called p)"
  "(queue_run_step cap poll n)\<^sup>*\<^sup>* (at_rest rb snt rcv w QR_clear p) (at_rest rb snt rcv w QR_idle (p - 1))"
  using by_queue_writer [OF qw_notify, of "at_rest rb snt rcv QW_notify r p" cap poll n]
    by_queue_reader [OF qr_call, of "at_rest rb snt rcv w QR_idle p" poll cap n]
    by_queue_reader [OF qr_clear, of "at_rest rb snt rcv w QR_clear p" cap poll n]
  by (cases "p < cap"; simp add: at_rest_def r_into_rtranclp)+

section \<open>Two runs\<close>

lemma stale_notification:
  "\<exists>q. (queue_run_step 4 False 1)\<^sup>*\<^sup>* (queue_run_start empty_ring2) q \<and> q_writer q = QW_idle \<and> q_reader q = QR_idle
      \<and> ring_bytes (q_ring q) = [] \<and> q_pending q = 1
      \<and> (queue_run_step 4 True 1)\<^sup>*\<^sup>* q (q\<lparr>q_failed := Suc (q_failed q)\<rparr>)"
proof -
  let ?run = "\<lambda>cap poll q q'. (queue_run_step cap poll 1)\<^sup>*\<^sup>* q q'"
  let ?q = "at_rest (ring2 [5, 0] 1 1) [5] [5] QW_idle QR_idle 1"
  have s1: "?run 4 False (queue_run_start empty_ring2) (at_rest (ring2 [5, 0] 1 0) [5] [] QW_notify QR_idle 0)"
    using writes_at_rest [of 0 0 4 False "[0, 0]" "[]" "[]" QR_idle 0 5] by (simp add: queue_start_at_rest copy_pos_def)
  have s2: "?run 4 False (at_rest (ring2 [5, 0] 1 0) [5] [] QW_notify QR_idle 0) (at_rest (ring2 [5, 0] 1 0) [5] [] QW_notify QR_called 0)" by (rule single_at_rest) simp
  have s3: "?run 4 False (at_rest (ring2 [5, 0] 1 0) [5] [] QW_notify QR_called 0) (at_rest (ring2 [5, 0] 1 1) [5] [5] QW_notify QR_clear 0)"
    using reads_at_rest [of 1 0 4 False "[5, 0]" "[5]" "[]" QW_notify 0] by (simp add: copy_pos_def)
  have s4: "?run 4 False (at_rest (ring2 [5, 0] 1 1) [5] [5] QW_notify QR_clear 0) (at_rest (ring2 [5, 0] 1 1) [5] [5] QW_notify QR_idle 0)"
    using single_at_rest(3) [of 4 False 1 "ring2 [5, 0] 1 1" "[5]" "[5]" QW_notify 0] by simp
  have s5: "?run 4 False (at_rest (ring2 [5, 0] 1 1) [5] [5] QW_notify QR_idle 0) ?q"
    using single_at_rest(1) [of 4 False 1 "ring2 [5, 0] 1 1" "[5]" "[5]" QR_idle 0] by simp
  have stale: "?run 4 False (queue_run_start empty_ring2) ?q"
    by (rule rtranclp_trans [OF s1 rtranclp_trans [OF s2 rtranclp_trans [OF s3 rtranclp_trans [OF s4 s5]]]])
  have s6: "?run 4 True ?q (at_rest (ring2 [5, 0] 1 1) [5] [5] QW_idle QR_called 1)" by (rule single_at_rest) simp
  have s7: "?run 4 True (at_rest (ring2 [5, 0] 1 1) [5] [5] QW_idle QR_called 1) (?q\<lparr>q_failed := Suc (q_failed ?q)\<rparr>)"
    using by_queue_reader [OF qr_empty, of "at_rest (ring2 [5, 0] 1 1) [5] [5] QW_idle QR_called 1" 1 4 True]
    by (simp add: sample_sizes r_into_rtranclp)
  have "?run 4 True ?q (?q\<lparr>q_failed := Suc (q_failed ?q)\<rparr>)"
    by (rule rtranclp_trans [OF s6 s7])
  with stale show ?thesis
    by (intro exI [of _ ?q]) (simp add: at_rest_def ring2_def rb_bytes_def)
qed

lemma dropped_notification:
  "\<exists>q. (queue_run_step 1 True 1)\<^sup>*\<^sup>* (queue_run_start empty_ring2) q \<and> q_writer q = QW_idle \<and> q_reader q = QR_idle
      \<and> ring_bytes (q_ring q) = [6] \<and> q_pending q = 0"
proof -
  let ?run = "\<lambda>cap poll q q'. (queue_run_step cap poll 1)\<^sup>*\<^sup>* q q'"
  let ?r = "at_rest (ring2 [5, 6] 2 1) [5, 6] [5] QW_idle QR_idle 0"
  have s8: "?run 1 True (queue_run_start empty_ring2) (at_rest (ring2 [5, 0] 1 0) [5] [] QW_notify QR_idle 0)"
    using writes_at_rest [of 0 0 1 True "[0, 0]" "[]" "[]" QR_idle 0 5] by (simp add: queue_start_at_rest copy_pos_def)
  have s9: "?run 1 True (at_rest (ring2 [5, 0] 1 0) [5] [] QW_notify QR_idle 0) (at_rest (ring2 [5, 0] 1 0) [5] [] QW_idle QR_idle 1)"
    using single_at_rest(1) [of 1 True 1 "ring2 [5, 0] 1 0" "[5]" "[]" QR_idle 0] by simp
  have s10: "?run 1 True (at_rest (ring2 [5, 0] 1 0) [5] [] QW_idle QR_idle 1) (at_rest (ring2 [5, 6] 2 0) [5, 6] [] QW_notify QR_idle 1)"
    using writes_at_rest [of 1 0 1 True "[5, 0]" "[5]" "[]" QR_idle 1 6] by (simp add: copy_pos_def)
  have s11: "?run 1 True (at_rest (ring2 [5, 6] 2 0) [5, 6] [] QW_notify QR_idle 1) (at_rest (ring2 [5, 6] 2 0) [5, 6] [] QW_idle QR_idle 1)"
    using single_at_rest(1) [of 1 True 1 "ring2 [5, 6] 2 0" "[5, 6]" "[]" QR_idle 1] by simp
  have s12: "?run 1 True (at_rest (ring2 [5, 6] 2 0) [5, 6] [] QW_idle QR_idle 1) (at_rest (ring2 [5, 6] 2 0) [5, 6] [] QW_idle QR_called 1)" by (rule single_at_rest) simp
  have s13: "?run 1 True (at_rest (ring2 [5, 6] 2 0) [5, 6] [] QW_idle QR_called 1) (at_rest (ring2 [5, 6] 2 1) [5, 6] [5] QW_idle QR_clear 1)"
    using reads_at_rest [of 2 0 1 True "[5, 6]" "[5, 6]" "[]" QW_idle 1] by (simp add: copy_pos_def)
  have s14: "?run 1 True (at_rest (ring2 [5, 6] 2 1) [5, 6] [5] QW_idle QR_clear 1) ?r"
    using single_at_rest(3) [of 1 True 1 "ring2 [5, 6] 2 1" "[5, 6]" "[5]" QW_idle 1] by simp
  have "?run 1 True (queue_run_start empty_ring2) ?r"
    by (rule rtranclp_trans [OF s8 rtranclp_trans [OF s9 rtranclp_trans [OF s10 rtranclp_trans [OF s11 rtranclp_trans [OF s12 rtranclp_trans [OF s13 s14]]]]]])
  then show ?thesis
    by (intro exI [of _ ?r]) (simp add: at_rest_def ring2_def rb_bytes_def ring_slot_def)
qed

section \<open>Properties\<close>

text \<open>
  C10: With a reader that waits for the descriptor and a pipe with more room than the ring has
  messages, in every interleaving: the ring holds whole messages, each with its notification in the pipe,
  but for the one whose writer is about to send it. So a waiting reader is woken when there is a message,
  is not woken when there is none, no read returns -1, and the messages come out in order.
\<close>

theorem queue_wakeups:
  assumes "rb_ok rb" and "rb_bytes rb = []" and "n \<noteq> 0" and "unat (m_size rb) div unat n < cap"
    and "(queue_run_step cap True n)\<^sup>*\<^sup>* (queue_run_start rb) q"
  shows "(\<exists>k. length (ring_bytes (q_ring q)) = k * unat n
        \<and> q_pending q + (if q_writer q = QW_notify then 1 else 0) = k + (if q_reader q = QR_clear then 1 else 0))
    \<and> (q_reader q = QR_idle \<longrightarrow> ring_bytes (q_ring q) \<noteq> [] \<longrightarrow> 0 < q_pending q \<or> q_writer q = QW_notify)
    \<and> (q_reader q = QR_idle \<longrightarrow> 0 < q_pending q \<longrightarrow> ring_bytes (q_ring q) \<noteq> [])
    \<and> q_failed q = 0
    \<and> sent (q_ring q) = received (q_ring q) @ ring_bytes (q_ring q)"
proof -
  have inv: "queue_run_inv cap n q"
    using queue_threads.reachable_inv [OF assms(5) queue_run_init_start [OF assms(1-4)]] by simp
  then obtain k where k: "length (ring_bytes (q_ring q)) = k * unat n"
      "q_pending q + (if q_writer q = QW_notify then 1 else 0) = k + (if q_reader q = QR_clear then 1 else 0)"
    by (auto simp: queue_run_inv_def accounts_ok_def)
  moreover have "ring_bytes (q_ring q) = [] \<longleftrightarrow> k = 0" using k(1) assms(3) by (metis length_0_conv mult_is_0 unat_eq_zero)
  ultimately show ?thesis
    using inv by (auto simp: queue_run_inv_def accounts_ok_def spsc_inv_def split: if_splits)
qed

theorem queue_wakeups_witness:
  "\<exists>q. (queue_run_step 3 True 1)\<^sup>*\<^sup>* (queue_run_start empty_ring2) q \<and> q_writer q = QW_notify
     \<and> q_pending q + 1 = length (ring_bytes (q_ring q))"
proof -
  let ?q = "at_rest (ring2 [5, 0] 1 0) [5] [] QW_notify QR_idle 0"
  have run: "(queue_run_step 3 True 1)\<^sup>*\<^sup>* (queue_run_start empty_ring2) ?q"
    using writes_at_rest [of 0 0 3 True "[0, 0]" "[]" "[]" QR_idle 0 5] by (simp add: queue_start_at_rest copy_pos_def)
  have "unat (m_size empty_ring2) div unat (1 :: u64) < 3" by (simp add: empty_ring2_def)
  from queue_wakeups [OF empty_ring2_ok _ this run] have "q_pending ?q + 1 = length (ring_bytes (q_ring ?q))"
    by (simp add: at_rest_def)
  with run show ?thesis by (intro exI [of _ ?q]) (simp add: at_rest_def)
qed

text \<open>
  C33: Both conditions are needed. A reader that does not wait may take a message before its
  notification is sent, and leaves a notification without a message behind: the descriptor stays readable, every \<open>read\<close>
  returns -1 and none of them takes the byte out. And when the pipe is full the notification is
  dropped: the reader then waits although the ring holds a message.
\<close>

theorem queue_notifications_fragile:
  "(\<exists>q. (queue_run_step 4 False 1)\<^sup>*\<^sup>* (queue_run_start empty_ring2) q \<and> q_writer q = QW_idle \<and> q_reader q = QR_idle
      \<and> ring_bytes (q_ring q) = [] \<and> q_pending q = 1
      \<and> (queue_run_step 4 True 1)\<^sup>*\<^sup>* q (q\<lparr>q_failed := Suc (q_failed q)\<rparr>))
 \<and> (\<exists>q. (queue_run_step 1 True 1)\<^sup>*\<^sup>* (queue_run_start empty_ring2) q \<and> q_writer q = QW_idle \<and> q_reader q = QR_idle
      \<and> ring_bytes (q_ring q) = [6] \<and> q_pending q = 0)"
  using stale_notification dropped_notification by (rule conjI)

end
