(* ===== verification/Ring_Tso.thy ===== *)
theory Ring_Tso
  imports Ring_Concurrent
begin

text \<open>
  The ring of \<open>ring_buffer.cpp\<close> on an x86-64 machine, the only one its barriers are written for, in
  a build without \<open>CONFIG_SMP\<close>, where \<open>mb\<close>, \<open>rmb\<close> and \<open>wmb\<close> only stop the compiler. The machine
  orders memory totally per thread (TSO): every thread has a buffer of stores, which reach memory
  one by one, in order, at any later time; a thread sees its own buffered stores before memory.
  The threads and their program points are those of \<open>Ring_Concurrent\<close>. Every run of this machine is
  a run of the sequentially consistent one.
\<close>

section \<open>Store buffers and steps\<close>

text \<open>A store of the writer: a byte of the block, or the index \<open>m_in\<close>. The reader stores \<open>m_out\<close> only.\<close>

datatype ring_store = Byte_store nat byte | Index_store u64

record tso =
  memory :: ring_buffer
  writer_stores :: "ring_store list"
  reader_stores :: "u64 list"
  tso_writer :: writer_pc
  tso_reader :: reader_pc
  tso_sent :: "byte list"
  tso_received :: "byte list"

fun apply_store :: "ring_buffer \<Rightarrow> ring_store \<Rightarrow> ring_buffer" where
  "apply_store rb (Byte_store p v) = rb\<lparr>m_buffer := map_option (\<lambda>b. b[p := v]) (m_buffer rb)\<rparr>"
| "apply_store rb (Index_store x) = rb\<lparr>m_in := x\<rparr>"

text \<open>What a thread reads for the index only it writes: its newest buffered store, else memory.\<close>

fun newest_in :: "u64 \<Rightarrow> ring_store list \<Rightarrow> u64" where
  "newest_in x [] = x"
| "newest_in x (Byte_store p v # ws) = newest_in x ws"
| "newest_in x (Index_store y # ws) = newest_in y ws"

definition own_in :: "tso \<Rightarrow> u64" where
  "own_in s = newest_in (m_in (memory s)) (writer_stores s)"

definition own_out :: "tso \<Rightarrow> u64" where
  "own_out s = last (m_out (memory s) # reader_stores s)"

inductive tso_step :: "tso \<Rightarrow> tso \<Rightarrow> bool" where
  tw_sample: "tso_writer s = W_idle \<Longrightarrow> unat n \<le> length src \<Longrightarrow>
     tso_step s (s\<lparr>tso_writer := W_copy src (min n (m_size (memory s) - own_in s + m_out (memory s))) 0\<rparr>)"
| tw_copy: "tso_writer s = W_copy src len i \<Longrightarrow> i < unat len \<Longrightarrow>
     tso_step s (s\<lparr>writer_stores := writer_stores s @ [Byte_store (copy_pos (m_size (memory s)) (own_in s) len i) (src ! i)],
                   tso_writer := W_copy src len (Suc i)\<rparr>)"
| tw_publish: "tso_writer s = W_copy src len (unat len) \<Longrightarrow>
     tso_step s (s\<lparr>writer_stores := writer_stores s @ [Index_store (own_in s + len)], tso_writer := W_idle,
                   tso_sent := tso_sent s @ take (unat len) src\<rparr>)"
| tw_flush: "writer_stores s = st # ws \<Longrightarrow>
     tso_step s (s\<lparr>memory := apply_store (memory s) st, writer_stores := ws\<rparr>)"
| tr_sample: "tso_reader s = R_idle \<Longrightarrow>
     tso_step s (s\<lparr>tso_reader := R_copy (min n (m_in (memory s) - own_out s)) []\<rparr>)"
| tr_copy: "tso_reader s = R_copy len got \<Longrightarrow> length got < unat len \<Longrightarrow> m_buffer (memory s) = Some b \<Longrightarrow>
     tso_step s (s\<lparr>tso_reader := R_copy len (got @ [b ! copy_pos (m_size (memory s)) (own_out s) len (length got)])\<rparr>)"
| tr_publish: "tso_reader s = R_copy len got \<Longrightarrow> length got = unat len \<Longrightarrow>
     tso_step s (s\<lparr>reader_stores := reader_stores s @ [own_out s + len], tso_reader := R_idle,
                   tso_received := tso_received s @ got\<rparr>)"
| tr_flush: "reader_stores s = x # xs \<Longrightarrow>
     tso_step s (s\<lparr>memory := memory s\<lparr>m_out := x\<rparr>, reader_stores := xs\<rparr>)"

inductive_cases tso_stepE: "tso_step s t"
lemmas tso_step_cases = tso_stepE [consumes 1, case_names w_sample w_copy w_publish w_flush r_sample r_copy r_publish r_flush]

definition tso_start :: "ring_buffer \<Rightarrow> tso" where
  "tso_start rb = \<lparr>memory = rb, writer_stores = [], reader_stores = [], tso_writer = W_idle, tso_reader = R_idle,
     tso_sent = [], tso_received = []\<rparr>"

section \<open>The sequentially consistent view\<close>

text \<open>The ring as it is when all stores have reached memory.\<close>

definition view :: "tso \<Rightarrow> ring_buffer" where
  "view s = (foldl apply_store (memory s) (writer_stores s))\<lparr>m_out := own_out s\<rparr>"

definition sc_view :: "tso \<Rightarrow> spsc" where
  "sc_view s = \<lparr>shared_ring = view s, writer = tso_writer s, reader = tso_reader s, sent = tso_sent s, received = tso_received s\<rparr>"

lemma apply_store_fields [simp]:
  "m_size (apply_store rb st) = m_size rb"
  "m_out (apply_store rb st) = m_out rb"
  "m_shared (apply_store rb st) = m_shared rb"
  "(m_buffer (apply_store rb st) = None) = (m_buffer rb = None)"
  by (cases st; simp)+

lemma foldl_apply_fields [simp]:
  "m_size (foldl apply_store rb ws) = m_size rb"
  "m_out (foldl apply_store rb ws) = m_out rb"
  "m_shared (foldl apply_store rb ws) = m_shared rb"
  "(m_buffer (foldl apply_store rb ws) = None) = (m_buffer rb = None)"
  by (induction ws arbitrary: rb) simp_all

lemma foldl_apply_in: "m_in (foldl apply_store rb ws) = newest_in (m_in rb) ws"
proof (induction ws arbitrary: rb)
  case (Cons st ws)
  then show ?case by (cases st) simp_all
qed simp

lemma newest_in_snoc [simp]:
  "newest_in x (ws @ [Byte_store p v]) = newest_in x ws"
  "newest_in x (ws @ [Index_store y]) = y"
proof -
  show "newest_in x (ws @ [Byte_store p v]) = newest_in x ws"
    by (induction x ws rule: newest_in.induct) simp_all
  show "newest_in x (ws @ [Index_store y]) = y"
    by (induction x ws rule: newest_in.induct) simp_all
qed

lemma view_fields [simp]:
  "m_size (view s) = m_size (memory s)"
  "m_in (view s) = own_in s"
  "m_out (view s) = own_out s"
  by (simp_all add: view_def foldl_apply_in own_in_def)

lemma sc_view_fields [simp]:
  "shared_ring (sc_view s) = view s" "writer (sc_view s) = tso_writer s" "reader (sc_view s) = tso_reader s"
  "sent (sc_view s) = tso_sent s" "received (sc_view s) = tso_received s"
  by (simp_all add: sc_view_def)

section \<open>Pending stores\<close>

text \<open>
  Relative to the reader's index, the pending stores of \<open>m_in\<close> grow, and every pending byte goes
  behind the index that is in force when it reaches memory, and inside the ring.
\<close>

fun stores_ok :: "u64 \<Rightarrow> u64 \<Rightarrow> u64 \<Rightarrow> ring_store list \<Rightarrow> bool" where
  "stores_ok sz out cur [] \<longleftrightarrow> True"
| "stores_ok sz out cur (Byte_store p v # ws) \<longleftrightarrow>
     (\<exists>k. unat (cur - out) \<le> k \<and> k < unat sz \<and> p = ring_slot sz out k) \<and> stores_ok sz out cur ws"
| "stores_ok sz out cur (Index_store x # ws) \<longleftrightarrow> unat (cur - out) \<le> unat (x - out) \<and> stores_ok sz out x ws"

lemma stores_ok_append:
  "stores_ok sz out cur (ws @ ws') \<longleftrightarrow> stores_ok sz out cur ws \<and> stores_ok sz out (newest_in cur ws) ws'"
  by (induction sz out cur ws rule: stores_ok.induct) auto

lemma stores_ok_le: "stores_ok sz out cur ws \<Longrightarrow> unat (cur - out) \<le> unat (newest_in cur ws - out)"
  by (induction sz out cur ws rule: stores_ok.induct) auto

lemma unat_sub_add:
  assumes "unat len \<le> unat (x - out)"
  shows "unat (x - (out + len)) = unat (x - out) - unat (len :: u64)"
proof -
  have eq: "x - (out + len) = (x - out) - len" by simp
  show ?thesis unfolding eq by (rule unat_sub) (simp add: assms word_le_nat_alt)
qed

lemma stores_ok_advance:
  assumes "stores_ok sz out cur ws" and "unat len \<le> unat (cur - out)"
  shows "stores_ok sz (out + len) cur ws"
  using assms
proof (induction sz out cur ws rule: stores_ok.induct)
  case (2 sz out cur p v ws)
  then obtain k where k: "unat (cur - out) \<le> k" "k < unat sz" "p = ring_slot sz out k" by auto
  with 2(3) have "p = ring_slot sz (out + len) (k - unat len)" by (simp add: ring_slot_shift)
  moreover have "unat (cur - (out + len)) \<le> k - unat len" "k - unat len < unat sz"
    using k 2(3) by (simp_all add: unat_sub_add)
  ultimately show ?case using 2 by auto
next
  case (3 sz out cur x ws)
  then show ?case by (simp add: unat_sub_add diff_le_mono)
qed simp

text \<open>Pending bytes do not touch what the reader may read.\<close>

lemma foldl_apply_slot:
  assumes "is_power_of_2 (m_size rb)" and "stores_ok (m_size rb) out (m_in rb) ws" and "m_buffer rb = Some b"
    and "j < unat (m_in rb - out)"
  shows "the (m_buffer (foldl apply_store rb ws)) ! ring_slot (m_size rb) out j = b ! ring_slot (m_size rb) out j"
  using assms
proof (induction ws arbitrary: rb b)
  case (Cons st ws)
  show ?case
  proof (cases st)
    case (Byte_store p v)
    with Cons.prems obtain k where k: "unat (m_in rb - out) \<le> k" "k < unat (m_size rb)" "p = ring_slot (m_size rb) out k"
      by auto
    have "j < unat (m_size rb)" "j \<noteq> k" using k Cons.prems(4) by linarith+
    with k(2,3) have "p \<noteq> ring_slot (m_size rb) out j"
      using ring_slot_inj [OF Cons.prems(1), of j k out] by auto
    with Cons.IH [of "rb\<lparr>m_buffer := Some (b[p := v])\<rparr>" "b[p := v]"] Cons.prems Byte_store show ?thesis by simp
  next
    case (Index_store x)
    with Cons.prems have "j < unat (x - out)" by simp
    with Cons.IH [of "rb\<lparr>m_in := x\<rparr>" b] Cons.prems Index_store show ?thesis by simp
  qed
qed simp

text \<open>Relative to the writer's index, the pending stores of \<open>m_out\<close> come closer.\<close>

fun outs_ok :: "u64 \<Rightarrow> u64 \<Rightarrow> u64 list \<Rightarrow> bool" where
  "outs_ok inn cur [] \<longleftrightarrow> True"
| "outs_ok inn cur (x # xs) \<longleftrightarrow> unat (inn - x) \<le> unat (inn - cur) \<and> outs_ok inn x xs"

lemma outs_ok_append:
  "outs_ok inn cur (xs @ ys) \<longleftrightarrow> outs_ok inn cur xs \<and> outs_ok inn (last (cur # xs)) ys"
  by (induction inn cur xs rule: outs_ok.induct) auto

lemma outs_ok_le: "outs_ok inn cur xs \<Longrightarrow> unat (inn - last (cur # xs)) \<le> unat (inn - cur)"
  by (induction inn cur xs rule: outs_ok.induct) (auto split: if_splits)

lemma unat_add_sub:
  assumes "unat (inn - x) + unat len < 2 ^ 64"
  shows "unat (inn + len - x) = unat (inn - x) + unat (len :: u64)"
proof -
  have eq: "inn + len - x = (inn - x) + len" by simp
  show ?thesis unfolding eq by (rule unat_add_lem [THEN iffD1]) (use assms in simp)
qed

lemma outs_ok_advance:
  "outs_ok inn cur xs \<Longrightarrow> unat (inn - cur) + unat len < 2 ^ 64 \<Longrightarrow> outs_ok (inn + len) cur xs"
  by (induction inn cur xs rule: outs_ok.induct) (auto simp: unat_add_sub)

section \<open>Simulation\<close>

definition tso_inv :: "tso \<Rightarrow> bool" where
  "tso_inv s \<longleftrightarrow>
     stores_ok (m_size (memory s)) (own_out s) (m_in (memory s)) (writer_stores s)
   \<and> outs_ok (own_in s) (m_out (memory s)) (reader_stores s)
   \<and> unat (own_in s - m_out (memory s)) \<le> unat (m_size (memory s))
   \<and> (\<forall>src len i. tso_writer s = W_copy src len i \<longrightarrow>
        unat (own_in s - m_out (memory s)) + unat len \<le> unat (m_size (memory s)))
   \<and> (\<forall>len got. tso_reader s = R_copy len got \<longrightarrow> unat len \<le> unat (m_in (memory s) - own_out s))"

lemma tso_start_inv: "rb_ok rb \<Longrightarrow> tso_inv (tso_start rb)"
  by (simp add: tso_inv_def tso_start_def own_in_def own_out_def rb_ok_def word_le_nat_alt)

lemma sc_view_start: "sc_view (tso_start rb) = spsc_start rb"
  by (simp add: sc_view_def view_def tso_start_def own_out_def spsc_start_def)

lemma min_min_le: "a \<le> b \<Longrightarrow> min (min n a) b = min n (a :: u64)"
  by (intro min.absorb1 min.coboundedI2)

lemma tso_w_sample:
  assumes "tso_inv s" and "spsc_inv (sc_view s)" and "tso_writer s = W_idle" and "unat n \<le> length src"
  defines "t \<equiv> s\<lparr>tso_writer := W_copy src (min n (m_size (memory s) - own_in s + m_out (memory s))) 0\<rparr>"
  shows "writer_step (sc_view s) (sc_view t)" and "tso_inv t"
proof -
  let ?sz = "m_size (memory s)" and ?a = "m_size (memory s) - own_in s + m_out (memory s)"
  have sub: "?sz - own_in s + x = ?sz - (own_in s - x)" for x by simp
  have d: "unat (own_in s - own_out s) \<le> unat (own_in s - m_out (memory s))"
    "unat (own_in s - m_out (memory s)) \<le> unat ?sz"
    using assms(1) outs_ok_le [of "own_in s" "m_out (memory s)" "reader_stores s"]
    by (simp_all add: tso_inv_def own_out_def)
  have a: "unat ?a = unat ?sz - unat (own_in s - m_out (memory s))"
    unfolding sub by (rule unat_sub) (use d in \<open>simp add: word_le_nat_alt\<close>)
  have b: "unat (?sz - own_in s + own_out s) = unat ?sz - unat (own_in s - own_out s)"
    unfolding sub by (rule unat_sub) (use d in \<open>simp add: word_le_nat_alt\<close>)
  have le: "?a \<le> ?sz - own_in s + own_out s"
    unfolding word_le_nat_alt a b using d by simp
  have n: "unat (min n ?a) \<le> length src" using assms(4) by (simp add: unat_min)
  have "writer_step (sc_view s) ((sc_view s)\<lparr>writer := W_copy src (min (min n ?a) (?sz - own_in s + own_out s)) 0\<rparr>)"
    using w_sample [of "sc_view s" "min n ?a" src "view s"] assms(3) n by simp
  moreover have "(sc_view s)\<lparr>writer := W_copy src (min n ?a) 0\<rparr> = sc_view t"
    by (simp add: t_def sc_view_def view_def own_out_def)
  ultimately show "writer_step (sc_view s) (sc_view t)"
    by (simp add: min_min_le [OF le])
  have "unat (min n ?a) \<le> unat ?sz - unat (own_in s - m_out (memory s))" using a by (simp add: unat_min)
  with d(2) have "unat (own_in s - m_out (memory s)) + unat (min n ?a) \<le> unat ?sz" by linarith
  with assms(1) show "tso_inv t"
    by (simp add: tso_inv_def t_def own_in_def own_out_def)
qed

lemma tso_w_copy:
  assumes "tso_inv s" and "spsc_inv (sc_view s)" and "tso_writer s = W_copy src len i" and "i < unat len"
  defines "t \<equiv> s\<lparr>writer_stores := writer_stores s @ [Byte_store (copy_pos (m_size (memory s)) (own_in s) len i) (src ! i)],
                   tso_writer := W_copy src len (Suc i)\<rparr>"
  shows "writer_step (sc_view s) (sc_view t)" and "tso_inv t"
proof -
  let ?sz = "m_size (memory s)"
  from assms(2,3) have ok: "rb_ok (view s)" and w: "writer_inv (view s) (W_copy src len i)"
    by (simp_all add: spsc_inv_def)
  have p2: "is_power_of_2 ?sz" using ok by (auto elim: rb_okE)
  obtain b where b: "m_buffer (view s) = Some b" using ok by (auto elim: rb_okE)
  have "writer_step (sc_view s) ((sc_view s)\<lparr>shared_ring := (view s)\<lparr>m_buffer := Some (b[copy_pos ?sz (own_in s) len i := src ! i])\<rparr>,
      writer := W_copy src len (Suc i)\<rparr>)"
    using w_copy [of "sc_view s" src len i "view s" b] assms(3,4) b by simp
  moreover have "(sc_view s)\<lparr>shared_ring := (view s)\<lparr>m_buffer := Some (b[copy_pos ?sz (own_in s) len i := src ! i])\<rparr>,
      writer := W_copy src len (Suc i)\<rparr> = sc_view t"
    using b by (simp add: t_def sc_view_def view_def own_out_def)
  ultimately show "writer_step (sc_view s) (sc_view t)" by simp
  have room: "unat (own_in s - own_out s) + unat len \<le> unat ?sz" using w length_rb_bytes [OF ok] by simp
  have "copy_pos ?sz (own_in s) len i = ring_slot ?sz (own_out s) (unat (own_in s - own_out s) + i)"
    using copy_pos_slot [OF p2 assms(4), of "own_in s"] room ring_slot_shift [of ?sz "own_out s" "own_in s - own_out s" i]
    by simp
  moreover have "unat (own_in s - own_out s) + i < unat ?sz" using room assms(4) by linarith
  ultimately have "stores_ok ?sz (own_out s) (own_in s) [Byte_store (copy_pos ?sz (own_in s) len i) (src ! i)]"
    by (auto intro!: exI [of _ "unat (own_in s - own_out s) + i"])
  with assms(1,3) show "tso_inv t"
    by (simp add: tso_inv_def t_def own_in_def own_out_def stores_ok_append)
qed

lemma view_ok_size: "rb_ok (view s) \<Longrightarrow> unat (own_in s - own_out s) \<le> unat (m_size (memory s)) \<and> unat (m_size (memory s)) < 2 ^ 64"
  using unsigned_less [of "m_size (memory s)"] by (simp add: rb_ok_def word_le_nat_alt split: option.splits)

lemma tso_w_publish:
  assumes "tso_inv s" and "spsc_inv (sc_view s)" and "tso_writer s = W_copy src len (unat len)"
  defines "t \<equiv> s\<lparr>writer_stores := writer_stores s @ [Index_store (own_in s + len)], tso_writer := W_idle,
                   tso_sent := tso_sent s @ take (unat len) src\<rparr>"
  shows "writer_step (sc_view s) (sc_view t)" and "tso_inv t"
proof -
  let ?sz = "m_size (memory s)"
  have "writer_step (sc_view s) ((sc_view s)\<lparr>shared_ring := (view s)\<lparr>m_in := own_in s + len\<rparr>, writer := W_idle,
      sent := tso_sent s @ take (unat len) src\<rparr>)"
    using w_publish [of "sc_view s" src len "view s"] assms(3) by simp
  moreover have "(sc_view s)\<lparr>shared_ring := (view s)\<lparr>m_in := own_in s + len\<rparr>, writer := W_idle,
      sent := tso_sent s @ take (unat len) src\<rparr> = sc_view t"
    by (simp add: t_def sc_view_def view_def own_out_def)
  ultimately show "writer_step (sc_view s) (sc_view t)" by simp
  from assms(2,3) have ok: "rb_ok (view s)" and w: "writer_inv (view s) (W_copy src len (unat len))"
    by (simp_all add: spsc_inv_def)
  have room: "unat (own_in s - own_out s) + unat len \<le> unat ?sz" using w length_rb_bytes [OF ok] by simp
  have room': "unat (own_in s - m_out (memory s)) + unat len \<le> unat ?sz" using assms(1,3) by (simp add: tso_inv_def)
  have "unat (own_in s + len - x) = unat (own_in s - x) + unat len"
    if "unat (own_in s - x) + unat len \<le> unat ?sz" for x
    using that view_ok_size [OF ok] by (intro unat_add_sub) linarith
  note add = this [OF room] this [OF room']
  have "outs_ok (own_in s + len) (m_out (memory s)) (reader_stores s)"
    using assms(1) room' view_ok_size [OF ok] by (intro outs_ok_advance) (simp_all add: tso_inv_def)
  with assms(1) add room' show "tso_inv t"
    by (simp add: tso_inv_def t_def own_in_def own_out_def stores_ok_append)
qed

lemma tso_w_flush:
  assumes "tso_inv s" and "writer_stores s = st # ws"
  defines "t \<equiv> s\<lparr>memory := apply_store (memory s) st, writer_stores := ws\<rparr>"
  shows "sc_view t = sc_view s" and "tso_inv t"
proof -
  have same: "own_in t = own_in s" "own_out t = own_out s"
    using assms(2) by (cases st; simp add: own_in_def own_out_def t_def)+
  then show "sc_view t = sc_view s"
    using assms(2) by (simp add: sc_view_def view_def t_def)
  show "tso_inv t"
  proof (cases st)
    case (Byte_store p v)
    with assms(1,2) same show ?thesis by (simp add: tso_inv_def t_def)
  next
    case (Index_store x)
    with assms(1,2) have "unat (m_in (memory s) - own_out s) \<le> unat (x - own_out s)" by (simp add: tso_inv_def)
    with assms(1,2) same Index_store show ?thesis
      by (auto simp: tso_inv_def t_def intro: order_trans)
  qed
qed

lemma tso_r_sample:
  fixes n :: u64
  assumes "tso_inv s" and "spsc_inv (sc_view s)" and "tso_reader s = R_idle"
  defines "t \<equiv> s\<lparr>tso_reader := R_copy (min n (m_in (memory s) - own_out s)) []\<rparr>"
  shows "reader_step (sc_view s) (sc_view t)" and "tso_inv t"
proof -
  let ?e = "m_in (memory s) - own_out s"
  have le: "?e \<le> own_in s - own_out s"
    using assms(1) stores_ok_le by (auto simp: tso_inv_def own_in_def word_le_nat_alt)
  have "reader_step (sc_view s) ((sc_view s)\<lparr>reader := R_copy (min (min n ?e) (own_in s - own_out s)) []\<rparr>)"
    using r_sample [of "sc_view s" "view s" "min n ?e"] assms(3) by simp
  moreover have "(sc_view s)\<lparr>reader := R_copy (min n ?e) []\<rparr> = sc_view t"
    by (simp add: t_def sc_view_def view_def own_out_def)
  ultimately show "reader_step (sc_view s) (sc_view t)" by (simp add: min_min_le [OF le])
  show "tso_inv t"
    using assms(1) by (simp add: tso_inv_def t_def own_in_def own_out_def unat_min)
qed

lemma view_slot:
  assumes "tso_inv s" and "rb_ok (view s)" and "m_buffer (memory s) = Some b" and "j < unat (m_in (memory s) - own_out s)"
  shows "the (m_buffer (view s)) ! ring_slot (m_size (memory s)) (own_out s) j = b ! ring_slot (m_size (memory s)) (own_out s) j"
proof -
  have "is_power_of_2 (m_size (memory s))" using assms(2) by (auto elim: rb_okE)
  from foldl_apply_slot [OF this _ assms(3,4), of "writer_stores s"] assms(1) show ?thesis
    by (simp add: tso_inv_def view_def)
qed

lemma tso_r_copy:
  assumes "tso_inv s" and "spsc_inv (sc_view s)" and "tso_reader s = R_copy len got" and "length got < unat len"
    and "m_buffer (memory s) = Some b"
  defines "t \<equiv> s\<lparr>tso_reader := R_copy len (got @ [b ! copy_pos (m_size (memory s)) (own_out s) len (length got)])\<rparr>"
  shows "reader_step (sc_view s) (sc_view t)" and "tso_inv t"
proof -
  let ?p = "copy_pos (m_size (memory s)) (own_out s) len (length got)"
  from assms(2,3) have ok: "rb_ok (view s)" and r: "reader_inv (view s) (R_copy len got)"
    by (simp_all add: spsc_inv_def)
  have p2: "is_power_of_2 (m_size (memory s))" using ok by (auto elim: rb_okE)
  obtain c where c: "m_buffer (view s) = Some c" using ok by (auto elim: rb_okE)
  have len: "unat len \<le> unat (m_size (memory s))" using r rb_bytes_bound [OF ok] by simp
  have slot: "?p = ring_slot (m_size (memory s)) (own_out s) (length got)"
    by (rule copy_pos_slot [OF p2 assms(4) len])
  have "length got < unat (m_in (memory s) - own_out s)" using assms(1,3,4) by (auto simp: tso_inv_def)
  from view_slot [OF assms(1) ok assms(5) this] have same: "c ! ?p = b ! ?p" by (simp add: slot c)
  have "reader_step (sc_view s) ((sc_view s)\<lparr>reader := R_copy len (got @ [c ! ?p])\<rparr>)"
    using r_copy [of "sc_view s" len got "view s" c] assms(3,4) c by simp
  moreover have "(sc_view s)\<lparr>reader := R_copy len (got @ [b ! ?p])\<rparr> = sc_view t"
    by (simp add: t_def sc_view_def view_def own_out_def)
  ultimately show "reader_step (sc_view s) (sc_view t)" by (simp add: same)
  show "tso_inv t" using assms(1,3) by (simp add: tso_inv_def t_def own_in_def own_out_def)
qed

lemma tso_r_publish:
  assumes "tso_inv s" and "spsc_inv (sc_view s)" and "tso_reader s = R_copy len got" and "length got = unat len"
  defines "t \<equiv> s\<lparr>reader_stores := reader_stores s @ [own_out s + len], tso_reader := R_idle,
                   tso_received := tso_received s @ got\<rparr>"
  shows "reader_step (sc_view s) (sc_view t)" and "tso_inv t"
proof -
  have out: "own_out t = own_out s + len" "own_in t = own_in s" by (simp_all add: t_def own_out_def own_in_def)
  have "reader_step (sc_view s) ((sc_view s)\<lparr>shared_ring := (view s)\<lparr>m_out := own_out s + len\<rparr>, reader := R_idle,
      received := tso_received s @ got\<rparr>)"
    using r_publish [of "sc_view s" len got "view s"] assms(3,4) by simp
  moreover have "(sc_view s)\<lparr>shared_ring := (view s)\<lparr>m_out := own_out s + len\<rparr>, reader := R_idle,
      received := tso_received s @ got\<rparr> = sc_view t"
    by (simp add: t_def sc_view_def view_def own_out_def)
  ultimately show "reader_step (sc_view s) (sc_view t)" by simp
  have e: "unat len \<le> unat (m_in (memory s) - own_out s)" using assms(1,3) by (simp add: tso_inv_def)
  have "unat (m_in (memory s) - own_out s) \<le> unat (own_in s - own_out s)"
    using assms(1) stores_ok_le by (auto simp: tso_inv_def own_in_def)
  with e have "unat (own_in s - (own_out s + len)) \<le> unat (own_in s - own_out s)" by (simp add: unat_sub_add)
  then have "outs_ok (own_in s) (m_out (memory s)) (reader_stores s @ [own_out s + len])"
    using assms(1) by (simp add: tso_inv_def outs_ok_append own_out_def)
  moreover have "stores_ok (m_size (memory s)) (own_out s + len) (m_in (memory s)) (writer_stores s)"
    using assms(1) e by (intro stores_ok_advance) (simp_all add: tso_inv_def)
  ultimately show "tso_inv t"
    using assms(1) out by (simp add: tso_inv_def) (simp add: t_def)
qed

lemma tso_r_flush:
  assumes "tso_inv s" and "reader_stores s = x # xs"
  defines "t \<equiv> s\<lparr>memory := memory s\<lparr>m_out := x\<rparr>, reader_stores := xs\<rparr>"
  shows "sc_view t = sc_view s" and "tso_inv t"
proof -
  have same: "own_in t = own_in s" "own_out t = own_out s"
    using assms(2) by (simp_all add: own_in_def own_out_def t_def)
  have "foldl apply_store (rb\<lparr>m_out := x\<rparr>) ws = (foldl apply_store rb ws)\<lparr>m_out := x\<rparr>" for rb ws
  proof (induction ws arbitrary: rb)
    case (Cons st ws)
    have "apply_store (rb\<lparr>m_out := x\<rparr>) st = (apply_store rb st)\<lparr>m_out := x\<rparr>" by (cases st) simp_all
    with Cons show ?case by simp
  qed simp
  with same show "sc_view t = sc_view s" by (simp add: sc_view_def view_def t_def)
  have "unat (own_in s - x) \<le> unat (own_in s - m_out (memory s))" using assms(1,2) by (simp add: tso_inv_def)
  with assms(1,2) same show "tso_inv t" by (fastforce simp: tso_inv_def t_def)
qed

text \<open>One step of the machine is one step of the sequentially consistent threads, or none.\<close>

lemma tso_step_simulated:
  assumes "tso_step s t" and "tso_inv s" and "spsc_inv (sc_view s)"
  shows "tso_inv t \<and> (sc_view t = sc_view s \<or> spsc_step (sc_view s) (sc_view t))"
  using assms(1)
proof (cases rule: tso_step_cases)
  case (w_sample n src)
  with tso_w_sample [OF assms(2,3) w_sample(2,3)] show ?thesis by (simp add: spsc_step_iff)
next
  case (w_copy src len i)
  with tso_w_copy [OF assms(2,3) w_copy(2,3)] show ?thesis by (simp add: spsc_step_iff)
next
  case (w_publish src len)
  with tso_w_publish [OF assms(2,3) w_publish(2)] show ?thesis by (simp add: spsc_step_iff)
next
  case (w_flush st ws)
  with tso_w_flush [OF assms(2) w_flush(2)] show ?thesis by simp
next
  case (r_sample n)
  with tso_r_sample [OF assms(2,3) r_sample(2)] show ?thesis by (simp add: spsc_step_iff)
next
  case (r_copy len got b)
  with tso_r_copy [OF assms(2,3) r_copy(2,3,4)] show ?thesis by (simp add: spsc_step_iff)
next
  case (r_publish len got)
  with tso_r_publish [OF assms(2,3) r_publish(2,3)] show ?thesis by (simp add: spsc_step_iff)
next
  case (r_flush x xs)
  with tso_r_flush [OF assms(2) r_flush(2)] show ?thesis by simp
qed

lemma tso_run_simulated:
  assumes "tso_step\<^sup>*\<^sup>* (tso_start rb) s" and "rb_ok rb" and "rb_bytes rb = []"
  shows "tso_inv s \<and> spsc_step\<^sup>*\<^sup>* (spsc_start rb) (sc_view s)"
  using assms(1)
proof (induction rule: rtranclp_induct)
  case base
  then show ?case using assms(2) by (simp add: tso_start_inv sc_view_start)
next
  case (step s t)
  then have "spsc_inv (sc_view s)" using spsc.reachable_inv [OF _ spsc_init_start [OF assms(2,3)]] by blast
  from tso_step_simulated [OF step(2) _ this] step(3) show ?case
    by (auto intro: rtranclp.rtrancl_into_rtrancl)
qed

section \<open>Property\<close>

text \<open>
  C2: Under total store order, without fences, every run of one writer and one reader on a ring that
  is empty at the start is, with the pending stores carried out, a run of the sequentially consistent threads. So
  what the reader has taken is a prefix of what the writer has published, and the rest is in the
  ring or on its way there, although the reader may still miss published bytes and the writer freed room.
\<close>

theorem tso_refines_sc:
  assumes "rb_ok rb" and "rb_bytes rb = []" and "tso_step\<^sup>*\<^sup>* (tso_start rb) s"
  shows "spsc_step\<^sup>*\<^sup>* (spsc_start rb) (sc_view s)
    \<and> tso_sent s = tso_received s @ rb_bytes (view s)
    \<and> unat (m_in (memory s) - own_out s) \<le> length (rb_bytes (view s))
    \<and> length (rb_bytes (view s)) \<le> unat (own_in s - m_out (memory s))"
proof -
  from tso_run_simulated [OF assms(3,1,2)] have t: "tso_inv s" and run: "spsc_step\<^sup>*\<^sup>* (spsc_start rb) (sc_view s)" by simp_all
  have inv: "spsc_inv (sc_view s)" using run by (rule spsc.reachable_inv [OF _ spsc_init_start [OF assms(1,2)]])
  then have "rb_ok (view s)" by (simp add: spsc_inv_def)
  from length_rb_bytes [OF this] have "length (rb_bytes (view s)) = unat (own_in s - own_out s)" by simp
  moreover have "unat (m_in (memory s) - own_out s) \<le> unat (own_in s - own_out s)"
    using t stores_ok_le by (auto simp: tso_inv_def own_in_def)
  moreover have "unat (own_in s - own_out s) \<le> unat (own_in s - m_out (memory s))"
    using t outs_ok_le [of "own_in s" "m_out (memory s)" "reader_stores s"] by (simp add: tso_inv_def own_out_def)
  ultimately show ?thesis using run inv by (simp add: spsc_inv_def)
qed

text \<open>A write of one byte, none of whose stores has reached memory yet.\<close>

theorem tso_refines_sc_witness:
  "\<exists>s. tso_step\<^sup>*\<^sup>* (tso_start empty_ring2) s \<and> tso_sent s = [5] \<and> rb_bytes (view s) = [5] \<and> memory s = empty_ring2"
proof -
  let ?s0 = "tso_start empty_ring2"
  let ?s1 = "?s0\<lparr>tso_writer := W_copy [5] 1 0\<rparr>"
  let ?s2 = "?s1\<lparr>writer_stores := [Byte_store 0 5], tso_writer := W_copy [5] 1 1\<rparr>"
  let ?s3 = "?s2\<lparr>writer_stores := [Byte_store 0 5, Index_store 1], tso_writer := W_idle, tso_sent := [5]\<rparr>"
  have "tso_step ?s0 ?s1" using tw_sample [of ?s0 1 "[5]"] by (simp add: tso_start_def empty_ring2_def own_in_def min_def)
  moreover have "tso_step ?s1 ?s2"
    using tw_copy [of ?s1 "[5]" 1 0] by (simp add: tso_start_def empty_ring2_def own_in_def copy_pos_def min_def)
  moreover have "tso_step ?s2 ?s3" using tw_publish [of ?s2 "[5]" 1] by (simp add: tso_start_def empty_ring2_def own_in_def)
  ultimately have run: "tso_step\<^sup>*\<^sup>* ?s0 ?s3" by (meson converse_rtranclp_into_rtranclp rtranclp.rtrancl_refl)
  from tso_refines_sc [OF empty_ring2_ok run] have "rb_bytes (view ?s3) = [5]" by (simp add: tso_start_def)
  with run show ?thesis by (intro exI [of _ ?s3]) (simp add: tso_start_def)
qed

end
