(* ===== verification/Queue_Tso.thy ===== *)
theory Queue_Tso
  imports Queue_Concurrent Ring_Tso
begin

text \<open>
  \<open>SharedQueue::write\<close> and \<open>SharedQueue::read\<close> of \<open>shared_queue.cpp\<close> on an x86-64 machine: the calls of
  \<open>Queue_Concurrent\<close> over the ring of \<open>Ring_Tso\<close>, with a buffer of stores in each thread. A message
  may still be in the writer's buffer when its call of the ring has returned, and the notification
  goes through the kernel and not through memory. The kernel fills a pipe under a lock, taken by a locked instruction, so the
  writer's buffer is empty when the byte is in the pipe. The reader waits for the descriptor.
\<close>

section \<open>Steps\<close>

record queue_tso =
  qt_ring :: tso
  qt_writer :: queue_writer
  qt_reader :: queue_reader
  qt_pending :: nat
  qt_failed :: nat

text \<open>What the two threads compute: the writer sees its own index, and the reader's as it is in memory, and vice versa.\<close>

definition seen_writeable :: "tso \<Rightarrow> u64" where
  "seen_writeable s = m_size (memory s) - (own_in s - m_out (memory s))"

definition seen_readable :: "tso \<Rightarrow> u64" where
  "seen_readable s = m_in (memory s) - own_out s"

inductive queue_tso_writer_step :: "nat \<Rightarrow> u64 \<Rightarrow> queue_tso \<Rightarrow> queue_tso \<Rightarrow> bool" for cap n where
  qtw_full: "qt_writer q = QW_idle \<Longrightarrow> seen_writeable (qt_ring q) < n \<Longrightarrow> queue_tso_writer_step cap n q q"
| qtw_check: "qt_writer q = QW_idle \<Longrightarrow> length src = unat n \<Longrightarrow> \<not> seen_writeable (qt_ring q) < n \<Longrightarrow>
    queue_tso_writer_step cap n q (q\<lparr>qt_writer := QW_checked src\<rparr>)"
| qtw_sample: "qt_writer q = QW_checked src \<Longrightarrow> s = qt_ring q \<Longrightarrow>
    queue_tso_writer_step cap n q
      (q\<lparr>qt_ring := s\<lparr>tso_writer := W_copy src (min n (m_size (memory s) - own_in s + m_out (memory s))) 0\<rparr>, qt_writer := QW_copying\<rparr>)"
| qtw_copy: "qt_writer q = QW_copying \<Longrightarrow> tso_step (qt_ring q) s \<Longrightarrow> tso_writer s \<noteq> tso_writer (qt_ring q) \<Longrightarrow>
    tso_writer s \<noteq> W_idle \<Longrightarrow> queue_tso_writer_step cap n q (q\<lparr>qt_ring := s\<rparr>)"
| qtw_publish: "qt_writer q = QW_copying \<Longrightarrow> tso_writer (qt_ring q) = W_copy src len i \<Longrightarrow>
    tso_step (qt_ring q) s \<Longrightarrow> tso_writer s = W_idle \<Longrightarrow>
    queue_tso_writer_step cap n q (q\<lparr>qt_ring := s, qt_writer := (if len = 0 then QW_idle else QW_notify)\<rparr>)"
| qtw_notify: "qt_writer q = QW_notify \<Longrightarrow> writer_stores (qt_ring q) = [] \<Longrightarrow>
    queue_tso_writer_step cap n q
      (q\<lparr>qt_pending := (if qt_pending q < cap then Suc (qt_pending q) else qt_pending q), qt_writer := QW_idle\<rparr>)"
| qtw_flush: "s = qt_ring q \<Longrightarrow> writer_stores s = st # ws \<Longrightarrow>
    queue_tso_writer_step cap n q (q\<lparr>qt_ring := s\<lparr>memory := apply_store (memory s) st, writer_stores := ws\<rparr>\<rparr>)"

inductive queue_tso_reader_step :: "u64 \<Rightarrow> queue_tso \<Rightarrow> queue_tso \<Rightarrow> bool" for n where
  qtr_call: "qt_reader q = QR_idle \<Longrightarrow> 0 < qt_pending q \<Longrightarrow> queue_tso_reader_step n q (q\<lparr>qt_reader := QR_called\<rparr>)"
| qtr_empty: "qt_reader q = QR_called \<Longrightarrow> seen_readable (qt_ring q) < n \<Longrightarrow>
    queue_tso_reader_step n q (q\<lparr>qt_reader := QR_idle, qt_failed := Suc (qt_failed q)\<rparr>)"
| qtr_check: "qt_reader q = QR_called \<Longrightarrow> \<not> seen_readable (qt_ring q) < n \<Longrightarrow>
    queue_tso_reader_step n q (q\<lparr>qt_reader := QR_checked\<rparr>)"
| qtr_sample: "qt_reader q = QR_checked \<Longrightarrow> s = qt_ring q \<Longrightarrow>
    queue_tso_reader_step n q
      (q\<lparr>qt_ring := s\<lparr>tso_reader := R_copy (min n (m_in (memory s) - own_out s)) []\<rparr>, qt_reader := QR_copying\<rparr>)"
| qtr_copy: "qt_reader q = QR_copying \<Longrightarrow> tso_step (qt_ring q) s \<Longrightarrow> tso_reader s \<noteq> tso_reader (qt_ring q) \<Longrightarrow>
    tso_reader s \<noteq> R_idle \<Longrightarrow> queue_tso_reader_step n q (q\<lparr>qt_ring := s\<rparr>)"
| qtr_publish: "qt_reader q = QR_copying \<Longrightarrow> tso_reader (qt_ring q) = R_copy len got \<Longrightarrow>
    tso_step (qt_ring q) s \<Longrightarrow> tso_reader s = R_idle \<Longrightarrow>
    queue_tso_reader_step n q
      (q\<lparr>qt_ring := s, qt_reader := (if len = 0 then QR_idle else QR_clear),
         qt_failed := (if len = 0 then Suc (qt_failed q) else qt_failed q)\<rparr>)"
| qtr_clear: "qt_reader q = QR_clear \<Longrightarrow>
    queue_tso_reader_step n q (q\<lparr>qt_pending := qt_pending q - 1, qt_reader := QR_idle\<rparr>)"
| qtr_flush: "s = qt_ring q \<Longrightarrow> reader_stores s = x # xs \<Longrightarrow>
    queue_tso_reader_step n q (q\<lparr>qt_ring := s\<lparr>memory := memory s\<lparr>m_out := x\<rparr>, reader_stores := xs\<rparr>\<rparr>)"

inductive queue_tso_step :: "nat \<Rightarrow> u64 \<Rightarrow> queue_tso \<Rightarrow> queue_tso \<Rightarrow> bool" for cap n where
  by_tso_writer: "queue_tso_writer_step cap n q q' \<Longrightarrow> queue_tso_step cap n q q'"
| by_tso_reader: "queue_tso_reader_step n q q' \<Longrightarrow> queue_tso_step cap n q q'"

inductive_cases queue_tso_writer_stepE: "queue_tso_writer_step cap n q q'"
inductive_cases queue_tso_reader_stepE: "queue_tso_reader_step n q q'"
lemmas queue_tso_writer_cases = queue_tso_writer_stepE [consumes 1, case_names full check sample copy publish notify flush]
lemmas queue_tso_reader_cases = queue_tso_reader_stepE [consumes 1, case_names call empty check sample copy publish clear flush]
inductive_simps queue_tso_step_iff: "queue_tso_step cap n q q'"

definition queue_tso_start :: "ring_buffer \<Rightarrow> queue_tso" where
  "queue_tso_start rb = \<lparr>qt_ring = tso_start rb, qt_writer = QW_idle, qt_reader = QR_idle, qt_pending = 0, qt_failed = 0\<rparr>"

section \<open>The sequentially consistent view\<close>

definition queue_view :: "queue_tso \<Rightarrow> queue_run" where
  "queue_view q = \<lparr>q_ring = sc_view (qt_ring q), q_writer = qt_writer q, q_reader = qt_reader q,
     q_pending = qt_pending q, q_failed = qt_failed q\<rparr>"

lemma queue_view_simps [simp]:
  "q_ring (queue_view q) = sc_view (qt_ring q)"
  "q_writer (queue_view q) = qt_writer q"
  "q_reader (queue_view q) = qt_reader q"
  "q_pending (queue_view q) = qt_pending q"
  "q_failed (queue_view q) = qt_failed q"
  by (simp_all add: queue_view_def)

text \<open>The steps of a thread in its call of the ring.\<close>

lemma tso_writer_moves:
  assumes "tso_step s t" and "tso_writer s = W_copy src len i" and "tso_writer t \<noteq> tso_writer s"
    and "tso_inv s" and "spsc_inv (sc_view s)"
  shows "writer_step (sc_view s) (sc_view t) \<and> tso_inv t \<and> memory t = memory s \<and> own_out t = own_out s"
  using assms(1)
proof (cases rule: tso_step_cases)
  case (w_copy src' len' j)
  with tso_w_copy [OF assms(4,5) w_copy(2,3)] show ?thesis by (simp add: own_out_def)
next
  case (w_publish src' len')
  with tso_w_publish [OF assms(4,5) w_publish(2)] show ?thesis by (simp add: own_out_def)
qed (use assms in simp_all)

lemma tso_reader_moves:
  assumes "tso_step s t" and "tso_reader s = R_copy len got" and "tso_reader t \<noteq> tso_reader s"
    and "tso_inv s" and "spsc_inv (sc_view s)"
  shows "reader_step (sc_view s) (sc_view t) \<and> tso_inv t \<and> memory t = memory s \<and> own_in t = own_in s
    \<and> own_out t = (if tso_reader t = R_idle then own_out s + len else own_out s)"
  using assms(1)
proof (cases rule: tso_step_cases)
  case (r_copy len' got' b)
  with tso_r_copy [OF assms(4,5) r_copy(2-4)] show ?thesis by (simp add: own_out_def own_in_def)
next
  case (r_publish len' got')
  with tso_r_publish [OF assms(4,5) r_publish(2,3)] assms(2) show ?thesis by (simp add: own_out_def own_in_def)
qed (use assms in simp_all)

text \<open>What a thread sees is at most what there is.\<close>

lemma seen_sizes:
  assumes "tso_inv s" and "spsc_inv (sc_view s)"
  shows "unat (seen_readable s) \<le> length (rb_bytes (view s))"
    and "length (rb_bytes (view s)) = unat (own_in s - own_out s)"
    and "length (rb_bytes (view s)) \<le> unat (own_in s - m_out (memory s))"
    and "unat (seen_writeable s) = unat (m_size (memory s)) - unat (own_in s - m_out (memory s))"
    and "m_size (memory s) - own_in s + m_out (memory s) = seen_writeable s"
    and "unat (own_in s - m_out (memory s)) \<le> unat (m_size (memory s))"
proof -
  have "rb_ok (view s)" using assms(2) by (simp add: spsc_inv_def)
  then show len: "length (rb_bytes (view s)) = unat (own_in s - own_out s)" by (simp add: length_rb_bytes)
  show "unat (seen_readable s) \<le> length (rb_bytes (view s))"
    unfolding len seen_readable_def using assms(1) stores_ok_le by (auto simp: tso_inv_def own_in_def)
  show "length (rb_bytes (view s)) \<le> unat (own_in s - m_out (memory s))"
    unfolding len using assms(1) outs_ok_le [of "own_in s" "m_out (memory s)" "reader_stores s"]
    by (simp add: tso_inv_def own_out_def)
  show le: "unat (own_in s - m_out (memory s)) \<le> unat (m_size (memory s))" using assms(1) by (simp add: tso_inv_def)
  then show "unat (seen_writeable s) = unat (m_size (memory s)) - unat (own_in s - m_out (memory s))"
    unfolding seen_writeable_def by (intro unat_sub) (simp add: word_le_nat_alt)
  show "m_size (memory s) - own_in s + m_out (memory s) = seen_writeable s" by (simp add: seen_writeable_def)
qed

section \<open>The invariant\<close>

text \<open>Messages announced in the pipe and not yet taken have reached memory.\<close>

definition announced :: "queue_tso \<Rightarrow> nat" where
  "announced q = qt_pending q - (if qt_reader q = QR_clear then 1 else 0)"

definition memory_ok :: "u64 \<Rightarrow> queue_tso \<Rightarrow> bool" where
  "memory_ok n q \<longleftrightarrow> announced q * unat n \<le> unat (seen_readable (qt_ring q))
     \<and> (qt_reader q = QR_checked \<longrightarrow> unat n \<le> unat (seen_readable (qt_ring q)))
     \<and> (\<forall>src. qt_writer q = QW_checked src \<longrightarrow> unat n \<le> unat (seen_writeable (qt_ring q)))"

definition queue_tso_inv :: "nat \<Rightarrow> u64 \<Rightarrow> queue_tso \<Rightarrow> bool" where
  "queue_tso_inv cap n q \<longleftrightarrow> n \<noteq> 0 \<and> tso_inv (qt_ring q) \<and> queue_run_inv cap n (queue_view q) \<and> memory_ok n q"

text \<open>A step is simulated by one of \<open>Queue_Concurrent\<close> or by none.\<close>

definition view_moves :: "nat \<Rightarrow> u64 \<Rightarrow> queue_tso \<Rightarrow> queue_tso \<Rightarrow> bool" where
  "view_moves cap n q q' \<longleftrightarrow> queue_view q' = queue_view q \<or> queue_run_step cap True n (queue_view q) (queue_view q')"

lemma view_moves_inv:
  "view_moves cap n q q' \<Longrightarrow> n \<noteq> 0 \<Longrightarrow> queue_run_inv cap n (queue_view q) \<Longrightarrow> queue_run_inv cap n (queue_view q')"
  by (auto simp: view_moves_def queue_run_step_iff dest: queue_writer_inv queue_reader_inv)

lemma view_moves_writer: "queue_writer_step cap n (queue_view q) (queue_view q') \<Longrightarrow> view_moves cap n q q'"
  by (simp add: view_moves_def queue_run_step_iff)

lemma view_moves_reader: "queue_reader_step True n (queue_view q) (queue_view q') \<Longrightarrow> view_moves cap n q q'"
  by (simp add: view_moves_def queue_run_step_iff)

definition simulated :: "nat \<Rightarrow> u64 \<Rightarrow> queue_tso \<Rightarrow> queue_tso \<Rightarrow> bool" where
  "simulated cap n q q' \<longleftrightarrow> view_moves cap n q q' \<and> tso_inv (qt_ring q') \<and> memory_ok n q'"

lemma queue_tso_invD:
  assumes "queue_tso_inv cap n q"
  shows "n \<noteq> 0" and "tso_inv (qt_ring q)" and "spsc_inv (sc_view (qt_ring q))" and "memory_ok n q"
    and "phases_ok n (queue_view q)" and "accounts_ok cap n (queue_view q)"
  using assms by (auto simp: queue_tso_inv_def queue_run_inv_def)

lemma view_sizes:
  assumes "spsc_inv (sc_view (qt_ring q))"
  shows "unat (q_readable (queue_view q)) = length (rb_bytes (view (qt_ring q)))"
    and "unat (q_writeable (queue_view q)) = unat (m_size (memory (qt_ring q))) - length (rb_bytes (view (qt_ring q)))"
  using q_sizes [of "queue_view q"] assms by simp_all

lemma queue_tso_writer_simulated:
  assumes "queue_tso_writer_step cap n q q'" and "queue_tso_inv cap n q"
  shows "simulated cap n q q'"
proof -
  let ?s = "qt_ring q"
  note inv = queue_tso_invD(2) [OF assms(2)] and sc = queue_tso_invD(3) [OF assms(2)] and mem = queue_tso_invD(4) [OF assms(2)]
    and ph = queue_tso_invD(5) [OF assms(2)] and ac = queue_tso_invD(6) [OF assms(2)]
  note seen = seen_sizes [OF inv sc]
  show ?thesis using assms(1)
  proof (cases rule: queue_tso_writer_cases)
    case full
    with inv mem show ?thesis by (simp add: simulated_def view_moves_def)
  next
    case (check src)
    have "unat n \<le> unat (seen_writeable ?s)" using check(4) by (simp add: not_less word_le_nat_alt)
    then have room: "unat n \<le> unat (q_writeable (queue_view q))" unfolding view_sizes [OF sc] using seen by linarith
    have "queue_writer_step cap n (queue_view q) ((queue_view q)\<lparr>q_writer := QW_checked src\<rparr>)"
      using qw_check [of "queue_view q" src n cap] check(2,3) room by (simp add: not_less word_le_nat_alt)
    also have "(queue_view q)\<lparr>q_writer := QW_checked src\<rparr> = queue_view q'" using check(1) by (simp add: queue_view_def)
    finally show ?thesis
      using check \<open>unat n \<le> unat (seen_writeable ?s)\<close> inv mem
      by (simp add: simulated_def view_moves_writer memory_ok_def announced_def)
  next
    case (sample src)
    have "unat n \<le> unat (seen_writeable ?s)" using mem sample(2) by (simp add: memory_ok_def)
    then have m: "min n (m_size (memory ?s) - own_in ?s + m_out (memory ?s)) = n"
      unfolding seen(5) by (simp add: min_def word_le_nat_alt)
    from ph sample(2) have w: "tso_writer ?s = W_idle" "length src = unat n"
      "length (rb_bytes (view ?s)) + unat n \<le> unat (m_size (memory ?s))" by (simp_all add: phases_ok_def)
    note st = tso_w_sample [OF inv sc w(1), of n src]
    have "min n (m_size (view ?s) - m_in (view ?s) + m_out (view ?s)) = n"
      using room_min [OF sc refl, of n] w(3) by simp
    then have "queue_writer_step cap n (queue_view q)
        ((queue_view q)\<lparr>q_ring := (sc_view ?s)\<lparr>writer := W_copy src n 0\<rparr>, q_writer := QW_copying\<rparr>)"
      using qw_sample [of "queue_view q" src "view ?s" cap n] sample(2) by simp
    also have "(queue_view q)\<lparr>q_ring := (sc_view ?s)\<lparr>writer := W_copy src n 0\<rparr>, q_writer := QW_copying\<rparr> = queue_view q'"
      using sample(1) m by (simp add: queue_view_def sc_view_def view_def own_out_def)
    finally show ?thesis
      using sample st(2) w(2) mem by (simp add: simulated_def view_moves_writer memory_ok_def announced_def seen_readable_def own_out_def)
  next
    case (copy s)
    with ph obtain src i where w: "tso_writer ?s = W_copy src n i" by (auto simp: phases_ok_def)
    note st = tso_writer_moves [OF copy(3) w copy(4) inv sc]
    have "queue_writer_step cap n (queue_view q) ((queue_view q)\<lparr>q_ring := sc_view s\<rparr>)"
      using qw_copy [of "queue_view q" "sc_view s" cap n] copy(2,5) st by simp
    also have "(queue_view q)\<lparr>q_ring := sc_view s\<rparr> = queue_view q'" using copy(1) by (simp add: queue_view_def)
    finally show ?thesis
      using copy(1,2) st mem by (simp add: simulated_def view_moves_writer memory_ok_def announced_def seen_readable_def)
  next
    case (publish src len i s)
    have "tso_writer s \<noteq> tso_writer ?s" using publish(3,5) by simp
    note st = tso_writer_moves [OF publish(4,3) this inv sc]
    let ?w = "if len = 0 then QW_idle else QW_notify"
    have "queue_writer_step cap n (queue_view q) ((queue_view q)\<lparr>q_ring := sc_view s, q_writer := ?w\<rparr>)"
      using qw_publish [of "queue_view q" src len i "sc_view s" cap n] publish(2,3,5) st by simp
    also have "(queue_view q)\<lparr>q_ring := sc_view s, q_writer := ?w\<rparr> = queue_view q'" using publish(1) by (simp add: queue_view_def)
    finally show ?thesis
      using publish(1) st mem by (simp add: simulated_def view_moves_writer memory_ok_def announced_def seen_readable_def)
  next
    case notify
    let ?p = "if qt_pending q < cap then Suc (qt_pending q) else qt_pending q"
    have "queue_writer_step cap n (queue_view q) ((queue_view q)\<lparr>q_pending := ?p, q_writer := QW_idle\<rparr>)"
      using qw_notify [of "queue_view q" cap n] notify(2) by (cases "qt_pending q < cap") simp_all
    also have "(queue_view q)\<lparr>q_pending := ?p, q_writer := QW_idle\<rparr> = queue_view q'" using notify(1) by (simp add: queue_view_def)
    finally have move: "queue_writer_step cap n (queue_view q) (queue_view q')" .
    have "m_in (memory ?s) = own_in ?s" using notify(3) by (simp add: own_in_def)
    then have all: "unat (seen_readable ?s) = length (rb_bytes (view ?s))" using seen(2) by (simp add: seen_readable_def)
    from ac obtain k where k: "length (rb_bytes (view ?s)) = k * unat n"
      "qt_pending q + 1 = k + (if qt_reader q = QR_clear then 1 else 0)" using notify(2) by (auto simp: accounts_ok_def)
    then have "announced q' \<le> k" using notify(1) by (auto simp: announced_def split: if_splits)
    then have "announced q' * unat n \<le> unat (seen_readable ?s)" unfolding all k(1) by simp
    with notify(1) move inv mem show ?thesis by (simp add: simulated_def view_moves_writer memory_ok_def)
  next
    case (flush st ws)
    note fl = tso_w_flush [OF inv, of st ws]
    have "queue_view q' = queue_view q" using flush fl by (simp add: queue_view_def)
    moreover have "unat (seen_readable ?s) \<le> unat (seen_readable (qt_ring q'))"
    proof (cases st)
      case (Byte_store p v)
      with flush show ?thesis by (simp add: seen_readable_def own_out_def)
    next
      case (Index_store x)
      with flush inv have "unat (m_in (memory ?s) - own_out ?s) \<le> unat (x - own_out ?s)" by (simp add: tso_inv_def)
      with flush Index_store show ?thesis by (simp add: seen_readable_def own_out_def)
    qed
    moreover have "seen_writeable (qt_ring q') = seen_writeable ?s"
      using flush by (cases st) (simp_all add: seen_writeable_def own_in_def)
    ultimately show ?thesis
      using flush fl mem by (auto simp: simulated_def view_moves_def memory_ok_def announced_def)
  qed
qed

lemma queue_tso_reader_simulated:
  assumes "queue_tso_reader_step n q q'" and "queue_tso_inv cap n q"
  shows "simulated cap n q q'"
proof -
  let ?s = "qt_ring q"
  note inv = queue_tso_invD(2) [OF assms(2)] and sc = queue_tso_invD(3) [OF assms(2)] and mem = queue_tso_invD(4) [OF assms(2)]
    and ph = queue_tso_invD(5) [OF assms(2)] and ac = queue_tso_invD(6) [OF assms(2)]
  note seen = seen_sizes [OF inv sc]
  have busy: "qt_reader q \<noteq> QR_idle \<Longrightarrow> 0 < qt_pending q" using ac by (simp add: accounts_ok_def)
  show ?thesis using assms(1)
  proof (cases rule: queue_tso_reader_cases)
    case call
    then have "queue_reader_step True n (queue_view q) (queue_view q')"
      using qr_call [of "queue_view q" True n] by (simp add: queue_view_def)
    with call inv mem show ?thesis by (simp add: simulated_def view_moves_reader memory_ok_def announced_def)
  next
    case empty
    have "announced q * unat n \<le> unat (seen_readable ?s)" using mem by (simp add: memory_ok_def)
    moreover have "0 < announced q" using busy empty(2) by (simp add: announced_def)
    then have "unat n \<le> announced q * unat n" by simp
    ultimately have "unat n \<le> unat (seen_readable ?s)" by linarith
    with empty(3) show ?thesis by (simp add: word_less_nat_alt)
  next
    case check
    have le: "unat n \<le> unat (seen_readable ?s)" using check(3) by (simp add: not_less word_le_nat_alt)
    then have "unat n \<le> unat (q_readable (queue_view q))" unfolding view_sizes [OF sc] using seen(1) by linarith
    then have "queue_reader_step True n (queue_view q) (queue_view q')"
      using qr_check [of "queue_view q" n True] check by (simp add: queue_view_def not_less word_le_nat_alt)
    with check inv mem le show ?thesis by (simp add: simulated_def view_moves_reader memory_ok_def announced_def)
  next
    case sample
    have le: "unat n \<le> unat (seen_readable ?s)" using mem sample(2) by (simp add: memory_ok_def)
    then have m: "min n (m_in (memory ?s) - own_out ?s) = n" by (simp add: seen_readable_def min_def word_le_nat_alt)
    from ph sample(2) have r: "tso_reader ?s = R_idle" by (simp add: phases_ok_def)
    note st = tso_r_sample [OF inv sc r, of n]
    have "min n (m_in (view ?s) - m_out (view ?s)) = n" using avail_min [OF sc refl, of n] le seen(1) by simp
    then have "queue_reader_step True n (queue_view q)
        ((queue_view q)\<lparr>q_ring := (sc_view ?s)\<lparr>reader := R_copy n []\<rparr>, q_reader := QR_copying\<rparr>)"
      using qr_sample [of "queue_view q" "view ?s" True n] sample(2) by simp
    also have "(queue_view q)\<lparr>q_ring := (sc_view ?s)\<lparr>reader := R_copy n []\<rparr>, q_reader := QR_copying\<rparr> = queue_view q'"
      using sample(1) m by (simp add: queue_view_def sc_view_def view_def own_out_def)
    finally show ?thesis
      using sample st(2) mem
      by (simp add: simulated_def view_moves_reader memory_ok_def announced_def seen_readable_def seen_writeable_def own_in_def own_out_def)
  next
    case (copy s)
    with ph obtain got where r: "tso_reader ?s = R_copy n got" by (auto simp: phases_ok_def)
    note st = tso_reader_moves [OF copy(3) r copy(4) inv sc]
    have "queue_reader_step True n (queue_view q) ((queue_view q)\<lparr>q_ring := sc_view s\<rparr>)"
      using qr_copy [of "queue_view q" "sc_view s" True n] copy(2,5) st by simp
    also have "(queue_view q)\<lparr>q_ring := sc_view s\<rparr> = queue_view q'" using copy(1) by (simp add: queue_view_def)
    finally show ?thesis
      using copy(1,2,5) st mem
      by (simp add: simulated_def view_moves_reader memory_ok_def announced_def seen_readable_def seen_writeable_def)
  next
    case (publish len got s)
    have "tso_reader s \<noteq> tso_reader ?s" using publish(3,5) by simp
    note st = tso_reader_moves [OF publish(4,3) this inv sc]
    from ph publish(2,3) have len: "len = n" by (auto simp: phases_ok_def)
    have n0: "n \<noteq> 0" by (rule queue_tso_invD(1) [OF assms(2)])
    have "queue_reader_step True n (queue_view q) ((queue_view q)\<lparr>q_ring := sc_view s, q_reader := QR_clear, q_failed := qt_failed q\<rparr>)"
      using qr_publish [of "queue_view q" len got "sc_view s" True n] publish(2,3,5) st len n0 by simp
    also have "(queue_view q)\<lparr>q_ring := sc_view s, q_reader := QR_clear, q_failed := qt_failed q\<rparr> = queue_view q'"
      using publish(1) len n0 by (simp add: queue_view_def)
    finally have move: "queue_reader_step True n (queue_view q) (queue_view q')" .
    have pos: "0 < qt_pending q" using busy publish(2) by simp
    have old: "qt_pending q * unat n \<le> unat (seen_readable ?s)" using mem publish(2) by (simp add: memory_ok_def announced_def)
    moreover have "unat n \<le> qt_pending q * unat n" using pos by simp
    ultimately have "unat n \<le> unat (seen_readable ?s)" by linarith
    then have "unat (seen_readable s) = unat (seen_readable ?s) - unat n"
      using st publish(5) len unat_sub_add [of n "m_in (memory ?s)" "own_out ?s"] by (simp add: seen_readable_def)
    moreover have "(qt_pending q - 1) * unat n = qt_pending q * unat n - unat n" by (simp add: diff_mult_distrib)
    ultimately have "(qt_pending q - 1) * unat n \<le> unat (seen_readable s)" using old by linarith
    then show ?thesis
      using publish(1) move st mem len n0
      by (simp add: simulated_def view_moves_reader memory_ok_def announced_def seen_writeable_def)
  next
    case clear
    then have "queue_reader_step True n (queue_view q) (queue_view q')"
      using qr_clear [of "queue_view q" True n] by (simp add: queue_view_def)
    with clear inv mem show ?thesis by (simp add: simulated_def view_moves_reader memory_ok_def announced_def)
  next
    case (flush x xs)
    note fl = tso_r_flush [OF inv flush(2)]
    have "queue_view q' = queue_view q" using flush fl by (simp add: queue_view_def)
    moreover have same: "own_in (qt_ring q') = own_in ?s" "own_out (qt_ring q') = own_out ?s"
      using flush by (simp_all add: own_in_def own_out_def)
    then have "seen_readable (qt_ring q') = seen_readable ?s" using flush by (simp add: seen_readable_def)
    moreover have "unat (seen_writeable ?s) \<le> unat (seen_writeable (qt_ring q'))"
    proof -
      have "spsc_inv (sc_view (qt_ring q'))" using fl(1) sc flush(1) by simp
      from seen_sizes(4) [OF _ this] have "unat (seen_writeable (qt_ring q')) = unat (m_size (memory ?s)) - unat (own_in ?s - x)"
        using fl(2) flush(1) same by simp
      moreover have "unat (own_in ?s - x) \<le> unat (own_in ?s - m_out (memory ?s))"
        using inv flush(2) by (simp add: tso_inv_def)
      ultimately show ?thesis unfolding seen(4) by linarith
    qed
    ultimately show ?thesis
      using flush fl mem by (auto simp: simulated_def view_moves_def memory_ok_def announced_def)
  qed
qed

section \<open>Runs\<close>

definition queue_tso_init :: "nat \<Rightarrow> u64 \<Rightarrow> queue_tso \<Rightarrow> bool" where
  "queue_tso_init cap n q \<longleftrightarrow> (\<exists>rb. q = queue_tso_start rb \<and> rb_ok rb \<and> rb_bytes rb = [] \<and> n \<noteq> 0
     \<and> unat (m_size rb) div unat n < cap)"

lemma queue_view_start: "queue_view (queue_tso_start rb) = queue_run_start rb"
  by (simp add: queue_view_def queue_tso_start_def queue_run_start_def sc_view_start)

lemma queue_tso_start_inv:
  assumes "queue_tso_init cap n q"
  shows "queue_tso_inv cap n q"
proof -
  obtain rb where rb: "q = queue_tso_start rb" "rb_ok rb" "rb_bytes rb = []" "n \<noteq> 0" "unat (m_size rb) div unat n < cap"
    using assms by (auto simp: queue_tso_init_def)
  have "queue_run_inv cap n (queue_run_start rb)"
    using queue_run_start_inv [OF queue_run_init_start] rb(2-5) by blast
  moreover have "memory_ok n q" by (simp add: rb(1) memory_ok_def announced_def queue_tso_start_def)
  moreover have "tso_inv (qt_ring q)" using tso_start_inv [OF rb(2)] by (simp add: rb(1) queue_tso_start_def)
  ultimately show ?thesis using rb(1,4) by (simp add: queue_tso_inv_def queue_view_start)
qed

lemma queue_tso_simulated:
  "queue_tso_step cap n q q' \<Longrightarrow> queue_tso_inv cap n q \<Longrightarrow> simulated cap n q q' \<and> queue_tso_inv cap n q'"
  using queue_tso_writer_simulated [of cap n q q'] queue_tso_reader_simulated [of n q q' cap] view_moves_inv [of cap n q q']
  by (auto simp: queue_tso_step_iff queue_tso_inv_def simulated_def)

interpretation queue_tso: state_machine "queue_tso_init cap n" "queue_tso_step cap n" "queue_tso_inv cap n"
  by unfold_locales (simp_all add: queue_tso_start_inv queue_tso_simulated)

lemma queue_tso_run_view:
  assumes "(queue_tso_step cap n)\<^sup>*\<^sup>* q0 q" and "queue_tso_init cap n q0"
  shows "(queue_run_step cap True n)\<^sup>*\<^sup>* (queue_view q0) (queue_view q)"
  using assms(1)
proof (induction rule: rtranclp_induct)
  case (step q q')
  have "queue_tso_inv cap n q" using queue_tso.reachable_inv [OF step.hyps(1) assms(2)] .
  from queue_tso_simulated [OF step.hyps(2) this] step.IH show ?case
    by (auto simp: simulated_def view_moves_def intro: rtranclp.rtrancl_into_rtrancl)
qed simp

section \<open>Property\<close>

text \<open>
  C11: On a machine with store buffers, without fences, a queue whose reader waits for the descriptor, with a pipe
  that has more room than the ring has messages, runs as one on a sequentially consistent machine does. So no read
  returns -1, messages come out in order, and each has its notification; and the message of every notification in the pipe that
  is not yet taken has reached memory, so that the reader it wakes finds it.
\<close>

theorem queue_tso_refines:
  assumes "rb_ok rb" and "rb_bytes rb = []" and "n \<noteq> 0" and "unat (m_size rb) div unat n < cap"
    and "(queue_tso_step cap n)\<^sup>*\<^sup>* (queue_tso_start rb) q"
  shows "(queue_run_step cap True n)\<^sup>*\<^sup>* (queue_run_start rb) (queue_view q)
    \<and> qt_failed q = 0
    \<and> tso_sent (qt_ring q) = tso_received (qt_ring q) @ rb_bytes (view (qt_ring q))
    \<and> (qt_pending q - (if qt_reader q = QR_clear then 1 else 0)) * unat n
        \<le> unat (m_in (memory (qt_ring q)) - own_out (qt_ring q))
    \<and> (qt_reader q = QR_idle \<and> rb_bytes (view (qt_ring q)) \<noteq> [] \<longrightarrow> 0 < qt_pending q \<or> qt_writer q = QW_notify)"
proof -
  have init: "queue_tso_init cap n (queue_tso_start rb)" using assms(1-4) by (auto simp: queue_tso_init_def)
  have inv: "queue_tso_inv cap n q" using queue_tso.reachable_inv [OF assms(5) init] .
  note ac = queue_tso_invD(6) [OF inv]
  then obtain k where k: "length (rb_bytes (view (qt_ring q))) = k * unat n"
      "qt_pending q + (if qt_writer q = QW_notify then 1 else 0) = k + (if qt_reader q = QR_clear then 1 else 0)"
    by (auto simp: accounts_ok_def)
  have "rb_bytes (view (qt_ring q)) \<noteq> [] \<Longrightarrow> 0 < k" using k(1) by (cases k) simp_all
  then show ?thesis
    using queue_tso_run_view [OF assms(5) init] queue_tso_invD(3,4) [OF inv] ac k(2)
    by (auto simp: queue_view_start memory_ok_def announced_def seen_readable_def accounts_ok_def spsc_inv_def split: if_splits)
qed

text \<open>The writer of one byte has published it, and the byte is still in its buffer, so it cannot notify the reader yet.\<close>

theorem queue_tso_refines_witness:
  "\<exists>q. (queue_tso_step 3 1)\<^sup>*\<^sup>* (queue_tso_start empty_ring2) q \<and> qt_writer q = QW_notify
     \<and> writer_stores (qt_ring q) = [Byte_store 0 5, Index_store 1] \<and> rb_bytes (view (qt_ring q)) = [5]"
proof -
  let ?q0 = "queue_tso_start empty_ring2"
  let ?q1 = "?q0\<lparr>qt_writer := QW_checked [5]\<rparr>"
  let ?s2 = "(tso_start empty_ring2)\<lparr>tso_writer := W_copy [5] 1 0\<rparr>"
  let ?q2 = "?q0\<lparr>qt_ring := ?s2, qt_writer := QW_copying\<rparr>"
  let ?s3 = "?s2\<lparr>writer_stores := [Byte_store 0 5], tso_writer := W_copy [5] 1 1\<rparr>"
  let ?q3 = "?q2\<lparr>qt_ring := ?s3\<rparr>"
  let ?s4 = "?s3\<lparr>writer_stores := [Byte_store 0 5, Index_store 1], tso_writer := W_idle, tso_sent := [5]\<rparr>"
  let ?q4 = "?q3\<lparr>qt_ring := ?s4, qt_writer := QW_notify\<rparr>"
  note def = queue_tso_start_def tso_start_def empty_ring2_def own_in_def copy_pos_def min_def seen_writeable_def
  have "queue_tso_writer_step 3 1 ?q0 ?q1" using qtw_check [of ?q0 "[5]" 1 3] by (simp add: def)
  moreover have "queue_tso_writer_step 3 1 ?q1 ?q2"
    using qtw_sample [of ?q1 "[5]" "tso_start empty_ring2" 3 1] by (simp add: def)
  moreover have "tso_step ?s2 ?s3" using tw_copy [of ?s2 "[5]" 1 0] by (simp add: def)
  then have "queue_tso_writer_step 3 1 ?q2 ?q3" using qtw_copy [of ?q2 ?s3 3 1] by simp
  moreover have "tso_step ?s3 ?s4" using tw_publish [of ?s3 "[5]" 1] by (simp add: def)
  then have "queue_tso_writer_step 3 1 ?q3 ?q4" using qtw_publish [of ?q3 "[5]" 1 1 ?s4 3 1] by simp
  ultimately have run: "(queue_tso_step 3 1)\<^sup>*\<^sup>* ?q0 ?q4"
    by (meson by_tso_writer converse_rtranclp_into_rtranclp rtranclp.rtrancl_refl)
  have "unat (m_size empty_ring2) div unat (1 :: u64) < 3" by (simp add: empty_ring2_def)
  from queue_tso_refines [OF empty_ring2_ok _ this run] have "rb_bytes (view (qt_ring ?q4)) = [5]"
    by (simp add: tso_start_def)
  with run show ?thesis by (intro exI [of _ ?q4]) simp
qed

end
