(* ===== verification/Plugin_Loader.thy ===== *)
theory Plugin_Loader
  imports Proto_Dispatcher "HOL-Library.Char_ord" "HOL-Library.List_Lexorder"
begin

text \<open>
  The plugin loader of \<open>plugin_loader.h\<close>, \<open>plugin_loader.cpp\<close> and \<open>plugin_iface.h\<close>: shared objects
  loaded by path, each with a table of functions that register handlers with the dispatcher. The
  dynamic linker and the functions of a plugin are answered by an environment; a function that
  is given the dispatcher answers with the dispatcher's state afterwards as well. Interface tables
  live in the memory of the shared objects, so two paths may lead to the same one.
\<close>

section \<open>State and operations\<close>

type_synonym dispatcher_state = "handler_mgr \<times> handler_history"

datatype plugin_call =
    Dlopen string
  | Dlsym nat
  | Dlclose nat
  | P_init nat
  | P_uninit nat
  | P_register nat dispatcher_state
  | P_unregister nat dispatcher_state

text \<open>The table \<open>PluginIface\<close>: the handle and which of the function pointers are set.\<close>

record plugin_iface =
  plugin_so :: "nat option"
  has_init :: bool
  has_uninit :: bool
  has_register :: bool
  has_unregister :: bool

text \<open>An answer: an integer, a pointer, the table it points to, the dispatcher's state.\<close>

record plugin_ret =
  pl_val :: int
  pl_ptr :: "nat option"
  pl_iface :: plugin_iface
  pl_disp :: dispatcher_state

type_synonym plugin_env = "(plugin_call, plugin_ret) env"
type_synonym plugin_history = "(plugin_call, plugin_ret) history"

record plugin_loader =
  m_plugins :: "string \<rightharpoonup> nat"
  m_dispatcher :: dispatcher_state
  iface_mem :: "nat \<Rightarrow> plugin_iface"
  plugin_calls :: plugin_history

definition plugin_sys :: "plugin_env \<Rightarrow> plugin_loader \<Rightarrow> plugin_call \<Rightarrow> plugin_ret \<times> plugin_loader" where
  "plugin_sys env L c = (let (r, h) = invoke env (plugin_calls L) c in (r, L\<lparr>plugin_calls := h\<rparr>))"

definition load_plugin :: "plugin_env \<Rightarrow> plugin_loader \<Rightarrow> string \<Rightarrow> int \<times> plugin_loader" where
  "load_plugin env L path =
     (if path = [] then (- 1, L)
      else if m_plugins L path \<noteq> None then (- 2, L)
      else let (r1, L1) = plugin_sys env L (Dlopen (c_str path))
           in case pl_ptr r1 of
                None \<Rightarrow> (- 1, L1)
              | Some so \<Rightarrow>
                  let (r2, L2) = plugin_sys env L1 (Dlsym so)
                  in case pl_ptr r2 of
                       None \<Rightarrow> (- 1, snd (plugin_sys env L2 (Dlclose so)))
                     | Some p \<Rightarrow>
                         let iface = (pl_iface r2)\<lparr>plugin_so := Some so\<rparr>;
                             L3 = L2\<lparr>iface_mem := (iface_mem L2)(p := iface)\<rparr>
                         in if has_init iface \<and> has_register iface
                            then let (r4, L4) = plugin_sys env L3 (P_init p)
                                 in if pl_val r4 \<noteq> 0 then (- 1, snd (plugin_sys env L4 (Dlclose so)))
                                    else let (r5, L5) = plugin_sys env L4 (P_register p (m_dispatcher L4));
                                             L6 = L5\<lparr>m_dispatcher := pl_disp r5\<rparr>
                                         in if pl_val r5 \<noteq> 0
                                            then let L7 = (if has_uninit iface then snd (plugin_sys env L6 (P_uninit p)) else L6)
                                                 in (- 1, snd (plugin_sys env L7 (Dlclose so)))
                                            else (0, L6\<lparr>m_plugins := (m_plugins L6)(path \<mapsto> p)\<rparr>)
                            else (- 1, snd (plugin_sys env L3 (Dlclose so))))"

fun load_list_loop :: "plugin_env \<Rightarrow> plugin_loader \<Rightarrow> string list \<Rightarrow> int \<Rightarrow> int \<times> plugin_loader" where
  "load_list_loop env L [] ret = (ret, L)"
| "load_list_loop env L (path # paths) ret =
     (let (_, L1) = load_plugin env L path in load_list_loop env L1 paths (ret + 1))"

definition load_list :: "plugin_env \<Rightarrow> plugin_loader \<Rightarrow> string list \<Rightarrow> int \<times> plugin_loader" where
  "load_list env L paths = load_list_loop env L paths 0"

definition unload_plugin :: "plugin_env \<Rightarrow> plugin_loader \<Rightarrow> string \<Rightarrow> int \<times> plugin_loader" where
  "unload_plugin env L path =
     (if path = [] then (- 1, L)
      else let (ret, L1) =
             (case m_plugins L path of
                None \<Rightarrow> (0, L)
              | Some p \<Rightarrow>
                  (case plugin_so (iface_mem L p) of
                     None \<Rightarrow> (0, L)
                   | Some so \<Rightarrow>
                       let La = (if has_unregister (iface_mem L p)
                                 then let (r, Lr) = plugin_sys env L (P_unregister p (m_dispatcher L))
                                      in Lr\<lparr>m_dispatcher := pl_disp r\<rparr>
                                 else L);
                           Lb = (if has_uninit (iface_mem La p) then snd (plugin_sys env La (P_uninit p)) else La);
                           (r, Lc) = plugin_sys env Lb (Dlclose so)
                       in (if pl_val r \<noteq> 0 then - 1 else 0, Lc)))
           in (ret, L1\<lparr>m_plugins := (m_plugins L1)(path := None)\<rparr>))"

fun unload_list_loop :: "plugin_env \<Rightarrow> plugin_loader \<Rightarrow> string list \<Rightarrow> int \<Rightarrow> int \<times> plugin_loader" where
  "unload_list_loop env L [] ret = (ret, L)"
| "unload_list_loop env L (path # paths) ret =
     (let (_, L1) = unload_plugin env L path in unload_list_loop env L1 paths (ret + 1))"

definition unload_list :: "plugin_env \<Rightarrow> plugin_loader \<Rightarrow> string list \<Rightarrow> int \<times> plugin_loader" where
  "unload_list env L paths = unload_list_loop env L paths 0"

text \<open>The map is traversed in the order of its keys; the iterator is advanced before each erasure.\<close>

definition clear_plugins :: "plugin_env \<Rightarrow> plugin_loader \<Rightarrow> plugin_loader" where
  "clear_plugins env L = foldl (\<lambda>L path. snd (unload_plugin env L path)) L (sorted_list_of_set (dom (m_plugins L)))"

definition plugin_loader_make :: "dispatcher_state \<Rightarrow> (nat \<Rightarrow> plugin_iface) \<Rightarrow> plugin_loader" where
  "plugin_loader_make d mem = \<lparr>m_plugins = Map.empty, m_dispatcher = d, iface_mem = mem, plugin_calls = []\<rparr>"

section \<open>Handles\<close>

lemma plugin_sys_unfold [env_simps]:
  "plugin_sys env L c = (env (plugin_calls L) c, L\<lparr>plugin_calls := plugin_calls L @ [(c, env (plugin_calls L) c)]\<rparr>)"
  by (simp add: plugin_sys_def invoke_def)

text \<open>
  The account of each handle: how often \<open>dlopen\<close> returned it, how often it was closed, and how often
  \<open>dlclose\<close> failed on it; and the number of paths in the table whose plugin has it.
\<close>

definition dl_opened :: "nat \<Rightarrow> plugin_history \<Rightarrow> nat" where
  "dl_opened so h = length (filter (\<lambda>(c, r). (\<exists>s. c = Dlopen s) \<and> pl_ptr r = Some so) h)"

definition dl_closed :: "nat \<Rightarrow> plugin_history \<Rightarrow> nat" where
  "dl_closed so h = length (filter (\<lambda>(c, r). c = Dlclose so \<and> pl_val r = 0) h)"

definition dl_close_failed :: "nat \<Rightarrow> plugin_history \<Rightarrow> nat" where
  "dl_close_failed so h = length (filter (\<lambda>(c, r). c = Dlclose so \<and> pl_val r \<noteq> 0) h)"

definition paths_of :: "nat \<Rightarrow> plugin_loader \<Rightarrow> string set" where
  "paths_of so L = {path. \<exists>p. m_plugins L path = Some p \<and> plugin_so (iface_mem L p) = Some so}"

definition handles_out :: "nat \<Rightarrow> plugin_history \<Rightarrow> int" where
  "handles_out so h = int (dl_opened so h) - int (dl_closed so h) - int (dl_close_failed so h)"

lemma handles_out_simps [simp]:
  "handles_out so [] = 0"
  "handles_out so ((c, r) # h) = (case c of Dlopen s \<Rightarrow> if pl_ptr r = Some so then 1 else 0
      | Dlclose x \<Rightarrow> if x = so then - 1 else 0 | _ \<Rightarrow> 0) + handles_out so h"
  "handles_out so (h @ h') = handles_out so h + handles_out so h'"
  by (auto simp: handles_out_def dl_opened_def dl_closed_def dl_close_failed_def split: plugin_call.split)

text \<open>
  What is relied on of the linker: while a shared object is open, the table \<open>dlsym\<close> has found in it is
  not found through another handle.
\<close>

definition found_in :: "plugin_env \<Rightarrow> plugin_history \<Rightarrow> plugin_history \<Rightarrow> nat \<Rightarrow> nat \<Rightarrow> bool" where
  "found_in env h h1 so p \<longleftrightarrow>
     (\<exists>h2. h = h1 @ (Dlsym so, env h1 (Dlsym so)) # h2) \<and> pl_ptr (env h1 (Dlsym so)) = Some p"

lemma found_in_append: "found_in env h h1 so p \<Longrightarrow> found_in env (h @ k) h1 so p"
  by (auto simp: found_in_def)

definition own_tables :: "plugin_env \<Rightarrow> bool" where
  "own_tables env \<longleftrightarrow> (\<forall>h h1 so so' p. so \<noteq> so' \<and> dl_closed so' h < dl_opened so' h
      \<and> found_in env h h1 so' p \<longrightarrow> pl_ptr (env h (Dlsym so)) \<noteq> Some p)"

text \<open>Every table in use holds the handle it was found through, and every handle's account is what the table has of it.\<close>

definition known_table :: "plugin_env \<Rightarrow> plugin_loader \<Rightarrow> nat \<Rightarrow> bool" where
  "known_table env L p \<longleftrightarrow> (\<exists>so h1. plugin_so (iface_mem L p) = Some so \<and> found_in env (plugin_calls L) h1 so p)"

lemma known_table_append:
  "known_table env L p \<Longrightarrow> plugin_calls L' = plugin_calls L @ hs \<Longrightarrow> plugin_so (iface_mem L' p) = plugin_so (iface_mem L p) \<Longrightarrow>
   known_table env L' p"
  unfolding known_table_def using found_in_append by fastforce

definition loader_ok :: "plugin_env \<Rightarrow> plugin_loader \<Rightarrow> bool" where
  "loader_ok env L \<longleftrightarrow> finite (dom (m_plugins L)) \<and> [] \<notin> dom (m_plugins L) \<and> (\<forall>p \<in> ran (m_plugins L). known_table env L p)
     \<and> (\<forall>so. handles_out so (plugin_calls L) = int (card (paths_of so L)))"

definition loader_level :: "nat \<Rightarrow> plugin_loader \<Rightarrow> int" where
  "loader_level so L = handles_out so (plugin_calls L) - int (card (paths_of so L))"

lemma paths_finite: "finite (dom (m_plugins L)) \<Longrightarrow> finite (paths_of so L)"
  by (rule finite_subset [of _ "dom (m_plugins L)"]) (auto simp: paths_of_def)

lemma loader_ok_same:
  assumes "loader_ok env L" and "m_plugins L' = m_plugins L" and "plugin_calls L' = plugin_calls L @ hs"
    and "\<And>p. p \<in> ran (m_plugins L) \<Longrightarrow> plugin_so (iface_mem L' p) = plugin_so (iface_mem L p)"
    and "\<And>so. handles_out so hs = 0"
  shows "loader_ok env L'"
proof -
  have "plugin_so (iface_mem L' q) = plugin_so (iface_mem L q)" if "m_plugins L x = Some q" for x q
    by (rule assms(4)) (rule ranI, rule that)
  then have "paths_of so L' = paths_of so L" for so using assms(2) by (auto simp: paths_of_def)
  moreover have "known_table env L' p" if "p \<in> ran (m_plugins L)" for p
    using known_table_append [OF _ assms(3) assms(4) [OF that]] assms(1) that by (simp add: loader_ok_def)
  ultimately show ?thesis using assms by (simp add: loader_ok_def)
qed

lemma loader_ok_insert:
  assumes "loader_ok env L" and "m_plugins L' = (m_plugins L)(path \<mapsto> p)" and "m_plugins L path = None" and "path \<noteq> []"
    and "plugin_calls L' = plugin_calls L @ hs" and "plugin_so (iface_mem L' p) = Some so"
    and "found_in env (plugin_calls L') h1 so p"
    and "\<And>q. q \<in> ran (m_plugins L) \<Longrightarrow> plugin_so (iface_mem L' q) = plugin_so (iface_mem L q)"
    and "\<And>x. handles_out x hs = (if x = so then 1 else 0)"
  shows "loader_ok env L'"
proof -
  have fin: "finite (dom (m_plugins L))" using assms(1) by (simp add: loader_ok_def)
  have ran: "ran (m_plugins L') = insert p (ran (m_plugins L))" using assms(2,3) by simp
  have "plugin_so (iface_mem L' q) = plugin_so (iface_mem L q)" if "m_plugins L x = Some q" for x q
    by (rule assms(8)) (rule ranI, rule that)
  then have "paths_of x L' = (if x = so then insert path (paths_of x L) else paths_of x L)" for x
    using assms(2,3,6) by (auto simp: paths_of_def split: if_splits)
  moreover have "path \<notin> paths_of x L" for x using assms(3) by (simp add: paths_of_def)
  ultimately have "handles_out x (plugin_calls L') = int (card (paths_of x L'))" for x
    using assms(1,5,9) paths_finite [OF fin] by (simp add: loader_ok_def)
  moreover have "known_table env L' q" if "q \<in> ran (m_plugins L')" for q
  proof (cases "q = p")
    case True
    with assms(6,7) show ?thesis unfolding known_table_def by auto
  next
    case False
    with that ran have q: "q \<in> ran (m_plugins L)" by simp
    show ?thesis using known_table_append [OF _ assms(5) assms(8) [OF q]] assms(1) q by (simp add: loader_ok_def)
  qed
  ultimately show ?thesis using assms(1,2,4) by (simp add: loader_ok_def)
qed

lemma loader_ok_delete:
  assumes "loader_ok env L" and "m_plugins L' = (m_plugins L)(path := None)" and "m_plugins L path = Some p"
    and "plugin_calls L' = plugin_calls L @ hs" and "iface_mem L' = iface_mem L" and "plugin_so (iface_mem L p) = Some so"
    and "\<And>x. handles_out x hs = (if x = so then - 1 else 0)"
  shows "loader_ok env L'"
proof -
  have fin: "finite (dom (m_plugins L))" using assms(1) by (simp add: loader_ok_def)
  have ran: "ran (m_plugins L') \<subseteq> ran (m_plugins L)" using assms(2) by (auto simp: ran_def)
  have "paths_of x L' = (if x = so then paths_of x L - {path} else paths_of x L)" for x
    using assms(2,3,5,6) by (auto simp: paths_of_def split: if_splits)
  moreover have "path \<in> paths_of so L" using assms(3,6) by (simp add: paths_of_def)
  moreover from this have "0 < card (paths_of so L)" using paths_finite [OF fin] by (auto simp: card_gt_0_iff)
  ultimately have "handles_out x (plugin_calls L') = int (card (paths_of x L'))" for x
    using assms(1,4,7) by (simp add: loader_ok_def card_Diff_singleton of_nat_diff)
  moreover have "known_table env L' q" if "q \<in> ran (m_plugins L')" for q
    using known_table_append [OF _ assms(4), of env q] assms(1,5) that ran by (auto simp: loader_ok_def)
  ultimately show ?thesis using assms(1,2) by (simp add: loader_ok_def)
qed

text \<open>A table found through a handle is not in use for another one.\<close>

lemma table_in_use:
  assumes "own_tables env" and "loader_ok env L" and "p \<in> ran (m_plugins L)"
    and "pl_ptr (env (plugin_calls L @ [(Dlopen f, r1)]) (Dlsym so)) = Some p"
  shows "plugin_so (iface_mem L p) = Some so"
proof -
  have "known_table env L p" using assms(2,3) by (simp add: loader_ok_def)
  then obtain so' h1 where known: "plugin_so (iface_mem L p) = Some so'" "found_in env (plugin_calls L) h1 so' p"
    by (auto simp: known_table_def)
  obtain path where "path \<in> paths_of so' L" using assms(3) known(1) by (auto simp: paths_of_def ran_def)
  moreover have "finite (paths_of so' L)" using assms(2) paths_finite by (auto simp: loader_ok_def)
  ultimately have "0 < card (paths_of so' L)" by (auto simp: card_gt_0_iff)
  moreover have "handles_out so' (plugin_calls L) = int (card (paths_of so' L))" using assms(2) by (simp add: loader_ok_def)
  ultimately have "dl_closed so' (plugin_calls L) < dl_opened so' (plugin_calls L)" by (simp add: handles_out_def)
  then have "dl_closed so' (plugin_calls L @ [(Dlopen f, r1)]) < dl_opened so' (plugin_calls L @ [(Dlopen f, r1)])"
    by (simp add: dl_opened_def dl_closed_def)
  moreover have "found_in env (plugin_calls L @ [(Dlopen f, r1)]) h1 so' p" using known(2) by (rule found_in_append)
  ultimately have "so = so'" using assms(1,4) unfolding own_tables_def by blast
  with known(1) show ?thesis by simp
qed

lemma load_plugin_kept:
  assumes "own_tables env" and "loader_ok env L"
  shows "loader_ok env (snd (load_plugin env L path))"
proof (cases "path = [] \<or> m_plugins L path \<noteq> None")
  case True
  then show ?thesis using assms(2) by (auto simp: load_plugin_def)
next
  case fresh: False
  define r1 where "r1 = env (plugin_calls L) (Dlopen (c_str path))"
  define L1 where "L1 = L\<lparr>plugin_calls := plugin_calls L @ [(Dlopen (c_str path), r1)]\<rparr>"
  show ?thesis
  proof (cases "pl_ptr r1")
    case None
    then have "snd (load_plugin env L path) = L1"
      using fresh by (auto simp: load_plugin_def plugin_sys_unfold L1_def r1_def)
    then show ?thesis using None by (auto intro: loader_ok_same [OF assms(2)] simp: L1_def)
  next
    case (Some so)
    define r2 where "r2 = env (plugin_calls L1) (Dlsym so)"
    define L2 where "L2 = L1\<lparr>plugin_calls := plugin_calls L1 @ [(Dlsym so, r2)]\<rparr>"
    have calls2: "plugin_calls L2 = plugin_calls L @ [(Dlopen (c_str path), r1), (Dlsym so, r2)]" "iface_mem L2 = iface_mem L"
      "m_plugins L2 = m_plugins L" by (simp_all add: L2_def L1_def)
    show ?thesis
    proof (cases "pl_ptr r2")
      case None
      then have "snd (load_plugin env L path) = snd (plugin_sys env L2 (Dlclose so))"
        using fresh Some by (auto simp: load_plugin_def plugin_sys_unfold [of env L] plugin_sys_unfold [of env L1] L1_def [symmetric]
            r1_def [symmetric] r2_def [symmetric] L2_def [symmetric])
      then show ?thesis using Some calls2
        by (auto intro: loader_ok_same [OF assms(2)] simp: plugin_sys_unfold)
    next
      case ptr: (Some p)
      define iface where "iface = (pl_iface r2)\<lparr>plugin_so := Some so\<rparr>"
      define L3 where "L3 = L2\<lparr>iface_mem := (iface_mem L2)(p := iface)\<rparr>"
      have calls3: "plugin_calls L3 = plugin_calls L @ [(Dlopen (c_str path), r1), (Dlsym so, r2)]" "m_plugins L3 = m_plugins L"
        using calls2 by (simp_all add: L3_def)
      have same: "plugin_so (iface_mem L3 q) = plugin_so (iface_mem L q)" if "q \<in> ran (m_plugins L)" for q
      proof (cases "q = p")
        case True
        have "pl_ptr (env (plugin_calls L @ [(Dlopen (c_str path), r1)]) (Dlsym so)) = Some p"
          using ptr by (simp add: r2_def L1_def)
        from table_in_use [OF assms _ this] that True show ?thesis by (simp add: L3_def iface_def)
      qed (simp add: L3_def calls2)
      have unf: "load_plugin env L path =
        (if has_init iface \<and> has_register iface
         then let (r4, L4) = plugin_sys env L3 (P_init p)
              in if pl_val r4 \<noteq> 0 then (- 1, snd (plugin_sys env L4 (Dlclose so)))
                 else let (r5, L5) = plugin_sys env L4 (P_register p (m_dispatcher L4)); L6 = L5\<lparr>m_dispatcher := pl_disp r5\<rparr>
                      in if pl_val r5 \<noteq> 0
                         then let L7 = (if has_uninit iface then snd (plugin_sys env L6 (P_uninit p)) else L6)
                              in (- 1, snd (plugin_sys env L7 (Dlclose so)))
                         else (0, L6\<lparr>m_plugins := (m_plugins L6)(path \<mapsto> p)\<rparr>)
         else (- 1, snd (plugin_sys env L3 (Dlclose so))))"
        using fresh Some ptr
        by (simp add: load_plugin_def plugin_sys_unfold [of env L] plugin_sys_unfold [of env L1] L1_def [symmetric]
            r1_def [symmetric] r2_def [symmetric] L2_def [symmetric] iface_def [symmetric] L3_def [symmetric] Let_def)
      have failed: "loader_ok env L'" if "m_plugins L' = m_plugins L" "iface_mem L' = iface_mem L3"
        "plugin_calls L' = plugin_calls L3 @ hs" "\<And>x. handles_out x hs = (if x = so then - 1 else 0)" for L' hs
        by (rule loader_ok_same [OF assms(2) that(1), of "[(Dlopen (c_str path), r1), (Dlsym so, r2)] @ hs"])
          (use that calls3 same Some in \<open>auto\<close>)
      have loaded: "loader_ok env L'" if "m_plugins L' = (m_plugins L)(path \<mapsto> p)" "iface_mem L' = iface_mem L3"
        "plugin_calls L' = plugin_calls L3 @ hs" "\<And>x. handles_out x hs = 0" for L' hs
        by (rule loader_ok_insert [OF assms(2) that(1), of "[(Dlopen (c_str path), r1), (Dlsym so, r2)] @ hs" so "plugin_calls L1"])
          (use that calls3 same Some fresh ptr in \<open>auto simp: L3_def iface_def found_in_def r2_def L1_def\<close>)
      show ?thesis
      proof (cases "has_init iface \<and> has_register iface")
        case False
        show ?thesis unfolding unf if_not_P [OF False] plugin_sys_unfold
          by (rule failed [of _ "[(Dlclose so, env (plugin_calls L3) (Dlclose so))]"]) (simp_all add: calls3)
      next
        case True
        define r4 where "r4 = env (plugin_calls L3) (P_init p)"
        define L4 where "L4 = L3\<lparr>plugin_calls := plugin_calls L3 @ [(P_init p, r4)]\<rparr>"
        define r5 where "r5 = env (plugin_calls L4) (P_register p (m_dispatcher L4))"
        define L6 where "L6 = L4\<lparr>plugin_calls := plugin_calls L4 @ [(P_register p (m_dispatcher L4), r5)], m_dispatcher := pl_disp r5\<rparr>"
        define L7 where "L7 = (if has_uninit iface then snd (plugin_sys env L6 (P_uninit p)) else L6)"
        have sys: "plugin_sys env L3 (P_init p) = (r4, L4)"
            "plugin_sys env L4 (P_register p (m_dispatcher L4)) = (r5, L4\<lparr>plugin_calls := plugin_calls L4 @ [(P_register p (m_dispatcher L4), r5)]\<rparr>)"
          by (simp_all add: plugin_sys_unfold L4_def r4_def r5_def)
        have res: "snd (load_plugin env L path) = (if pl_val r4 \<noteq> 0 then snd (plugin_sys env L4 (Dlclose so))
            else if pl_val r5 \<noteq> 0 then snd (plugin_sys env L7 (Dlclose so)) else L6\<lparr>m_plugins := (m_plugins L6)(path \<mapsto> p)\<rparr>)"
          unfolding unf if_P [OF True] sys Let_def prod.case by (simp add: L6_def L7_def)
        have "loader_ok env (snd (plugin_sys env L4 (Dlclose so)))" unfolding plugin_sys_unfold
          by (rule failed [of _ "[(P_init p, r4), (Dlclose so, env (plugin_calls L4) (Dlclose so))]"]) (simp_all add: calls3 L4_def)
        moreover have "loader_ok env (snd (plugin_sys env L7 (Dlclose so)))" unfolding plugin_sys_unfold
          by (rule failed [of _ "[(P_init p, r4), (P_register p (m_dispatcher L4), r5)]
                @ (if has_uninit iface then [(P_uninit p, env (plugin_calls L6) (P_uninit p))] else [])
                @ [(Dlclose so, env (plugin_calls L7) (Dlclose so))]"])
            (simp_all add: L7_def L6_def L4_def calls3 plugin_sys_unfold)
        moreover have "loader_ok env (L6\<lparr>m_plugins := (m_plugins L6)(path \<mapsto> p)\<rparr>)"
          by (rule loaded [of _ "[(P_init p, r4), (P_register p (m_dispatcher L4), r5)]"]) (simp_all add: L6_def L4_def calls3)
        ultimately show ?thesis unfolding res by simp
      qed
    qed
  qed
qed

lemma unload_plugin_kept:
  assumes "loader_ok env L"
  shows "loader_ok env (snd (unload_plugin env L path))"
    and "path \<noteq> [] \<Longrightarrow> m_plugins (snd (unload_plugin env L path)) = (m_plugins L)(path := None)"
proof -
  have "loader_ok env (snd (unload_plugin env L path))
    \<and> (path \<noteq> [] \<longrightarrow> m_plugins (snd (unload_plugin env L path)) = (m_plugins L)(path := None))"
  proof (cases "m_plugins L path")
    case None
    then have "(m_plugins L)(path := None) = m_plugins L" by auto
    with None assms show ?thesis by (auto simp: unload_plugin_def)
  next
    case (Some p)
    then have "known_table env L p" "path \<noteq> []" using assms by (auto simp: loader_ok_def ran_def)
    then obtain so where so: "plugin_so (iface_mem L p) = Some so" by (auto simp: known_table_def)
    let ?hs = "drop (length (plugin_calls L)) (plugin_calls (snd (unload_plugin env L path)))"
    have "m_plugins (snd (unload_plugin env L path)) = (m_plugins L)(path := None)
      \<and> plugin_calls (snd (unload_plugin env L path)) = plugin_calls L @ ?hs
      \<and> iface_mem (snd (unload_plugin env L path)) = iface_mem L
      \<and> (\<forall>x. handles_out x ?hs = (if x = so then - 1 else 0))"
      using Some so \<open>path \<noteq> []\<close> by (auto simp: unload_plugin_def env_simps Let_def)
    then show ?thesis using loader_ok_delete [OF assms _ Some _ _ so] by blast
  qed
  then show "loader_ok env (snd (unload_plugin env L path))"
    and "path \<noteq> [] \<Longrightarrow> m_plugins (snd (unload_plugin env L path)) = (m_plugins L)(path := None)" by simp_all
qed

section \<open>Sequences of calls\<close>

datatype loader_op = L_load string | L_load_list "string list" | L_unload string | L_unload_list "string list" | L_clear

fun loader_step :: "plugin_env \<Rightarrow> plugin_loader \<Rightarrow> loader_op \<Rightarrow> plugin_loader" where
  "loader_step env L (L_load path) = snd (load_plugin env L path)"
| "loader_step env L (L_load_list paths) = snd (load_list env L paths)"
| "loader_step env L (L_unload path) = snd (unload_plugin env L path)"
| "loader_step env L (L_unload_list paths) = snd (unload_list env L paths)"
| "loader_step env L L_clear = clear_plugins env L"

lemma load_list_loop_kept: "own_tables env \<Longrightarrow> loader_ok env L \<Longrightarrow> loader_ok env (snd (load_list_loop env L ps n))"
  by (induction ps arbitrary: L n) (simp_all add: load_plugin_kept split_beta Let_def)

lemma unload_list_loop_kept: "loader_ok env L \<Longrightarrow> loader_ok env (snd (unload_list_loop env L ps n))"
  by (induction ps arbitrary: L n) (simp_all add: unload_plugin_kept split_beta Let_def)

lemma unload_each_kept: "loader_ok env L \<Longrightarrow> loader_ok env (foldl (\<lambda>L p. snd (unload_plugin env L p)) L ps)"
  by (induction ps arbitrary: L) (simp_all add: unload_plugin_kept)

lemma unload_each_plugins:
  "loader_ok env L \<Longrightarrow> [] \<notin> set ps \<Longrightarrow>
   dom (m_plugins (foldl (\<lambda>L p. snd (unload_plugin env L p)) L ps)) = dom (m_plugins L) - set ps"
proof (induction ps arbitrary: L)
  case (Cons p ps)
  have r: "loader_ok env (snd (unload_plugin env L p))" "m_plugins (snd (unload_plugin env L p)) = (m_plugins L)(p := None)"
    using unload_plugin_kept [OF Cons.prems(1)] Cons.prems(2) by auto
  have "dom (m_plugins (snd (unload_plugin env L p))) - set ps = dom (m_plugins L) - set (p # ps)"
    unfolding r(2) by (auto split: if_splits)
  with Cons.IH [OF r(1)] Cons.prems(2) show ?case by simp
qed simp

lemma clear_plugins_kept:
  assumes "loader_ok env L"
  shows "loader_ok env (clear_plugins env L)" and "m_plugins (clear_plugins env L) = Map.empty"
proof -
  show "loader_ok env (clear_plugins env L)" using unload_each_kept [OF assms] by (simp add: clear_plugins_def)
  have "dom (m_plugins (clear_plugins env L)) = {}"
    using unload_each_plugins [OF assms, of "sorted_list_of_set (dom (m_plugins L))"] assms
    by (simp add: clear_plugins_def loader_ok_def)
  then show "m_plugins (clear_plugins env L) = Map.empty" by simp
qed

lemma loader_level_zero: "loader_ok env L \<Longrightarrow> loader_level so L = 0"
  by (simp add: loader_level_def loader_ok_def)

lemma loader_step_kept: "own_tables env \<Longrightarrow> loader_ok env L \<Longrightarrow> loader_ok env (loader_step env L x)"
  by (cases x) (simp_all add: load_plugin_kept unload_plugin_kept load_list_def unload_list_def load_list_loop_kept
      unload_list_loop_kept clear_plugins_kept)

interpretation plugins: accounted "loader_step env" "\<lambda>_. True" "\<lambda>L. own_tables env \<and> loader_ok env L" "loader_level so"
  for env so
  by unfold_locales (auto simp: loader_step_kept loader_level_zero [of env])

section \<open>A successful load and its undoing\<close>

lemma load_plugin_success:
  assumes "load_plugin env L path = (0, L1)"
  obtains so p h where "path \<noteq> []" and "m_plugins L path = None"
    and "m_plugins L1 = (m_plugins L)(path \<mapsto> p)" and "plugin_so (iface_mem L1 p) = Some so"
    and "map fst (plugin_calls L1) = map fst (plugin_calls L) @ [Dlopen (c_str path), Dlsym so, P_init p, P_register p (m_dispatcher L)]"
    and "pl_val (env h (P_register p (m_dispatcher L))) = 0"
    and "m_dispatcher L1 = pl_disp (env h (P_register p (m_dispatcher L)))"
proof -
  from assms have ne: "path \<noteq> []" and none: "m_plugins L path = None"
    by (auto simp: load_plugin_def split: if_splits)
  from assms ne none obtain so where so: "pl_ptr (env (plugin_calls L) (Dlopen (c_str path))) = Some so"
    by (auto simp: load_plugin_def env_simps split: option.splits)
  define h1 where "h1 = plugin_calls L @ [(Dlopen (c_str path), env (plugin_calls L) (Dlopen (c_str path)))]"
  from assms ne none so obtain p where p: "pl_ptr (env h1 (Dlsym so)) = Some p"
    by (auto simp: load_plugin_def env_simps h1_def split: option.splits)
  define h2 where "h2 = h1 @ [(Dlsym so, env h1 (Dlsym so))]"
  define h3 where "h3 = h2 @ [(P_init p, env h2 (P_init p))]"
  have "m_plugins L1 = (m_plugins L)(path \<mapsto> p)" "plugin_so (iface_mem L1 p) = Some so"
    "map fst (plugin_calls L1) = map fst (plugin_calls L) @ [Dlopen (c_str path), Dlsym so, P_init p, P_register p (m_dispatcher L)]"
    "pl_val (env h3 (P_register p (m_dispatcher L))) = 0"
    "m_dispatcher L1 = pl_disp (env h3 (P_register p (m_dispatcher L)))"
    using assms ne none so p
    by (auto simp: load_plugin_def env_simps h1_def h2_def h3_def Let_def split: if_splits)
  with ne none that show ?thesis by blast
qed

lemma unload_plugin_live:
  assumes "unload_plugin env L1 path = (r, L2)" and "path \<noteq> []" and "m_plugins L1 path = Some p"
    and "plugin_so (iface_mem L1 p) = Some so"
  shows "m_plugins L2 = (m_plugins L1)(path := None)"
    and "map fst (plugin_calls L2) = map fst (plugin_calls L1)
      @ (if has_unregister (iface_mem L1 p) then [P_unregister p (m_dispatcher L1)] else [])
      @ (if has_uninit (iface_mem L1 p) then [P_uninit p] else []) @ [Dlclose so]"
    and "m_dispatcher L2 = (if has_unregister (iface_mem L1 p)
           then pl_disp (env (plugin_calls L1) (P_unregister p (m_dispatcher L1))) else m_dispatcher L1)"
  using assms by (auto simp: unload_plugin_def env_simps Let_def)

section \<open>A sample plugin\<close>

text \<open>It registers handler 7 for protocol 5; whether the registration reports success is given.\<close>

definition sample_linker :: "int \<Rightarrow> plugin_env" where
  "sample_linker reg h c =
     (let ans = (\<lambda>v p d. \<lparr>pl_val = v, pl_ptr = p, pl_iface = \<lparr>plugin_so = None, has_init = True, has_uninit = True,
            has_register = True, has_unregister = True\<rparr>, pl_disp = d\<rparr>)
      in case c of
           Dlopen s \<Rightarrow> ans 0 (Some (length h)) (Map.empty, [])
         | Dlsym so \<Rightarrow> ans 0 (Some (so + 1)) (Map.empty, [])
         | P_register p d \<Rightarrow> ans reg None (snd (register_proto ok_env (fst d) (snd d) 5 (Some 7)))
         | P_unregister p d \<Rightarrow> ans 0 None (snd (unregister_proto ok_env (fst d) (snd d) 5))
         | _ \<Rightarrow> ans 0 None (Map.empty, []))"

definition sample_loader :: plugin_loader where
  "sample_loader = plugin_loader_make (Map.empty, [])
     (\<lambda>_. \<lparr>plugin_so = None, has_init = False, has_uninit = False, has_register = False, has_unregister = False\<rparr>)"

lemma loader_make_ok: "loader_ok env (plugin_loader_make d mem)"
  by (simp add: loader_ok_def paths_of_def plugin_loader_make_def)

lemma sample_linker_own: "own_tables (sample_linker reg)"
  by (simp add: own_tables_def found_in_def sample_linker_def Let_def)

section \<open>Properties\<close>



text \<open>
  Loading a plugin and unloading it again runs \<open>dlopen\<close>, \<open>dlsym\<close>, \<open>init\<close> and
  \<open>register_proto\<close>, then \<open>unregister_proto\<close> and \<open>uninit\<close> where the plugin has them, and
  \<open>dlclose\<close> last, on the handle that was opened, and leaves the table as it was; the plugin's
  functions see the dispatcher as its last function left it.
\<close>

lemma load_unload_roundtrip:
  assumes "load_plugin env L path = (0, L1)" and "unload_plugin env L1 path = (r, L2)"
  shows "m_plugins L2 = m_plugins L \<and>
    (\<exists>so p iface. m_plugins L1 = (m_plugins L)(path \<mapsto> p) \<and> iface_mem L1 p = iface \<and>
       map fst (plugin_calls L2) = map fst (plugin_calls L)
         @ [Dlopen (c_str path), Dlsym so, P_init p, P_register p (m_dispatcher L)]
         @ (if has_unregister iface then [P_unregister p (m_dispatcher L1)] else [])
         @ (if has_uninit iface then [P_uninit p] else []) @ [Dlclose so])"
proof -
  obtain so p where L1: "path \<noteq> []" "m_plugins L path = None"
      "m_plugins L1 = (m_plugins L)(path \<mapsto> p)" "plugin_so (iface_mem L1 p) = Some so"
      "map fst (plugin_calls L1) = map fst (plugin_calls L) @ [Dlopen (c_str path), Dlsym so, P_init p, P_register p (m_dispatcher L)]"
    by (rule load_plugin_success [OF assms(1)])
  from unload_plugin_live [OF assms(2) L1(1) _ L1(4)] L1(2,3,5) show ?thesis
    by (intro conjI exI [of _ so] exI [of _ p] exI [of _ "iface_mem L1 p"]) (simp_all add: fun_upd_idem_iff)
qed

lemma sample_load: "fst (load_plugin (sample_linker 0) sample_loader ''a.so'') = 0"
  by (simp add: load_plugin_def env_simps sample_loader_def plugin_loader_make_def sample_linker_def Let_def)

lemma load_unload_roundtrip_witness:
  "m_plugins (snd (unload_plugin (sample_linker 0) (snd (load_plugin (sample_linker 0) sample_loader ''a.so'')) ''a.so'')) = Map.empty"
proof -
  have "load_plugin (sample_linker 0) sample_loader ''a.so'' = (0, snd (load_plugin (sample_linker 0) sample_loader ''a.so''))"
    using sample_load by (metis prod.collapse)
  from load_unload_roundtrip [OF this prod.collapse [symmetric]] show ?thesis
    by (simp add: sample_loader_def plugin_loader_make_def)
qed

text \<open>
  When a plugin's \<open>register_proto\<close> fails after having registered some handlers, the load
  fails and closes the shared object without asking the plugin to unregister them: the dispatcher
  keeps the handlers and still calls them, although their code has been unloaded.
\<close>

lemma failed_load_leaves_handlers:
  assumes "path \<noteq> []" and "m_plugins L path = None"
    and "env (plugin_calls L) (Dlopen (c_str path)) = r1" and "pl_ptr r1 = Some so"
    and "env (plugin_calls L @ [(Dlopen (c_str path), r1)]) (Dlsym so) = r2" and "pl_ptr r2 = Some p"
    and "has_init (pl_iface r2)" and "has_register (pl_iface r2)"
    and "env (plugin_calls L @ [(Dlopen (c_str path), r1), (Dlsym so, r2)]) (P_init p) = r3" and "pl_val r3 = 0"
    and "env (plugin_calls L @ [(Dlopen (c_str path), r1), (Dlsym so, r2), (P_init p, r3)]) (P_register p (m_dispatcher L)) = r4"
    and "pl_val r4 \<noteq> 0" and "pl_disp r4 = (m, h)" and "handler_of m pid = Some handler"
  shows "\<exists>L'. load_plugin env L path = (- 1, L') \<and> m_plugins L' = m_plugins L \<and> m_dispatcher L' = (m, h)
    \<and> fst (last (plugin_calls L')) = Dlclose so
    \<and> P_unregister p (m, h) \<notin> fst ` (set (plugin_calls L') - set (plugin_calls L))
    \<and> fst (dispatch enum henv m h pid fd buf len) = 0
    \<and> (\<exists>rest. snd (dispatch enum henv m h pid fd buf len)
           = h @ (H_process handler fd buf len, henv h (H_process handler fd buf len)) # rest)"
proof -
  define L' where "L' = snd (load_plugin env L path)"
  have "load_plugin env L path = (- 1, L') \<and> m_plugins L' = m_plugins L \<and> m_dispatcher L' = (m, h)
      \<and> fst (last (plugin_calls L')) = Dlclose so
      \<and> P_unregister p (m, h) \<notin> fst ` (set (plugin_calls L') - set (plugin_calls L))"
    using assms(1-13) unfolding L'_def by (auto simp: load_plugin_def env_simps Let_def)
  then show ?thesis using dispatch_reaches [OF assms(14), of enum henv h fd buf len] by blast
qed

lemma failed_load_leaves_handlers_witness:
  "\<exists>L'. load_plugin (sample_linker 1) sample_loader ''a.so'' = (- 1, L')
     \<and> fst (dispatch sorted_order ok_env [5 \<mapsto> Some 7] [(H_init 7, 0)] 5 3 None 0) = 0"
proof -
  note d = sample_loader_def plugin_loader_make_def sample_linker_def Let_def register_proto_def ok_env_def invoke_def handler_of_def
  show ?thesis
    using failed_load_leaves_handlers [where path = "''a.so''" and L = sample_loader and env = "sample_linker 1" and so = 0 and p = 1
        and m = "[5 \<mapsto> Some 7]" and h = "[(H_init 7, 0)]" and pid = 5 and handler = 7 and enum = sorted_order and henv = ok_env
        and fd = 3 and buf = None and len = 0, OF _ _ refl _ refl _ _ _ refl _ refl]
    by (simp add: d) blast
qed

end
