(* ===== verification/Conf.thy ===== *)
theory Conf
  imports Prelude
begin

text \<open>
  The configuration parser of \<open>conf.h\<close> and \<open>conf.cpp\<close>, on the characters of the files: lines,
  tokens as \<open>strtok\<close> cuts them, the \<open>include\<close> directive. The file system is a parameter; so is
  the number of descriptors the process has left, because every file stays open while the files
  it includes are read, and \<open>open\<close> fails when there are none: that bounds the recursion.
\<close>

section \<open>State and operations\<close>

text \<open>
  A file as \<open>parse\<close> meets it: it cannot be opened, not be read (or stored), or has a content, what \<open>read\<close>
  stored for the length asked for. That length is an \<open>int\<close> (\<open>int len = lseek(...)\<close>): it is the length of
  the file below \<open>2 ^ 31\<close> bytes, which is what \<open>Content\<close> stands for. From there on it is
  narrowed: it is negative, for which \<open>malloc\<close> is asked for nearly all memory and fails (\<open>No_read\<close>), or, from \<open>2 ^ 32\<close> bytes
  on, that of a first part of the file (which is then the content). A file of \<open>2 ^ 32 - 1\<close> bytes,
  whose length becomes -1 and overruns the buffer, is outside the model.
\<close>

datatype conf_file = No_open | No_read | Content string

type_synonym file_system = "string \<Rightarrow> conf_file"
type_synonym config_hash = "string \<rightharpoonup> string"

record config =
  m_config_hash :: config_hash
  m_file_name :: "string option"

definition config_make :: config where
  "config_make = \<lparr>m_config_hash = Map.empty, m_file_name = None\<rparr>"

definition is_delim :: "char \<Rightarrow> bool" where
  "is_delim c \<longleftrightarrow> c = CHR ''='' \<or> c = CHR '' '' \<or> c = CHR 0x09"

text \<open>\<open>strtok\<close> on the rest of a string: the token and what it leaves for the next call.\<close>

definition strtok :: "string \<Rightarrow> (string \<times> string) option" where
  "strtok s =
     (let t = dropWhile is_delim s
      in if t = [] then None
         else Some (takeWhile (\<lambda>c. \<not> is_delim c) t, drop 1 (dropWhile (\<lambda>c. \<not> is_delim c) t)))"

definition key_value :: "string \<Rightarrow> (string \<times> string) option" where
  "key_value line =
     (case strtok line of None \<Rightarrow> None
      | Some (key, rest) \<Rightarrow> (case strtok rest of None \<Rightarrow> None | Some (val, _) \<Rightarrow> Some (key, val)))"

text \<open>One line; \<open>inc\<close> parses an included file.\<close>

definition parse_line ::
  "(config_hash \<Rightarrow> string \<Rightarrow> bool \<times> config_hash) \<Rightarrow> bool \<Rightarrow> config_hash \<Rightarrow> string \<Rightarrow> bool \<times> config_hash" where
  "parse_line inc overwrite m line =
     (if line \<noteq> [] \<and> hd line = CHR ''#'' then (True, m)
      else case key_value line of
          None \<Rightarrow> (True, m)
        | Some (key, val) \<Rightarrow>
            if key \<noteq> ''include''
            then (True, if m key = None then m(key \<mapsto> val) else if overwrite then m(key \<mapsto> val) else m)
            else inc m val)"

text \<open>
  The loop over the lines. \<open>rest\<close> is the data from \<open>start\<close> to its end; \<open>strchr\<close> finds no newline
  behind a NUL.
\<close>

function parse_loop ::
  "(config_hash \<Rightarrow> string \<Rightarrow> bool \<times> config_hash) \<Rightarrow> bool \<Rightarrow> config_hash \<Rightarrow> string \<Rightarrow> bool \<times> config_hash" where
  "parse_loop inc overwrite m rest =
     (if rest = [] then (True, m)
      else let line = takeWhile (\<lambda>c. c \<noteq> CHR 0x0A \<and> c \<noteq> CHR 0x00) rest;
               after = drop (length line) rest;
               (ok, m1) = parse_line inc overwrite m line
           in if \<not> ok then (False, m1)
              else if after \<noteq> [] \<and> hd after = CHR 0x0A then parse_loop inc overwrite m1 (tl after)
              else (True, m1))"
  by pat_completeness auto

termination
  by (relation "measure (\<lambda>(_, _, _, rest). length rest)") auto

declare parse_loop.simps [simp del]

primrec parse_file :: "nat \<Rightarrow> file_system \<Rightarrow> bool \<Rightarrow> config_hash \<Rightarrow> string \<Rightarrow> bool \<times> config_hash" where
  "parse_file 0 fs overwrite m name = (False, m)"
| "parse_file (Suc fds) fs overwrite m name =
     (case fs name of
        No_open \<Rightarrow> (False, m)
      | No_read \<Rightarrow> (False, m)
      | Content data \<Rightarrow> parse_loop (parse_file fds fs overwrite) overwrite m data)"

text \<open>\<open>parse\<close> itself, with its test for a null name.\<close>

definition parse_conf :: "nat \<Rightarrow> file_system \<Rightarrow> bool \<Rightarrow> config_hash \<Rightarrow> string option \<Rightarrow> bool \<times> config_hash" where
  "parse_conf fds fs overwrite m name =
     (case name of None \<Rightarrow> (False, m) | Some f \<Rightarrow> parse_file fds fs overwrite m (c_str f))"

definition load_conf :: "nat \<Rightarrow> file_system \<Rightarrow> config \<Rightarrow> string option \<Rightarrow> bool \<Rightarrow> bool \<times> config" where
  "load_conf fds fs cfg name overwrite =
     (let cfg1 = cfg\<lparr>m_file_name := name, m_config_hash := Map.empty\<rparr>;
          (ok, m) = parse_conf fds fs overwrite (m_config_hash cfg1) name
      in (ok, cfg1\<lparr>m_config_hash := m\<rparr>))"

definition reload_conf :: "nat \<Rightarrow> file_system \<Rightarrow> config \<Rightarrow> string option \<Rightarrow> bool \<times> config" where
  "reload_conf fds fs cfg name =
     (let cfg1 = cfg\<lparr>m_file_name := name\<rparr>;
          (ok, m) = parse_conf fds fs True (m_config_hash cfg1) name
      in (ok, cfg1\<lparr>m_config_hash := m\<rparr>))"

definition conf_get_int :: "config \<Rightarrow> string \<Rightarrow> int \<Rightarrow> int" where
  "conf_get_int cfg key d = (case m_config_hash cfg key of Some v \<Rightarrow> atoi v | None \<Rightarrow> d)"

text \<open>Floating point conversion is a parameter.\<close>

definition conf_get_float :: "(string \<Rightarrow> 'f) \<Rightarrow> config \<Rightarrow> string \<Rightarrow> 'f \<Rightarrow> 'f" where
  "conf_get_float atof cfg key d = (case m_config_hash cfg key of Some v \<Rightarrow> atof (c_str v) | None \<Rightarrow> d)"

definition conf_get_str :: "config \<Rightarrow> string \<Rightarrow> string option \<Rightarrow> string option" where
  "conf_get_str cfg key d = (case m_config_hash cfg key of Some v \<Rightarrow> Some (c_str v) | None \<Rightarrow> d)"

section \<open>What a configuration means\<close>

text \<open>
  The abstract syntax of a file and its meaning, independent of lines and tokens: entries, blank
  lines, comments and included files.
\<close>

datatype conf_item =
    Entry string string string string
  | Comment string
  | Blank string
  | Include string string string

fun item_ok :: "conf_item \<Rightarrow> bool" where
  "item_ok (Entry pre key sep val) \<longleftrightarrow>
     list_all is_delim pre \<and> key \<noteq> [] \<and> list_all (\<lambda>c. \<not> is_delim c \<and> c \<noteq> CHR 0x0A \<and> c \<noteq> CHR 0x00) key
     \<and> (pre = [] \<longrightarrow> hd key \<noteq> CHR ''#'') \<and> key \<noteq> ''include'' \<and> sep \<noteq> [] \<and> list_all is_delim sep
     \<and> val \<noteq> [] \<and> list_all (\<lambda>c. \<not> is_delim c \<and> c \<noteq> CHR 0x0A \<and> c \<noteq> CHR 0x00) val"
| "item_ok (Comment s) \<longleftrightarrow> list_all (\<lambda>c. c \<noteq> CHR 0x0A \<and> c \<noteq> CHR 0x00) s"
| "item_ok (Blank s) \<longleftrightarrow> list_all is_delim s"
| "item_ok (Include pre sep file) \<longleftrightarrow>
     list_all is_delim pre \<and> sep \<noteq> [] \<and> list_all is_delim sep
     \<and> file \<noteq> [] \<and> list_all (\<lambda>c. \<not> is_delim c \<and> c \<noteq> CHR 0x0A \<and> c \<noteq> CHR 0x00) file"

fun render_item :: "conf_item \<Rightarrow> string" where
  "render_item (Entry pre key sep val) = pre @ key @ sep @ val"
| "render_item (Comment s) = CHR ''#'' # s"
| "render_item (Blank s) = s"
| "render_item (Include pre sep file) = pre @ ''include'' @ sep @ file"

definition render_conf :: "conf_item list \<Rightarrow> string" where
  "render_conf items = concat (map (\<lambda>i. render_item i @ [CHR 0x0A]) items)"

definition set_entry :: "bool \<Rightarrow> config_hash \<Rightarrow> string \<Rightarrow> string \<Rightarrow> config_hash" where
  "set_entry overwrite m key val = (if m key \<noteq> None \<and> \<not> overwrite then m else m(key \<mapsto> val))"

fun run_items ::
  "(config_hash \<Rightarrow> string \<Rightarrow> bool \<times> config_hash) \<Rightarrow> bool \<Rightarrow> config_hash \<Rightarrow> conf_item list \<Rightarrow> bool \<times> config_hash" where
  "run_items inc overwrite m [] = (True, m)"
| "run_items inc overwrite m (Entry _ key _ val # items) = run_items inc overwrite (set_entry overwrite m key val) items"
| "run_items inc overwrite m (Comment _ # items) = run_items inc overwrite m items"
| "run_items inc overwrite m (Blank _ # items) = run_items inc overwrite m items"
| "run_items inc overwrite m (Include _ _ file # items) =
     (case inc m file of (ok, m1) \<Rightarrow> if ok then run_items inc overwrite m1 items else (False, m1))"

text \<open>Inclusion nested to a depth of at most \<open>d\<close> files.\<close>

primrec meaning :: "nat \<Rightarrow> (string \<rightharpoonup> conf_item list) \<Rightarrow> bool \<Rightarrow> config_hash \<Rightarrow> string \<Rightarrow> bool \<times> config_hash" where
  "meaning 0 files overwrite m name = (False, m)"
| "meaning (Suc d) files overwrite m name =
     (case files name of None \<Rightarrow> (False, m) | Some items \<Rightarrow> run_items (meaning d files overwrite) overwrite m items)"

definition fs_of :: "(string \<rightharpoonup> conf_item list) \<Rightarrow> file_system" where
  "fs_of files name = (case files name of None \<Rightarrow> No_open | Some items \<Rightarrow> Content (render_conf items))"

section \<open>Tokens\<close>

lemma takeWhile_word:
  assumes "list_all (\<lambda>c. \<not> P c) w" and "s = [] \<or> P (hd s)"
  shows "takeWhile (\<lambda>c. \<not> P c) (w @ s) = w" "dropWhile (\<lambda>c. \<not> P c) (w @ s) = s"
  using assms by (auto simp: list_all_iff takeWhile_append dropWhile_append takeWhile_eq_Nil_iff dropWhile_eq_self_iff)

lemma dropWhile_run: "list_all P w \<Longrightarrow> s = [] \<or> \<not> P (hd s) \<Longrightarrow> dropWhile P (w @ s) = s"
  by (auto simp: list_all_iff dropWhile_append dropWhile_eq_self_iff)

lemma strtok_word:
  assumes "list_all is_delim pre" and "w \<noteq> []" and "list_all (\<lambda>c. \<not> is_delim c) w" and "s = [] \<or> is_delim (hd s)"
  shows "strtok (pre @ w @ s) = Some (w, drop 1 s)"
proof -
  have "\<not> is_delim (hd w)" using assms(2,3) by (cases w) simp_all
  then have d: "dropWhile is_delim (pre @ w @ s) = w @ s"
    using assms(1,2) by (intro dropWhile_run) simp_all
  show ?thesis
    using assms(2) takeWhile_word [OF assms(3,4)] by (simp add: strtok_def d)
qed

lemma strtok_blank: "list_all is_delim s \<Longrightarrow> strtok s = None"
  by (simp add: strtok_def list_all_iff)

lemma key_value_words:
  assumes "list_all is_delim pre" and "key \<noteq> []" and "list_all (\<lambda>c. \<not> is_delim c) key"
    and "sep \<noteq> []" and "list_all is_delim sep" and "val \<noteq> []" and "list_all (\<lambda>c. \<not> is_delim c) val"
  shows "key_value (pre @ key @ sep @ val) = Some (key, val)"
proof -
  have "is_delim (hd (sep @ val))" using assms(4,5) by (cases sep) simp_all
  then have "strtok (pre @ key @ sep @ val) = Some (key, drop 1 (sep @ val))"
    by (intro strtok_word [OF assms(1-3)] disjI2)
  moreover have "list_all is_delim (drop 1 sep)" using assms(5) by (cases sep) simp_all
  then have "strtok (drop 1 sep @ val @ []) = Some (val, drop 1 [])"
    by (intro strtok_word assms(6,7) disjI1 refl)
  moreover have "drop 1 (sep @ val) = drop 1 sep @ val" using assms(4) by (cases sep) simp_all
  ultimately show ?thesis by (simp add: key_value_def)
qed

section \<open>Lines\<close>

lemma list_all_and: "list_all (\<lambda>c. P c \<and> Q c) s \<longleftrightarrow> list_all P s \<and> list_all Q s"
  by (auto simp: list_all_iff)

lemma delim_line: "is_delim c \<Longrightarrow> c \<noteq> CHR 0x0A \<and> c \<noteq> CHR 0x00"
  by (auto simp: is_delim_def)

lemma delims_line: "list_all is_delim s \<Longrightarrow> list_all (\<lambda>c. c \<noteq> CHR 0x0A) s \<and> list_all (\<lambda>c. c \<noteq> CHR 0x00) s"
  using delim_line by (induction s) simp_all

lemma render_item_line:
  assumes "item_ok i"
  shows "list_all (\<lambda>c. c \<noteq> CHR 0x0A \<and> c \<noteq> CHR 0x00) (render_item i)"
  using assms by (cases i) (simp_all add: list_all_and delims_line)

lemma hd_delim: "list_all is_delim pre \<Longrightarrow> pre \<noteq> [] \<Longrightarrow> hd (pre @ s) \<noteq> CHR ''#''"
  by (cases pre) (auto simp: is_delim_def)

text \<open>The parser's line and the item it renders.\<close>

lemma parse_line_item:
  assumes "item_ok i"
  shows "parse_line inc overwrite m (render_item i) = run_items inc overwrite m [i]"
proof (cases i)
  case (Entry pre key sep val)
  then have "key_value (render_item i) = Some (key, val)" and "key \<noteq> ''include''"
    using assms by (auto simp: list_all_and intro!: key_value_words)
  moreover have "hd (render_item i) \<noteq> CHR ''#''"
    using assms Entry hd_delim [of pre "key @ sep @ val"] by (cases "pre = []") auto
  ultimately show ?thesis using Entry by (simp add: parse_line_def set_entry_def)
next
  case (Comment s)
  then show ?thesis by (simp add: parse_line_def)
next
  case (Blank s)
  then have "strtok s = None" using assms by (intro strtok_blank) simp
  moreover have "s \<noteq> [] \<Longrightarrow> hd s \<noteq> CHR ''#''" using assms Blank hd_delim [of s "[]"] by simp
  ultimately show ?thesis using Blank by (auto simp: parse_line_def key_value_def)
next
  case (Include pre sep f)
  have w: "list_all (\<lambda>c. \<not> is_delim c) ''include''" by (simp add: is_delim_def)
  have "key_value (render_item i) = Some (''include'', f)"
    unfolding Include render_item.simps
    by (rule key_value_words [OF _ _ w]) (use assms Include in \<open>simp_all add: list_all_and\<close>)
  moreover have "hd (render_item i) \<noteq> CHR ''#''"
    using assms Include hd_delim [of pre "''include'' @ sep @ f"] by (cases "pre = []") auto
  ultimately show ?thesis using Include by (simp add: parse_line_def split: prod.split)
qed

lemma parse_loop_line:
  assumes "list_all (\<lambda>c. c \<noteq> CHR 0x0A \<and> c \<noteq> CHR 0x00) line"
  shows "parse_loop inc overwrite m (line @ CHR 0x0A # rest) =
    (case parse_line inc overwrite m line of (ok, m1) \<Rightarrow> if ok then parse_loop inc overwrite m1 rest else (False, m1))"
proof -
  have "takeWhile (\<lambda>c. c \<noteq> CHR 0x0A \<and> c \<noteq> CHR 0x00) (line @ CHR 0x0A # rest) = line"
    using assms by (induction line) simp_all
  then show ?thesis
    by (subst parse_loop.simps) (simp add: Let_def split: prod.split)
qed

lemma parse_loop_Nil [simp]: "parse_loop inc overwrite m [] = (True, m)"
  by (simp add: parse_loop.simps)

lemma run_items_Cons:
  "run_items inc overwrite m (i # items) =
    (case run_items inc overwrite m [i] of (ok, m1) \<Rightarrow> if ok then run_items inc overwrite m1 items else (False, m1))"
  by (cases i) (simp_all split: prod.split)

lemma parse_loop_render:
  "list_all item_ok items \<Longrightarrow> parse_loop inc overwrite m (render_conf items) = run_items inc overwrite m items"
proof (induction items arbitrary: m)
  case Nil
  then show ?case by (simp add: render_conf_def)
next
  case (Cons i items)
  have "render_conf (i # items) = render_item i @ CHR 0x0A # render_conf items" by (simp add: render_conf_def)
  with Cons show ?case
    by (simp add: parse_loop_line render_item_line parse_line_item run_items_Cons [of _ _ _ i items] split: prod.split)
qed

section \<open>Refinement\<close>

definition files_ok :: "(string \<rightharpoonup> conf_item list) \<Rightarrow> bool" where
  "files_ok files \<longleftrightarrow> (\<forall>items \<in> ran files. list_all item_ok items)"

lemma parse_file_meaning:
  assumes "files_ok files"
  shows "parse_file n (fs_of files) overwrite = meaning n files overwrite"
proof (induction n)
  case 0
  show ?case by (simp add: fun_eq_iff)
next
  case (Suc n)
  show ?case
  proof (intro ext)
    fix m name
    show "parse_file (Suc n) (fs_of files) overwrite m name = meaning (Suc n) files overwrite m name"
    proof (cases "files name")
      case (Some items)
      then have "list_all item_ok items" using assms by (auto simp: files_ok_def ran_def)
      moreover have "fs_of files name = Content (render_conf items)" using Some by (simp add: fs_of_def)
      ultimately show ?thesis using Some Suc by (simp add: parse_loop_render)
    qed (simp add: fs_of_def)
  qed
qed

text \<open>The entries of a file without inclusions.\<close>

fun entries_of :: "conf_item list \<Rightarrow> (string \<times> string) list" where
  "entries_of [] = []"
| "entries_of (Entry _ key _ val # items) = (key, val) # entries_of items"
| "entries_of (_ # items) = entries_of items"

fun is_include :: "conf_item \<Rightarrow> bool" where
  "is_include (Include _ _ _) = True"
| "is_include _ = False"

lemma run_items_append:
  "run_items inc overwrite m (xs @ ys) =
    (case run_items inc overwrite m xs of (ok, m1) \<Rightarrow> if ok then run_items inc overwrite m1 ys else (False, m1))"
proof (induction xs arbitrary: m)
  case (Cons i xs)
  show ?case by (cases i) (simp_all add: Cons split: prod.split)
qed simp

lemma run_items_keep_first:
  "list_all (\<lambda>i. \<not> is_include i) items \<Longrightarrow> run_items inc False m items = (True, map_of (entries_of items) ++ m)"
proof (induction items arbitrary: m)
  case (Cons i items)
  show ?case
  proof (cases i)
    case (Entry pre key sep val)
    have "map_of (entries_of items) ++ set_entry False m key val = (map_of ((key, val) # entries_of items)) ++ m"
      by (cases "m key") (auto simp: set_entry_def map_add_def fun_eq_iff split: option.split)
    with Cons Entry show ?thesis by (simp add: fun_upd_def)
  qed (use Cons in simp_all)
qed simp

lemma run_items_overwrite:
  "list_all (\<lambda>i. \<not> is_include i) items \<Longrightarrow> run_items inc True m items = (True, m ++ map_of (rev (entries_of items)))"
proof (induction items arbitrary: m)
  case (Cons i items)
  show ?case
  proof (cases i)
    case (Entry pre key sep val)
    with Cons show ?thesis by (simp add: set_entry_def)
  qed (use Cons in simp_all)
qed simp

lemma parse_conf_plain:
  assumes "fs name = Content (render_conf items)" and "list_all item_ok items" and "list_all (\<lambda>i. \<not> is_include i) items"
    and "CHR 0x00 \<notin> set name" and "0 < fds"
  shows "parse_conf fds fs overwrite m (Some name)
    = (True, if overwrite then m ++ map_of (rev (entries_of items)) else map_of (entries_of items) ++ m)"
proof -
  have "c_str name = name" using assms(4) by (auto simp: c_str_def takeWhile_eq_all_conv)
  moreover obtain n where "fds = Suc n" using assms(5) by (cases fds) auto
  ultimately show ?thesis
    using run_items_keep_first [OF assms(3)] run_items_overwrite [OF assms(3)] assms(1)
    by (simp add: parse_conf_def parse_loop_render [OF assms(2)])
qed

section \<open>Well-formed tables\<close>

text \<open>What \<open>strtok\<close> can cut out of a line, whatever the file holds.\<close>

definition word_ok :: "string \<Rightarrow> bool" where
  "word_ok w \<longleftrightarrow> w \<noteq> [] \<and> list_all (\<lambda>c. \<not> is_delim c \<and> c \<noteq> CHR 0x0A \<and> c \<noteq> CHR 0x00) w"

definition table_wf :: "config_hash \<Rightarrow> bool" where
  "table_wf m \<longleftrightarrow> (\<forall>k v. m k = Some v \<longrightarrow> word_ok k \<and> k \<noteq> ''include'' \<and> word_ok v)"

definition extends_wf :: "config_hash \<Rightarrow> bool \<times> config_hash \<Rightarrow> bool" where
  "extends_wf m r \<longleftrightarrow> (table_wf m \<longrightarrow> table_wf (snd r)) \<and> dom m \<subseteq> dom (snd r)"

lemma extends_wf_refl [simp]: "extends_wf m (ok, m)"
  by (simp add: extends_wf_def)

lemma extends_wf_trans: "extends_wf m (ok, m1) \<Longrightarrow> extends_wf m1 r \<Longrightarrow> extends_wf m r"
  by (auto simp: extends_wf_def)

lemma strtok_word_ok:
  assumes "strtok s = Some (w, rest)" and "list_all (\<lambda>c. c \<noteq> CHR 0x0A \<and> c \<noteq> CHR 0x00) s"
  shows "word_ok w \<and> list_all (\<lambda>c. c \<noteq> CHR 0x0A \<and> c \<noteq> CHR 0x00) rest"
proof -
  define t where "t = dropWhile is_delim s"
  have t: "t \<noteq> []" "w = takeWhile (\<lambda>c. \<not> is_delim c) t" "rest = drop 1 (dropWhile (\<lambda>c. \<not> is_delim c) t)"
    using assms(1) by (auto simp: strtok_def t_def Let_def split: if_splits)
  have sub: "set t \<subseteq> set s" unfolding t_def by (auto dest: set_dropWhileD)
  have "\<not> is_delim (hd t)" using t(1) hd_dropWhile [of is_delim s] by (simp add: t_def)
  then have "w \<noteq> []" using t(1,2) by (cases t) simp_all
  moreover have "set w \<subseteq> set s" using sub t(2) by (auto dest: set_takeWhileD)
  moreover have "\<forall>c \<in> set w. \<not> is_delim c" using t(2) by (auto dest: set_takeWhileD)
  moreover have "set rest \<subseteq> set s" using sub t(3) by (auto dest!: in_set_dropD set_dropWhileD)
  ultimately show ?thesis using assms(2) by (auto simp: word_ok_def list_all_iff)
qed

lemma key_value_word_ok:
  assumes "key_value line = Some (k, v)" and "list_all (\<lambda>c. c \<noteq> CHR 0x0A \<and> c \<noteq> CHR 0x00) line"
  shows "word_ok k" "word_ok v"
  using assms by (auto simp: key_value_def split: option.splits dest!: strtok_word_ok)

lemma parse_line_wf:
  assumes "\<And>m n. extends_wf m (inc m n)" and "list_all (\<lambda>c. c \<noteq> CHR 0x0A \<and> c \<noteq> CHR 0x00) line"
  shows "extends_wf m (parse_line inc overwrite m line)"
proof (cases "key_value line")
  case (Some kv)
  then obtain k v where kv: "key_value line = Some (k, v)" by (cases kv) auto
  note ok = key_value_word_ok [OF kv assms(2)]
  show ?thesis
  proof (cases "k = ''include''")
    case True
    then show ?thesis using kv assms(1) by (simp add: parse_line_def)
  next
    case False
    then have "extends_wf m (ok, m(k \<mapsto> v))" for ok
      using ok by (auto simp: extends_wf_def table_wf_def)
    then show ?thesis using kv False by (simp add: parse_line_def)
  qed
qed (simp add: parse_line_def)

lemma parse_loop_wf:
  assumes "\<And>m n. extends_wf m (inc m n)"
  shows "extends_wf m (parse_loop inc overwrite m rest)"
  using assms
proof (induction inc overwrite m rest rule: parse_loop.induct)
  case (1 inc overwrite m rest)
  show ?case
  proof (cases "rest = []")
    case False
    define line where "line = takeWhile (\<lambda>c. c \<noteq> CHR 0x0A \<and> c \<noteq> CHR 0x00) rest"
    define after where "after = drop (length line) rest"
    obtain ok m1 where line: "parse_line inc overwrite m line = (ok, m1)" by fastforce
    have "list_all (\<lambda>c. c \<noteq> CHR 0x0A \<and> c \<noteq> CHR 0x00) line"
      by (auto simp: line_def list_all_iff dest: set_takeWhileD)
    from parse_line_wf [where inc = inc and m = m and overwrite = overwrite, OF 1(2) this] have m1: "extends_wf m (x, m1)" for x
      unfolding line by (simp add: extends_wf_def)
    have unf: "parse_loop inc overwrite m rest =
        (if \<not> ok then (False, m1) else if after \<noteq> [] \<and> hd after = CHR 0x0A then parse_loop inc overwrite m1 (tl after) else (True, m1))"
      using False line by (subst parse_loop.simps) (simp add: line_def after_def Let_def)
    show ?thesis
    proof (cases "ok \<and> after \<noteq> [] \<and> hd after = CHR 0x0A")
      case True
      then have "extends_wf m1 (parse_loop inc overwrite m1 (tl after))"
        using 1(1) [OF False line_def after_def line [symmetric]] 1(2) by simp
      with True extends_wf_trans [OF m1] show ?thesis by (simp add: unf)
    next
      case other: False
      with m1 show ?thesis by (auto simp: unf)
    qed
  qed simp
qed

lemma parse_file_wf: "extends_wf m (parse_file fds fs overwrite m name)"
proof (induction fds arbitrary: m name)
  case (Suc fds)
  then show ?case by (auto split: conf_file.split intro: parse_loop_wf)
qed simp

lemma parse_conf_wf: "extends_wf m (parse_conf fds fs overwrite m name)"
  by (auto simp: parse_conf_def parse_file_wf split: option.split)


section \<open>Properties\<close>

text \<open>
  C7: For files written in the documented syntax, of any content and nesting, what \<open>load\<close> and \<open>reload\<close> compute
  from their characters is their meaning: the entries in order, with every included file in the place of its
  directive, first or last value kept as asked, and failure at the first file that cannot be opened
  or is nested deeper than there are descriptors.
\<close>

theorem conf_parse_refines:
  assumes "files_ok files" and "CHR 0x00 \<notin> set name"
  shows "load_conf fds (fs_of files) cfg (Some name) overwrite =
      (case meaning fds files overwrite Map.empty name of (ok, m) \<Rightarrow> (ok, cfg\<lparr>m_config_hash := m, m_file_name := Some name\<rparr>))
    \<and> reload_conf fds (fs_of files) cfg (Some name) =
      (case meaning fds files True (m_config_hash cfg) name of (ok, m) \<Rightarrow> (ok, cfg\<lparr>m_config_hash := m, m_file_name := Some name\<rparr>))"
proof -
  have "c_str name = name" using assms(2) by (auto simp: c_str_def takeWhile_eq_all_conv)
  then show ?thesis
    by (simp add: load_conf_def reload_conf_def parse_conf_def parse_file_meaning [OF assms(1)] split: prod.split)
qed

definition sample_files :: "string \<rightharpoonup> conf_item list" where
  "sample_files = [''a'' \<mapsto> [Comment '' main'', Entry [] ''port'' '' = '' ''80'', Include [] '' '' ''b'', Blank '' ''],
                   ''b'' \<mapsto> [Entry '' '' ''port'' ''='' ''81'', Entry [] ''host'' '' '' ''h'']]"

lemma sample_files_ok: "files_ok sample_files"
  by (auto simp: files_ok_def sample_files_def ran_def is_delim_def split: if_splits)

theorem conf_parse_refines_witness:
  "load_conf 3 (fs_of sample_files) config_make (Some ''a'') False
   = (True, \<lparr>m_config_hash = [''port'' \<mapsto> ''80'', ''host'' \<mapsto> ''h''], m_file_name = Some ''a''\<rparr>)"
proof -
  have "meaning 3 sample_files False Map.empty ''a'' = (True, [''port'' \<mapsto> ''80'', ''host'' \<mapsto> ''h''])"
    by (simp add: numeral_3_eq_3 sample_files_def set_entry_def)
  then show ?thesis
    using conf_parse_refines [OF sample_files_ok, of "''a''" 3 config_make False] by (simp add: config_make_def)
qed

text \<open>
  A file of entries, comments and blank lines is always loaded successfully, and \<open>get\<close> returns the first value
  of a key after \<open>load\<close>, the last one after \<open>load\<close> with overwriting; after \<open>reload\<close> it returns
  the last value in the file, and the former one for the keys the file does not mention.
\<close>

lemma conf_load_wins:
  assumes "fs name = Content (render_conf items)" and "list_all item_ok items" and "list_all (\<lambda>i. \<not> is_include i) items"
    and "CHR 0x00 \<notin> set name" and "0 < fds"
  shows "load_conf fds fs cfg (Some name) False = (True, \<lparr>m_config_hash = map_of (entries_of items), m_file_name = Some name\<rparr>)
    \<and> load_conf fds fs cfg (Some name) True = (True, \<lparr>m_config_hash = map_of (rev (entries_of items)), m_file_name = Some name\<rparr>)
    \<and> reload_conf fds fs cfg (Some name)
        = (True, \<lparr>m_config_hash = m_config_hash cfg ++ map_of (rev (entries_of items)), m_file_name = Some name\<rparr>)"
  by (simp add: load_conf_def reload_conf_def parse_conf_plain [where fs = fs and name = name and items = items] assms)

lemma conf_load_wins_witness:
  "conf_get_int (snd (load_conf 1 (fs_of sample_files) config_make (Some ''b'') False)) ''port'' 7 = 81"
proof -
  have "fs_of sample_files ''b'' = Content (render_conf [Entry '' '' ''port'' ''='' ''81'', Entry [] ''host'' '' '' ''h''])"
    by (simp add: fs_of_def sample_files_def)
  moreover have "list_all item_ok [Entry '' '' ''port'' ''='' ''81'', Entry [] ''host'' '' '' ''h'']"
    by (simp add: is_delim_def)
  ultimately have "snd (load_conf 1 (fs_of sample_files) config_make (Some ''b'') False)
      = \<lparr>m_config_hash = [''port'' \<mapsto> ''81'', ''host'' \<mapsto> ''h''], m_file_name = Some ''b''\<rparr>"
    using conf_load_wins [of "fs_of sample_files" "''b''" _ 1 config_make] by (simp add: fun_upd_twist)
  moreover have "atoi ''81'' = 81"
    using atoi_digits [of "''81''"] by (simp add: is_digit_def dec_value_def digit_val_def)
  ultimately show ?thesis by (simp add: conf_get_int_def)
qed

text \<open>
  A file that includes itself is never loaded, however many descriptors there are: the parser
  opens it again and again until \<open>open\<close> fails, and every level then reports failure.
\<close>

lemma self_include_fails:
  assumes "fs name = Content (render_conf (items @ Include pre sep name # rest))"
    and "list_all item_ok (items @ Include pre sep name # rest)" and "list_all (\<lambda>i. \<not> is_include i) items"
  shows "\<not> fst (parse_file fds fs overwrite m name)"
proof (induction fds arbitrary: m)
  case (Suc n)
  obtain m1 where m1: "run_items (parse_file n fs overwrite) overwrite m items = (True, m1)"
    using run_items_keep_first [OF assms(3)] run_items_overwrite [OF assms(3)] by (cases overwrite) auto
  obtain ok m2 where m2: "parse_file n fs overwrite m1 name = (ok, m2)" by fastforce
  with Suc [of m1] have "\<not> ok" by simp
  with m1 m2 assms(1) show ?case by (simp add: parse_loop_render [OF assms(2)] run_items_append)
qed simp

lemma self_include_fails_witness:
  "\<not> fst (parse_file 1024 (\<lambda>_. Content (render_conf [Entry [] ''k'' ''='' ''v'', Include [] '' '' ''a''])) False Map.empty ''a'')"
  using self_include_fails [of "\<lambda>_. Content (render_conf [Entry [] ''k'' ''='' ''v'', Include [] '' '' ''a''])" "''a''"
      "[Entry [] ''k'' ''='' ''v'']" "[]" "'' ''" "[]"] by (simp add: is_delim_def)

text \<open>
  C37: Whatever the files hold, and whether parsing succeeds or not, the table maps words to words: not empty, without
  delimiter, newline or NUL, and no key is the directive's name; \<open>reload\<close> keeps every key. So the pointer
  \<open>get\<close> returns for a string is the whole value.
\<close>

theorem conf_table_wellformed:
  assumes "table_wf (m_config_hash cfg)"
  shows "table_wf (m_config_hash (snd (load_conf fds fs cfg name overwrite)))
    \<and> table_wf (m_config_hash (snd (reload_conf fds fs cfg name)))
    \<and> dom (m_config_hash cfg) \<subseteq> dom (m_config_hash (snd (reload_conf fds fs cfg name)))
    \<and> conf_get_str cfg key d = (case m_config_hash cfg key of Some v \<Rightarrow> Some v | None \<Rightarrow> d)"
proof -
  have "table_wf Map.empty" by (simp add: table_wf_def)
  moreover have "c_str v = v" if "m_config_hash cfg key = Some v" for v
    using assms that by (auto simp: table_wf_def word_ok_def c_str_def takeWhile_eq_all_conv list_all_iff)
  ultimately show ?thesis
    using assms parse_conf_wf [of Map.empty fds fs overwrite name] parse_conf_wf [of "m_config_hash cfg" fds fs True name]
    by (auto simp: load_conf_def reload_conf_def extends_wf_def conf_get_str_def split: prod.splits option.splits)
qed

theorem conf_table_wellformed_witness:
  "table_wf (m_config_hash (snd (load_conf 2 (\<lambda>_. Content [CHR ''='', CHR 0x00, CHR ''k'', CHR 0x0A]) config_make (Some ''f'') True)))"
proof -
  have "table_wf (m_config_hash config_make)" by (simp add: table_wf_def config_make_def)
  from conf_table_wellformed [OF this] show ?thesis by simp
qed

end
