(* ===== verification/Logger.thy ===== *)
theory Logger
  imports Prelude
begin

text \<open>
  The logger of \<open>log_base.h\<close> and \<open>log_base.cpp\<close>: levels, the two log files and their descriptors,
  formatting into fixed buffers, rotation. System calls and the clock are answered by an
  environment. An access outside a buffer is the fault \<open>OutOfBounds\<close>. One thread logs;
  \<open>Logger_Threads\<close> has several, and the mutex around a rotation.
\<close>

section \<open>State\<close>

datatype log_call =
    Lg_open "string option"
  | Lg_dup2 int int
  | Lg_close int
  | Lg_access "string option"
  | Lg_rename string string
  | Lg_unlink string
  | Lg_fstat int
  | Lg_stat string
  | Lg_lseek int
  | Lg_writev int "string list"
  | Lg_date "string option"
  | Lg_now
  | Lg_gettimeofday

text \<open>An answer: a value, whether \<open>errno\<close> is \<open>ENOENT\<close>, a pair (device and inode, or seconds and
  microseconds), a formatted date.\<close>

record log_ret =
  lr_val :: int
  lr_enoent :: bool
  lr_ids :: "nat \<times> nat"
  lr_str :: string

type_synonym log_env = "(log_call, log_ret) env"
type_synonym log_history = "(log_call, log_ret) history"

record logger =
  lg_fd :: int
  lg_wf_fd :: int
  lg_name :: "string option"
  lg_check :: int
  max_file_index :: nat
  max_file_size :: int
  lg_flag :: bool
  lg_wf_flag :: bool
  file_list :: "string list"
  wf_file_list :: "string list"
  lg_level :: int
  lg_wf_level :: int

definition logger_make :: logger where
  "logger_make = \<lparr>lg_fd = 2, lg_wf_fd = 2, lg_name = None, lg_check = 0, max_file_index = 0, max_file_size = 67108864,
     lg_flag = False, lg_wf_flag = False, file_list = [], wf_file_list = [], lg_level = 9, lg_wf_level = 2\<rparr>"

definition errstr :: "string list" where
  "errstr = [''ERROR'', ''USER_ERR'', ''WARN'', ''INFO'', ''TRACE'', ''DEBUG'']"

section \<open>Settings\<close>

definition to_lower :: "char \<Rightarrow> char" where
  "to_lower c = (if 65 \<le> (of_char c :: nat) \<and> (of_char c :: nat) \<le> 90 then char_of ((of_char c :: nat) + 32) else c)"

definition strcaseeq :: "string \<Rightarrow> string \<Rightarrow> bool" where
  "strcaseeq s t \<longleftrightarrow> map to_lower (c_str s) = map to_lower (c_str t)"

text \<open>The search loop over the names of the levels: the first that matches.\<close>

fun find_level :: "string \<Rightarrow> string list \<Rightarrow> int \<Rightarrow> int option" where
  "find_level s [] i = None"
| "find_level s (e # es) i = (if strcaseeq s e then Some i else find_level s es (i + 1))"

definition set_log_level :: "logger \<Rightarrow> string option \<Rightarrow> string option \<Rightarrow> logger" where
  "set_log_level lg level wf_level =
     (case level of None \<Rightarrow> lg
      | Some s \<Rightarrow>
          let lg1 = (case find_level s errstr 0 of Some i \<Rightarrow> lg\<lparr>lg_level := i\<rparr> | None \<Rightarrow> lg)
          in case wf_level of None \<Rightarrow> lg1
             | Some t \<Rightarrow> (case find_level t errstr 0 of Some j \<Rightarrow> lg1\<lparr>lg_wf_level := j\<rparr> | None \<Rightarrow> lg1))"

definition set_check :: "logger \<Rightarrow> int \<Rightarrow> logger" where
  "set_check lg v = lg\<lparr>lg_check := v\<rparr>"

definition set_max_file_size :: "logger \<Rightarrow> int \<Rightarrow> logger" where
  "set_max_file_size lg n = lg\<lparr>max_file_size := (if n < 0 \<or> n > 0x40000000 then 0x40000000 else n)\<rparr>"

definition set_max_file_index :: "logger \<Rightarrow> int \<Rightarrow> logger" where
  "set_max_file_index lg n =
     (let n1 = (if n < 0 then 0x0F else n); n2 = (if n1 > 0x400 then 0x400 else n1)
      in lg\<lparr>max_file_index := nat n2\<rparr>)"

section \<open>Files\<close>

definition log_sys :: "log_env \<Rightarrow> log_history \<Rightarrow> log_call \<Rightarrow> log_ret \<times> log_history" where
  "log_sys env h c = invoke env h c"

text \<open>A call whose answer is not looked at.\<close>

definition log_do :: "log_env \<Rightarrow> log_history \<Rightarrow> log_call \<Rightarrow> log_history" where
  "log_do env h c = snd (log_sys env h c)"

text \<open>\<open>snprintf\<close> into 256 bytes keeps 255 characters; \<open>sprintf\<close> writes past them.\<close>

definition clip :: "string \<Rightarrow> string" where
  "clip s = take 255 s"

definition wf_name :: "string \<Rightarrow> string" where
  "wf_name f = clip (f @ ''.wf'')"

definition set_file_name :: "log_env \<Rightarrow> log_history \<Rightarrow> logger \<Rightarrow> string \<Rightarrow> bool \<Rightarrow> bool \<Rightarrow> logger \<times> log_history" where
  "set_file_name env h lg filename flag open_wf =
     (let need_closing = (lg_name lg \<noteq> None);
          name = c_str filename;
          (r, h1) = log_sys env h (Lg_open (Some name));
          fd = lr_val r;
          (lg1, h2) =
            (if \<not> flag
             then let ha = log_do env h1 (Lg_dup2 fd (lg_fd lg));
                      hb = log_do env ha (Lg_dup2 fd 1);
                      hc = (if lg_fd lg \<noteq> 2 then log_do env hb (Lg_dup2 fd 2) else hb);
                      hd = (if fd \<noteq> lg_fd lg then log_do env hc (Lg_close fd) else hc)
                  in (lg, hd)
             else (lg\<lparr>lg_fd := fd\<rparr>, if need_closing then log_do env h1 (Lg_close (lg_fd lg)) else h1));
          h3 = (if lg_wf_flag lg \<and> need_closing then log_do env h2 (Lg_close (lg_wf_fd lg)) else h2);
          lg2 = lg1\<lparr>lg_name := Some name, lg_flag := flag, lg_wf_flag := open_wf\<rparr>
      in if open_wf
         then let (r2, h4) = log_sys env h3 (Lg_open (Some (wf_name name))) in (lg2\<lparr>lg_wf_fd := lr_val r2\<rparr>, h4)
         else (lg2, h3))"

text \<open>Opening the log file again, as \<open>rotate_log\<close> and \<open>check_file\<close> do.\<close>

definition reopen_log :: "log_env \<Rightarrow> log_history \<Rightarrow> logger \<Rightarrow> string option \<Rightarrow> logger \<times> log_history" where
  "reopen_log env h lg filename =
     (let (r, h1) = log_sys env h (Lg_open filename); fd = lr_val r
      in if \<not> lg_flag lg
         then let ha = log_do env h1 (Lg_dup2 fd (lg_fd lg));
                  hb = log_do env ha (Lg_dup2 fd 1);
                  hc = (if lg_fd lg \<noteq> 2 then log_do env hb (Lg_dup2 fd 2) else hb)
              in (lg, log_do env hc (Lg_close fd))
         else (lg\<lparr>lg_fd := fd\<rparr>, if lg_fd lg \<noteq> 2 then log_do env h1 (Lg_close (lg_fd lg)) else h1))"

text \<open>The list of kept files: the oldest one makes room, and is deleted.\<close>

definition push_file :: "log_env \<Rightarrow> log_history \<Rightarrow> nat \<Rightarrow> string list \<Rightarrow> string \<Rightarrow> string list \<times> log_history" where
  "push_file env h n files f =
     (if length files \<ge> n then (tl files @ [f], log_do env h (Lg_unlink (hd files))) else (files @ [f], h))"

definition rotate_log ::
  "log_env \<Rightarrow> log_history \<Rightarrow> logger \<Rightarrow> string option \<Rightarrow> string option \<Rightarrow> fault + logger \<times> log_history" where
  "rotate_log env h lg filename0 fmt =
     (let filename = (case filename0 of None \<Rightarrow> lg_name lg | Some f \<Rightarrow> Some (c_str f));
          wf = map_option wf_name filename;
          (r, h1) = log_sys env h (Lg_access filename);
          renamed =
            (case filename of
               Some f \<Rightarrow>
                 if lr_val r = 0
                 then let (d, h2) = log_sys env h1 (Lg_date fmt);
                          old = f @ ''.'' @ lr_str d; old_wf = clip (wf_name f @ ''.'' @ lr_str d)
                      in if length old \<ge> 256 then Inl OutOfBounds
                         else let (files, h3) = (if max_file_index lg > 0
                                    then push_file env h2 (max_file_index lg) (file_list lg) old else (file_list lg, h2));
                                  h4 = log_do env h3 (Lg_rename f old);
                                  (wfs, h5) = (if lg_wf_flag lg \<and> max_file_index lg > 0
                                    then push_file env h4 (max_file_index lg) (wf_file_list lg) old_wf else (wf_file_list lg, h4));
                                  h6 = log_do env h5 (Lg_rename (wf_name f) old_wf)
                              in Inr (lg\<lparr>file_list := files, wf_file_list := wfs\<rparr>, h6)
                 else Inr (lg, h1)
             | None \<Rightarrow> if lr_val r = 0 then Inl NullPointer else Inr (lg, h1))
      in bind_err renamed (\<lambda>(lg1, h6).
           let (lg2, h7) = reopen_log env h6 lg1 filename
           in if lg_wf_flag lg
              then let (r8, h8) = log_sys env h7 (Lg_open wf);
                       h9 = (if lg_wf_fd lg \<noteq> 2 then log_do env h8 (Lg_close (lg_wf_fd lg)) else h8)
                   in Inr (lg2\<lparr>lg_wf_fd := lr_val r8\<rparr>, h9)
              else Inr (lg2, h7)))"

definition check_file :: "log_env \<Rightarrow> log_history \<Rightarrow> logger \<Rightarrow> string \<Rightarrow> logger \<times> log_history" where
  "check_file env h lg name =
     (let (r1, h1) = log_sys env h (Lg_fstat (lg_fd lg));
          (r2, h2) = log_sys env h1 (Lg_stat name)
      in if (lr_val r2 = - 1 \<and> lr_enoent r2) \<or> (lr_val r2 = 0 \<and> lr_ids r2 \<noteq> lr_ids r1)
         then reopen_log env h2 lg (Some name) else (lg, h2))"

section \<open>Messages\<close>

definition newline :: char where
  "newline = CHR 0x0A"

text \<open>
  The buffer after \<open>vsnprintf\<close> into 4096 bytes and the removal of newlines from its end. The
  loop has no lower bound: with nothing but newlines it looks in front of the buffer.
\<close>

definition strip_newlines :: "string \<Rightarrow> fault + string" where
  "strip_newlines msg =
     (let s = rev (dropWhile (\<lambda>c. c = newline) (rev (take 4095 msg)))
      in if s = [] then Inl OutOfBounds else Inr s)"

definition pad_right :: "nat \<Rightarrow> string \<Rightarrow> string" where
  "pad_right n s = s @ replicate (n - length s) CHR '' ''"

text \<open>What \<open>snprintf\<close> formats for the head of a line.\<close>

definition head_text :: "string \<Rightarrow> int \<Rightarrow> string \<Rightarrow> int \<Rightarrow> string \<Rightarrow> int \<Rightarrow> string" where
  "head_text now level file line func tid =
     ''['' @ now @ ''] '' @ pad_right 5 (errstr ! nat level) @ '' ''
     @ (if level < 3 then func @ '' ('' @ file @ '':'' @ dec_int line @ '')'' else file @ '':'' @ dec_int line)
     @ '' ['' @ dec_int tid @ ''] ''"

text \<open>The bytes \<open>writev\<close> takes from the 128-byte buffer when it is told the untruncated length.\<close>

definition head_bytes :: "string \<Rightarrow> fault + string" where
  "head_bytes s = (if length s > 128 then Inl OutOfBounds else Inr (take (length s) (take 127 s @ [CHR 0x00])))"

definition log_message ::
  "log_env \<Rightarrow> log_history \<Rightarrow> logger \<Rightarrow> int \<Rightarrow> string \<Rightarrow> int \<Rightarrow> string \<Rightarrow> int \<Rightarrow> string \<Rightarrow> fault + logger \<times> log_history" where
  "log_message env h lg level file line func tid msg =
     (if level > lg_level lg then Inr (lg, h)
      else let (lg1, h1) = (case lg_name lg of
                  Some name \<Rightarrow> if lg_check lg \<noteq> 0 then check_file env h lg name else (lg, h)
                | None \<Rightarrow> (lg, h));
               (now, h2) = log_sys env h1 Lg_now
           in bind_err (strip_newlines msg) (\<lambda>body.
              if level < 0 \<or> level \<ge> int (length errstr) then Inl OutOfBounds
              else bind_err (head_bytes (head_text (lr_str now) level file line func tid)) (\<lambda>hd.
              let vec = [hd, body, [newline]];
                  h3 = log_do env h2 (Lg_writev (lg_fd lg1) vec);
                  h4 = (if lg_wf_flag lg1 \<and> level \<le> lg_wf_level lg1 then log_do env h3 (Lg_writev (lg_wf_fd lg1) vec) else h3)
              in if max_file_size lg1 \<noteq> 0
                 then let (r, h5) = log_sys env h4 (Lg_lseek (lg_fd lg1))
                      in if lr_val r \<ge> 0 \<and> lr_val r \<ge> max_file_size lg1 then rotate_log env h5 lg1 None None
                         else Inr (lg1, h5)
                 else Inr (lg1, h4))))"

text \<open>The destructor.\<close>

definition logger_destroy :: "log_env \<Rightarrow> log_history \<Rightarrow> logger \<Rightarrow> log_history" where
  "logger_destroy env h lg =
     (case lg_name lg of None \<Rightarrow> h
      | Some _ \<Rightarrow> let h1 = log_do env h (Lg_close (lg_fd lg))
                  in if lg_wf_flag lg then log_do env h1 (Lg_close (lg_wf_fd lg)) else h1)"

section \<open>Facts\<close>

lemma log_sys_unfold [env_simps]: "log_sys env h c = (env h c, h @ [(c, env h c)])"
  by (simp add: log_sys_def invoke_def)

lemma log_do_unfold [env_simps]: "log_do env h c = h @ [(c, env h c)]"
  by (simp add: log_do_def log_sys_unfold)

lemma strip_newlines_result:
  "strip_newlines msg = Inr body \<longleftrightarrow>
     body \<noteq> [] \<and> last body \<noteq> newline \<and> (\<exists>k. take 4095 msg = body @ replicate k newline)"
proof -
  define t where "t = take 4095 msg"
  define s where "s = rev (dropWhile (\<lambda>c. c = newline) (rev t))"
  define k where "k = length (takeWhile (\<lambda>c. c = newline) (rev t))"
  have "takeWhile (\<lambda>c. c = newline) (rev t) = replicate k newline"
    unfolding k_def by (rule replicate_length_same [symmetric]) (auto dest: set_takeWhileD)
  then have split: "t = s @ replicate k newline"
    by (metis s_def rev_append rev_replicate rev_rev_ident takeWhile_dropWhile_id)
  have last: "s \<noteq> [] \<Longrightarrow> last s \<noteq> newline"
    unfolding s_def by (metis (mono_tags) hd_dropWhile last_rev rev_is_Nil_conv)
  have unique: "body = s" if "body \<noteq> []" "last body \<noteq> newline" "t = body @ replicate j newline" for body j
  proof -
    have "dropWhile (\<lambda>c. c = newline) (rev t) = rev body"
      unfolding that(3) using that(1,2) by (simp add: dropWhile_append3 dropWhile_eq_self_iff hd_rev) (simp add: dropWhile_append hd_rev dropWhile_eq_self_iff)
    then show ?thesis by (simp add: s_def)
  qed
  have strip: "strip_newlines msg = (if s = [] then Inl OutOfBounds else Inr s)"
    by (simp add: strip_newlines_def s_def t_def Let_def)
  show ?thesis unfolding t_def [symmetric]
  proof
    assume "strip_newlines msg = Inr body"
    with strip have "body = s" "s \<noteq> []" by (simp_all split: if_splits)
    with last split show "body \<noteq> [] \<and> last body \<noteq> newline \<and> (\<exists>k. t = body @ replicate k newline)" by blast
  next
    assume b: "body \<noteq> [] \<and> last body \<noteq> newline \<and> (\<exists>k. t = body @ replicate k newline)"
    then have "body = s" using unique by blast
    with b strip show "strip_newlines msg = Inr body" by simp
  qed
qed

lemma strip_newlines_fault: "strip_newlines msg = Inl e \<longleftrightarrow> e = OutOfBounds \<and> set (take 4095 msg) \<subseteq> {newline}"
proof -
  have "(rev (dropWhile (\<lambda>c. c = newline) (rev (take 4095 msg))) = []) = (set (take 4095 msg) \<subseteq> {newline})"
    by (auto simp: dropWhile_eq_Nil_conv)
  then show ?thesis by (auto simp: strip_newlines_def Let_def simp del: rev_is_Nil_conv)
qed

section \<open>Rotation\<close>

text \<open>The files renamed away from a name, and the files deleted, in order.\<close>

definition renamed_from :: "string \<Rightarrow> log_history \<Rightarrow> string list" where
  "renamed_from f h = concat (map (\<lambda>(c, r). case c of Lg_rename a b \<Rightarrow> if a = f then [b] else [] | _ \<Rightarrow> []) h)"

definition unlinked :: "log_history \<Rightarrow> string list" where
  "unlinked h = concat (map (\<lambda>(c, r). case c of Lg_unlink a \<Rightarrow> [a] | _ \<Rightarrow> []) h)"

lemma renamed_from_simps [simp]:
  "renamed_from f [] = []"
  "renamed_from f ((c, r) # h) = (case c of Lg_rename a b \<Rightarrow> if a = f then [b] else [] | _ \<Rightarrow> []) @ renamed_from f h"
  "renamed_from f (h @ h') = renamed_from f h @ renamed_from f h'"
  by (simp_all add: renamed_from_def)

lemma unlinked_simps [simp]:
  "unlinked [] = []"
  "unlinked ((c, r) # h) = (case c of Lg_unlink a \<Rightarrow> [a] | _ \<Rightarrow> []) @ unlinked h"
  "unlinked (h @ h') = unlinked h @ unlinked h'"
  by (simp_all add: unlinked_def)

lemma reopen_log_keeps:
  assumes "reopen_log env h lg fn = (lg', h')"
  shows "lg' = lg\<lparr>lg_fd := lg_fd lg'\<rparr>" "renamed_from f h' = renamed_from f h" "unlinked h' = unlinked h"
  using assms by (auto simp: reopen_log_def env_simps Let_def split: if_splits)

text \<open>What stays the same when the log file is rotated.\<close>

definition same_log :: "logger \<Rightarrow> logger \<Rightarrow> bool" where
  "same_log lg lg' \<longleftrightarrow> lg_name lg' = lg_name lg \<and> lg_wf_flag lg' = lg_wf_flag lg \<and> max_file_index lg' = max_file_index lg"

text \<open>Main files renamed so far are those deleted and, after them, those in the list.\<close>

definition rotation_ok :: "string \<Rightarrow> string list \<Rightarrow> string list \<Rightarrow> logger \<Rightarrow> log_history \<Rightarrow> bool" where
  "rotation_ok f r0 u0 lg h \<longleftrightarrow> lg_name lg = Some f \<and> \<not> lg_wf_flag lg \<and> 0 < max_file_index lg
     \<and> length (file_list lg) \<le> max_file_index lg
     \<and> (\<exists>R U. renamed_from f h = r0 @ R \<and> unlinked h = u0 @ U \<and> R = U @ file_list lg)"

lemma reopen_keeps_rotation:
  assumes "reopen_log env h lg fn = (lg', h')" and "rotation_ok f r0 u0 lg h"
  shows "rotation_ok f r0 u0 lg' h' \<and> max_file_index lg' = max_file_index lg"
proof -
  have "lg' = lg\<lparr>lg_fd := lg_fd lg'\<rparr>" by (rule reopen_log_keeps(1) [OF assms(1)])
  then obtain x where lg': "lg' = lg\<lparr>lg_fd := x\<rparr>" by blast
  with assms(2) reopen_log_keeps(2,3) [OF assms(1)] show ?thesis by (simp add: rotation_ok_def)
qed

lemma wf_name_differs: "length f < 252 \<Longrightarrow> wf_name f \<noteq> f"
  by (auto simp: wf_name_def clip_def dest: arg_cong [of _ _ length])

lemma push_file_rotation:
  assumes "push_file env h n files x = (files', h')" and "length files \<le> n" and "0 < n"
  shows "length files' \<le> n \<and> renamed_from f h' = renamed_from f h
    \<and> (\<exists>U. unlinked h' = unlinked h @ U \<and> files @ [x] = U @ files')"
proof (cases "length files \<ge> n")
  case True
  then have "files \<noteq> []" using assms(3) by auto
  with True assms show ?thesis by (cases files) (auto simp: push_file_def env_simps)
next
  case False
  with assms show ?thesis by (auto simp: push_file_def)
qed

text \<open>The new names fit the buffer they are formatted into.\<close>

definition dates_fit :: "log_env \<Rightarrow> string \<Rightarrow> bool" where
  "dates_fit env f \<longleftrightarrow> (\<forall>h fmt. length f + length (lr_str (env h (Lg_date fmt))) < 251)"

lemma rotate_log_step:
  assumes "rotation_ok f r0 u0 lg h" and "dates_fit env f"
  shows "\<exists>lg' h'. rotate_log env h lg None fmt = Inr (lg', h') \<and> rotation_ok f r0 u0 lg' h' \<and> max_file_index lg' = max_file_index lg"
proof -
  have name: "lg_name lg = Some f" and nowf: "\<not> lg_wf_flag lg" and n: "0 < max_file_index lg"
    and len: "length (file_list lg) \<le> max_file_index lg"
    using assms(1) by (simp_all add: rotation_ok_def)
  obtain R U where ru: "renamed_from f h = r0 @ R" "unlinked h = u0 @ U" "R = U @ file_list lg"
    using assms(1) by (auto simp: rotation_ok_def)
  have diff: "wf_name f \<noteq> f" using assms(2) [unfolded dates_fit_def, rule_format, of "[]" None] by (intro wf_name_differs) simp
  define h1 where "h1 = h @ [(Lg_access (Some f), env h (Lg_access (Some f)))]"
  show ?thesis
  proof (cases "lr_val (env h (Lg_access (Some f))) = 0")
    case False
    obtain lg2 h2 where r: "reopen_log env h1 lg (Some f) = (lg2, h2)" by fastforce
    have "rotation_ok f r0 u0 lg h1" using assms(1) by (simp add: rotation_ok_def h1_def)
    from reopen_keeps_rotation [OF r this] False name nowf r show ?thesis
      by (simp add: rotate_log_def env_simps h1_def Let_def)
  next
    case True
    define d where "d = env h1 (Lg_date fmt)"
    define h2 where "h2 = h1 @ [(Lg_date fmt, d)]"
    define old where "old = f @ ''.'' @ lr_str d"
    obtain files h3 where p: "push_file env h2 (max_file_index lg) (file_list lg) old = (files, h3)" by fastforce
    define h4 where "h4 = h3 @ [(Lg_rename f old, env h3 (Lg_rename f old))]"
    define old_wf where "old_wf = clip (wf_name f @ ''.'' @ lr_str d)"
    define h6 where "h6 = h4 @ [(Lg_rename (wf_name f) old_wf, env h4 (Lg_rename (wf_name f) old_wf))]"
    define lg1 where "lg1 = lg\<lparr>file_list := files, wf_file_list := wf_file_list lg\<rparr>"
    obtain lg2 h7 where r: "reopen_log env h6 lg1 (Some f) = (lg2, h7)" by fastforce
    have fit: "length old < 256" using assms(2) [unfolded dates_fit_def, rule_format, of h1 fmt] by (simp add: old_def d_def)
    have res: "rotate_log env h lg None fmt = Inr (lg2, h7)"
      using True name nowf n p r fit unfolding lg1_def h6_def h4_def old_wf_def
      by (simp add: rotate_log_def env_simps h1_def [symmetric] d_def [symmetric] h2_def [symmetric] old_def [symmetric] Let_def)
        (simp add: old_def Let_def)
    from push_file_rotation [OF p len n, of f] obtain U' where
      u: "length files \<le> max_file_index lg" "renamed_from f h3 = renamed_from f h2" "unlinked h3 = unlinked h2 @ U'"
      "file_list lg @ [old] = U' @ files" by blast
    have "renamed_from f h6 = r0 @ (R @ [old])" "unlinked h6 = u0 @ (U @ U')"
      using u ru diff by (simp_all add: h6_def h4_def h2_def h1_def)
    moreover have "R @ [old] = (U @ U') @ files" using u(4) ru(3) by simp
    ultimately have "rotation_ok f r0 u0 lg1 h6"
      using u(1) name nowf n unfolding rotation_ok_def lg1_def
      by (intro conjI exI [of _ "R @ [old]"] exI [of _ "U @ U'"]) simp_all
    from reopen_keeps_rotation [OF r this] res show ?thesis by (simp add: lg1_def)
  qed
qed

fun rotate_run :: "log_env \<Rightarrow> log_history \<Rightarrow> logger \<Rightarrow> string option list \<Rightarrow> fault + logger \<times> log_history" where
  "rotate_run env h lg [] = Inr (lg, h)"
| "rotate_run env h lg (fmt # fmts) = bind_err (rotate_log env h lg None fmt) (\<lambda>(lg1, h1). rotate_run env h1 lg1 fmts)"

lemma rotate_run_ok:
  assumes "dates_fit env f"
  shows "rotation_ok f r0 u0 lg h \<Longrightarrow> \<exists>lg' h'. rotate_run env h lg fmts = Inr (lg', h') \<and> rotation_ok f r0 u0 lg' h'
    \<and> max_file_index lg' = max_file_index lg"
proof (induction fmts arbitrary: lg h)
  case (Cons fmt fmts)
  from rotate_log_step [OF Cons.prems assms] obtain lg1 h1 where
    "rotate_log env h lg None fmt = Inr (lg1, h1)" "rotation_ok f r0 u0 lg1 h1" "max_file_index lg1 = max_file_index lg" by blast
  with Cons.IH [of lg1 h1] show ?case by simp
qed auto

section \<open>Properties\<close>

text \<open>A clock and file system in which every call succeeds and files are small.\<close>

definition sample_log_env :: log_env where
  "sample_log_env h c = \<lparr>lr_val = 0, lr_enoent = False, lr_ids = (1, 1), lr_str = ''20240101120000''\<rparr>"

text \<open>
  C30: A message above the level of the logger is dropped without a call. Otherwise, if it has
  more than newlines and its head fits the buffer: first, with \<open>check\<close> on and a file name set, \<open>check_file\<close> runs and
  may put the logger on another descriptor; then exactly one line is written to the log file, and the same line to the
  second file if that is open and the message is severe enough: the head, the first 4095
  characters of the message without the newlines at their end, and a newline; last, unless
  \<open>maxFileSize\<close> is 0, the size of the file is asked for, and \<open>rotate_log\<close> runs exactly if it is known and has
  reached \<open>maxFileSize\<close>. Nothing else is called.
\<close>

theorem log_message_writes_line:
  assumes "0 \<le> level" and "level < 6" and "\<not> set (take 4095 msg) \<subseteq> {newline}"
    and "\<And>k. length (head_text (lr_str (env k Lg_now)) level file line func tid) \<le> 127"
  shows "if level > lg_level lg then log_message env h lg level file line func tid msg = Inr (lg, h)
    else \<exists>lg1 h1 h2 body k.
      (lg1, h1) = (if lg_name lg = None \<or> lg_check lg = 0 then (lg, h) else check_file env h lg (the (lg_name lg)))
      \<and> take 4095 msg = body @ replicate k newline \<and> body \<noteq> [] \<and> last body \<noteq> newline
      \<and> (let vec = [head_text (lr_str (env h1 Lg_now)) level file line func tid, body, [newline]]
         in map fst h2 = map fst h1 @ [Lg_now, Lg_writev (lg_fd lg1) vec]
              @ (if lg_wf_flag lg1 \<and> level \<le> lg_wf_level lg1 then [Lg_writev (lg_wf_fd lg1) vec] else [])
              @ (if max_file_size lg1 \<noteq> 0 then [Lg_lseek (lg_fd lg1)] else []))
      \<and> log_message env h lg level file line func tid msg =
          (let size = lr_val (env (butlast h2) (Lg_lseek (lg_fd lg1)))
           in if max_file_size lg1 \<noteq> 0 \<and> size \<ge> 0 \<and> size \<ge> max_file_size lg1
              then rotate_log env h2 lg1 None None else Inr (lg1, h2))"
proof (cases "level > lg_level lg")
  case True
  then show ?thesis by (simp add: log_message_def)
next
  case False
  obtain body where b: "strip_newlines msg = Inr body"
    using assms(3) strip_newlines_fault by (cases "strip_newlines msg") blast+
  then obtain k where k: "body \<noteq> []" "last body \<noteq> newline" "take 4095 msg = body @ replicate k newline"
    by (auto simp: strip_newlines_result)
  obtain lg1 h1 where checked: "(lg1, h1) = (if lg_name lg = None \<or> lg_check lg = 0 then (lg, h) else check_file env h lg (the (lg_name lg)))"
    by (metis surj_pair)
  then have lg1: "(case lg_name lg of Some name \<Rightarrow> if lg_check lg \<noteq> 0 then check_file env h lg name else (lg, h) | None \<Rightarrow> (lg, h)) = (lg1, h1)"
    by (auto split: option.split)
  define head where "head = head_text (lr_str (env h1 Lg_now)) level file line func tid"
  have hd: "head_bytes head = Inr head" using assms(4) [of h1] by (simp add: head_bytes_def head_def)
  have lev: "\<not> (level < 0 \<or> level \<ge> int (length errstr))" using assms(1,2) by (simp add: errstr_def)
  let ?vec = "[head, body, [newline]]"
  define h4 where "h4 = (let h3 = log_do env (h1 @ [(Lg_now, env h1 Lg_now)]) (Lg_writev (lg_fd lg1) ?vec)
    in if lg_wf_flag lg1 \<and> level \<le> lg_wf_level lg1 then log_do env h3 (Lg_writev (lg_wf_fd lg1) ?vec) else h3)"
  have h4: "map fst h4 = map fst h1 @ [Lg_now, Lg_writev (lg_fd lg1) ?vec]
      @ (if lg_wf_flag lg1 \<and> level \<le> lg_wf_level lg1 then [Lg_writev (lg_wf_fd lg1) ?vec] else [])"
    by (simp add: h4_def env_simps Let_def)
  define h2 where "h2 = (if max_file_size lg1 \<noteq> 0 then log_do env h4 (Lg_lseek (lg_fd lg1)) else h4)"
  have msg: "log_message env h lg level file line func tid msg =
      (if max_file_size lg1 \<noteq> 0
       then let (r, h5) = log_sys env h4 (Lg_lseek (lg_fd lg1))
            in if lr_val r \<ge> 0 \<and> lr_val r \<ge> max_file_size lg1 then rotate_log env h5 lg1 None None else Inr (lg1, h5)
       else Inr (lg1, h4))"
  proof -
    have now: "log_sys env h1 Lg_now = (env h1 Lg_now, h1 @ [(Lg_now, env h1 Lg_now)])" by (simp add: log_sys_unfold)
    show ?thesis
      using False lev unfolding log_message_def lg1 prod.case Let_def now b bind_err_simps head_def [symmetric] hd h4_def
      by (simp only: if_False)
  qed
  have "log_message env h lg level file line func tid msg =
      (let size = lr_val (env (butlast h2) (Lg_lseek (lg_fd lg1)))
       in if max_file_size lg1 \<noteq> 0 \<and> size \<ge> 0 \<and> size \<ge> max_file_size lg1
          then rotate_log env h2 lg1 None None else Inr (lg1, h2))"
    unfolding msg by (cases "max_file_size lg1 = 0") (simp_all add: h2_def env_simps Let_def)
  moreover have "map fst h2 = map fst h1 @ [Lg_now, Lg_writev (lg_fd lg1) ?vec]
      @ (if lg_wf_flag lg1 \<and> level \<le> lg_wf_level lg1 then [Lg_writev (lg_wf_fd lg1) ?vec] else [])
      @ (if max_file_size lg1 \<noteq> 0 then [Lg_lseek (lg_fd lg1)] else [])"
    using h4 by (simp add: h2_def env_simps)
  ultimately show ?thesis using False k checked unfolding Let_def head_def by (simp only: if_False) blast
qed

theorem log_message_writes_line_witness:
  "\<exists>h2. log_message sample_log_env [] logger_make 0 ''f.cpp'' 7 ''main'' 1 ''down'' = Inr (logger_make, h2) \<and> length h2 = 3"
proof -
  have fits: "length (head_text (lr_str (sample_log_env k Lg_now)) 0 ''f.cpp'' 7 ''main'' 1) \<le> 127" for k
    by (simp add: head_text_def sample_log_env_def pad_right_def errstr_def dec_int_def dec_string.simps)
  define msg where "msg = ''down''"
  have more: "\<not> set (take 4095 msg) \<subseteq> {newline}" by (simp add: newline_def msg_def)
  have level: "0 \<le> (0 :: int)" "(0 :: int) < 6" by simp_all
  from log_message_writes_line [of 0 msg sample_log_env "''f.cpp''" 7 "''main''" 1 logger_make "[]", OF level more fits]
  have "\<exists>h2. log_message sample_log_env [] logger_make 0 ''f.cpp'' 7 ''main'' 1 msg = Inr (logger_make, h2) \<and> length h2 = 3"
    by (auto simp: logger_make_def Let_def sample_log_env_def)
  then show ?thesis by (simp only: msg_def)
qed

text \<open>
  A message of newlines only, the empty one included, makes \<open>log_message\<close> read in front of its
  buffer, and a head of more than 128 characters makes it hand bytes behind the head's buffer
  to \<open>writev\<close>.
\<close>

lemma log_message_out_of_bounds:
  assumes "0 \<le> level" and "level < 6" and "level \<le> lg_level lg"
    and "set (take 4095 msg) \<subseteq> {newline} \<or> 128 < length (head_text [] level file line func tid)"
  shows "log_message env h lg level file line func tid msg = Inl OutOfBounds"
proof -
  obtain lg1 h1 where lg1: "(case lg_name lg of Some name \<Rightarrow> if lg_check lg \<noteq> 0 then check_file env h lg name else (lg, h)
      | None \<Rightarrow> (lg, h)) = (lg1, h1)" by fastforce
  have le: "length (head_text [] level file line func tid) \<le> length (head_text now level file line func tid)" for now
    by (simp add: head_text_def)
  have fault: "head_bytes (head_text now level file line func tid) = Inl OutOfBounds"
    if "128 < length (head_text [] level file line func tid)" for now
    using le [of now] that by (simp add: head_bytes_def)
  show ?thesis
  proof (cases "set (take 4095 msg) \<subseteq> {newline}")
    case True
    then have "strip_newlines msg = Inl OutOfBounds" by (simp add: strip_newlines_fault)
    then show ?thesis using assms(3) unfolding log_message_def lg1 by (simp add: env_simps)
  next
    case False
    then show ?thesis using assms(3,4) fault strip_newlines_fault [of msg] unfolding log_message_def lg1
      by (cases "strip_newlines msg") (auto simp: env_simps)
  qed
qed

lemma log_message_out_of_bounds_witness:
  "log_message sample_log_env [] logger_make 5 ''f.cpp'' 7 ''main'' 1 [newline] = Inl OutOfBounds"
  by (rule log_message_out_of_bounds) (simp_all add: logger_make_def)

text \<open>
  Over any number of rotations of a log file with a positive \<open>maxFileIndex\<close>, no rotation faults, the files the
  log was renamed to are those deleted and, after them, those in the list, in order: the oldest
  are deleted, and at most \<open>maxFileIndex\<close> of them are kept.
\<close>

lemma rotation_keeps_newest:
  assumes "lg_name lg = Some f" and "\<not> lg_wf_flag lg" and "0 < max_file_index lg" and "file_list lg = []"
    and "dates_fit env f"
  shows "\<exists>lg' h' new. rotate_run env h lg fmts = Inr (lg', h') \<and> renamed_from f h' = renamed_from f h @ new
    \<and> (\<exists>old. unlinked h' = unlinked h @ old \<and> new = old @ file_list lg')
    \<and> length (file_list lg') \<le> max_file_index lg"
proof -
  have "rotation_ok f (renamed_from f h) (unlinked h) lg h" using assms(1-4) by (simp add: rotation_ok_def)
  from rotate_run_ok [OF assms(5) this, of fmts] show ?thesis unfolding rotation_ok_def by metis
qed

lemma rotation_keeps_newest_witness:
  "\<exists>lg' h' new. rotate_run sample_log_env [] (logger_make\<lparr>lg_name := Some ''app.log'', max_file_index := 2\<rparr>) [None, None, None] = Inr (lg', h')
     \<and> renamed_from ''app.log'' h' = new \<and> length (file_list lg') \<le> 2"
  using rotation_keeps_newest [of "logger_make\<lparr>lg_name := Some ''app.log'', max_file_index := 2\<rparr>" "''app.log''" sample_log_env "[]" "[None, None, None]"]
  by (auto simp: logger_make_def dates_fit_def sample_log_env_def)

end
