(* ===== verification/Logger_Fds.thy ===== *)
theory Logger_Fds
  imports Logger
begin

text \<open>
  The descriptors of the logger of \<open>log_base.cpp\<close>: whatever the sequence of calls, the files that are
  open are the standard ones and those the logger holds, and the destructor closes its own.
\<close>

section \<open>Open descriptors\<close>

text \<open>What a kernel that starts with the standard descriptors has open after a history.\<close>

definition std_fds :: "int set" where
  "std_fds = {0, 1, 2}"

fun fds_after :: "int set \<Rightarrow> log_call \<times> log_ret \<Rightarrow> int set" where
  "fds_after S (Lg_open f, r) = (if lr_val r \<ge> 0 then insert (lr_val r) S else S)"
| "fds_after S (Lg_dup2 a b, r) = (if lr_val r \<ge> 0 \<and> b \<ge> 0 then insert b S else S)"
| "fds_after S (Lg_close fd, r) = S - {fd}"
| "fds_after S (_, r) = S"

definition open_fds :: "log_history \<Rightarrow> int set" where
  "open_fds h = foldl fds_after std_fds h"

lemma open_fds_simps [simp]:
  "open_fds [] = std_fds"
  "open_fds (h @ [x]) = fds_after (open_fds h) x"
  by (simp_all add: open_fds_def)

text \<open>The kernel hands out descriptors that are not open, such as the lowest one.\<close>

definition fd_kernel_ok :: "log_env \<Rightarrow> bool" where
  "fd_kernel_ok env \<longleftrightarrow> (\<forall>h f. let r = lr_val (env h (Lg_open f)) in r = - 1 \<or> r \<ge> 0 \<and> r \<notin> open_fds h)"

definition own_fd :: "int \<Rightarrow> int set" where
  "own_fd fd = (if fd \<ge> 3 then {fd} else {})"

definition main_fds :: "logger \<Rightarrow> int set" where
  "main_fds lg = own_fd (lg_fd lg)"

definition wf_fds :: "logger \<Rightarrow> int set" where
  "wf_fds lg = (if lg_wf_flag lg then own_fd (lg_wf_fd lg) else {})"

text \<open>A descriptor of a file of the logger, or none after a failed \<open>open\<close>; with \<open>own\<close> the log is such a file, else it is \<open>stderr\<close>.\<close>

definition no_std :: "int \<Rightarrow> bool" where
  "no_std fd \<longleftrightarrow> fd = - 1 \<or> fd \<ge> 3"

definition log_mode :: "bool \<Rightarrow> logger \<Rightarrow> bool" where
  "log_mode own lg \<longleftrightarrow> (lg_name lg = None \<longrightarrow> lg_fd lg = 2 \<and> \<not> lg_wf_flag lg \<and> \<not> lg_flag lg)
     \<and> (lg_name lg \<noteq> None \<longrightarrow> (if own then no_std (lg_fd lg) else lg_fd lg = 2 \<and> \<not> lg_flag lg))
     \<and> (lg_wf_flag lg \<longrightarrow> no_std (lg_wf_fd lg))"

definition fds_held :: "bool \<Rightarrow> log_history \<Rightarrow> logger \<Rightarrow> bool" where
  "fds_held own h lg \<longleftrightarrow> open_fds h = std_fds \<union> main_fds lg \<union> wf_fds lg \<and> main_fds lg \<inter> wf_fds lg = {} \<and> log_mode own lg"

lemma fd_kernel_open:
  assumes "fd_kernel_ok env" and "std_fds \<subseteq> open_fds h"
  shows "lr_val (env h (Lg_open f)) = - 1 \<or> lr_val (env h (Lg_open f)) \<ge> 3 \<and> lr_val (env h (Lg_open f)) \<notin> open_fds h"
proof -
  have "lr_val (env h (Lg_open f)) = - 1 \<or> lr_val (env h (Lg_open f)) \<ge> 0 \<and> lr_val (env h (Lg_open f)) \<notin> open_fds h"
    using assms(1) by (simp add: fd_kernel_ok_def Let_def)
  moreover have "x \<ge> 3" if "x \<ge> 0" "x \<notin> open_fds h" for x 
  proof -
    have "x \<noteq> 0" "x \<noteq> 1" "x \<noteq> 2" using that(2) assms(2) by (auto simp: std_fds_def)
    with that(1) show ?thesis by linarith
  qed
  ultimately show ?thesis by blast
qed

lemma own_fd_simps [simp]:
  "own_fd (- 1) = {}" "own_fd 2 = {}" "fd \<ge> 3 \<Longrightarrow> own_fd fd = {fd}"
  by (simp_all add: own_fd_def)

lemma own_fd_iff [simp]: "x \<in> own_fd fd \<longleftrightarrow> x = fd \<and> fd \<ge> 3"
  by (auto simp: own_fd_def)

lemma std_fds_iff [simp]: "x \<in> std_fds \<longleftrightarrow> x = 0 \<or> x = 1 \<or> x = 2"
  by (auto simp: std_fds_def)

lemma open_adds:
  assumes "fd_kernel_ok env" and "std_fds \<subseteq> open_fds h" and "log_sys env h (Lg_open f) = (r, h1)"
  shows "open_fds h1 = open_fds h \<union> own_fd (lr_val r) \<and> (lr_val r = - 1 \<or> lr_val r \<ge> 3 \<and> lr_val r \<notin> open_fds h)"
  using fd_kernel_open [OF assms(1,2), of f] assms(3) by (auto simp: log_sys_unfold)

lemma held_std: "fds_held own h lg \<Longrightarrow> std_fds \<subseteq> open_fds h"
  by (auto simp: fds_held_def)

lemma fds_held_cong:
  assumes held: "fds_held own h lg" and h: "open_fds h' = open_fds h"
    and eqs: "lg_fd lg' = lg_fd lg" "lg_wf_fd lg' = lg_wf_fd lg" "lg_wf_flag lg' = lg_wf_flag lg"
      "lg_flag lg' = lg_flag lg" "lg_name lg' = lg_name lg"
  shows "fds_held own h' lg'"
proof -
  have "main_fds lg' = main_fds lg" "wf_fds lg' = wf_fds lg" using eqs by (simp_all add: main_fds_def wf_fds_def)
  moreover have "log_mode own lg' = log_mode own lg" using eqs by (simp add: log_mode_def)
  ultimately show ?thesis using held h by (simp only: fds_held_def)
qed

lemma held_positive: "fds_held own h lg \<Longrightarrow> fd \<in> open_fds h \<Longrightarrow> fd \<ge> 0"
  by (auto simp: fds_held_def main_fds_def wf_fds_def split: if_splits)

lemma held_minus: "fds_held own h lg \<Longrightarrow> - 1 \<notin> open_fds h"
  using held_positive by force

section \<open>Every operation keeps the account\<close>

text \<open>Redirecting the standard descriptors and closing the file, without \<open>_flag\<close>.\<close>

definition redirect :: "log_env \<Rightarrow> log_history \<Rightarrow> logger \<Rightarrow> int \<Rightarrow> log_history" where
  "redirect env h lg fd =
     (let ha = log_do env h (Lg_dup2 fd (lg_fd lg)); hb = log_do env ha (Lg_dup2 fd 1)
      in if lg_fd lg \<noteq> 2 then log_do env hb (Lg_dup2 fd 2) else hb)"

lemma open_fds_do: "open_fds (log_do env h c) = fds_after (open_fds h) (c, env h c)"
  by (simp add: log_do_unfold)

lemma redirect_fds:
  "std_fds \<subseteq> open_fds h \<Longrightarrow> lg_fd lg \<in> open_fds h \<or> lg_fd lg < 0 \<Longrightarrow> open_fds (redirect env h lg fd) = open_fds h"
  by (auto simp: redirect_def open_fds_do Let_def)

lemma held_main: "fds_held own h lg \<Longrightarrow> lg_fd lg \<in> open_fds h \<or> lg_fd lg < 0"
  by (cases "lg_name lg") (auto simp: fds_held_def main_fds_def log_mode_def no_std_def split: if_splits)

text \<open>A file opened only to be copied onto the descriptors in use is closed again.\<close>

lemma redirected:
  assumes "fd_kernel_ok env" and "fds_held own h lg" and "log_sys env h (Lg_open f) = (r, h1)"
  shows "open_fds (log_do env (redirect env h1 lg (lr_val r)) (Lg_close (lr_val r))) = open_fds h"
    and "lr_val r = lg_fd lg \<Longrightarrow> open_fds (redirect env h1 lg (lr_val r)) = open_fds h"
proof -
  note new = open_adds [OF assms(1) held_std [OF assms(2)] assms(3)]
  have red: "open_fds (redirect env h1 lg (lr_val r)) = open_fds h1"
    by (rule redirect_fds) (use held_std [OF assms(2)] held_main [OF assms(2)] new in auto)
  then show "open_fds (log_do env (redirect env h1 lg (lr_val r)) (Lg_close (lr_val r))) = open_fds h"
    using new held_minus [OF assms(2)] by (auto simp: open_fds_do)
  show "open_fds (redirect env h1 lg (lr_val r)) = open_fds h" if "lr_val r = lg_fd lg"
    using red new held_main [OF assms(2)] that by auto
qed

text \<open>The main descriptor replaced by a new one.\<close>

lemma replace_main:
  assumes "fds_held own h lg" and "lr = - 1 \<or> lr \<ge> 3 \<and> lr \<notin> open_fds h"
    and "lg_fd lg \<noteq> 2 \<Longrightarrow> S = open_fds h \<union> own_fd lr - {lg_fd lg}" and "lg_fd lg = 2 \<Longrightarrow> S = open_fds h \<union> own_fd lr"
  shows "S = std_fds \<union> own_fd lr \<union> wf_fds lg \<and> own_fd lr \<inter> wf_fds lg = {}"
proof -
  have acc: "open_fds h = std_fds \<union> own_fd (lg_fd lg) \<union> wf_fds lg" "own_fd (lg_fd lg) \<inter> wf_fds lg = {}"
    using assms(1) by (auto simp: fds_held_def main_fds_def)
  have fd: "lg_fd lg = 2 \<or> no_std (lg_fd lg)"
    using assms(1) by (cases "lg_name lg") (auto simp: fds_held_def log_mode_def split: if_splits)
  have wf: "\<forall>x\<in>wf_fds lg. x \<ge> 3" by (simp add: wf_fds_def)
  have lr: "own_fd lr \<inter> (std_fds \<union> wf_fds lg) = {}" "lg_fd lg \<notin> own_fd lr \<or> lg_fd lg = 2"
    using assms(2) acc fd by (auto simp: no_std_def)
  from fd consider "lg_fd lg = 2" | "lg_fd lg = - 1" | "lg_fd lg \<ge> 3" by (auto simp: no_std_def)
  then show ?thesis
  proof cases
    case 1
    with assms(4) acc lr show ?thesis by auto
  next
    case 2
    have "- 1 \<notin> std_fds \<union> own_fd lr \<union> wf_fds lg" using wf by force
    with 2 assms(3) acc lr show ?thesis by auto
  next
    case 3
    then have "lg_fd lg \<notin> std_fds \<union> own_fd lr \<union> wf_fds lg" using acc(2) lr by auto
    moreover have "open_fds h = insert (lg_fd lg) (std_fds \<union> wf_fds lg)" using acc(1) 3 by auto
    ultimately show ?thesis using 3 assms(3) lr by auto
  qed
qed

lemma reopen_log_fds:
  assumes "fd_kernel_ok env" and "fds_held own h lg" and "reopen_log env h lg f = (lg', h')"
  shows "fds_held own h' lg'"
proof -
  obtain r h1 where op: "log_sys env h (Lg_open f) = (r, h1)" by fastforce
  note new = open_adds [OF assms(1) held_std [OF assms(2)] op]
  show ?thesis
  proof (cases "lg_flag lg")
    case False
    then have "lg' = lg" "h' = log_do env (redirect env h1 lg (lr_val r)) (Lg_close (lr_val r))"
      using assms(3) op by (auto simp: reopen_log_def redirect_def Let_def)
    then show ?thesis using redirected(1) [OF assms(1,2) op] fds_held_cong [OF assms(2)] by simp
  next
    case True
    then have lg': "lg' = lg\<lparr>lg_fd := lr_val r\<rparr>" and h': "h' = (if lg_fd lg \<noteq> 2 then log_do env h1 (Lg_close (lg_fd lg)) else h1)"
      using assms(3) op by (auto simp: reopen_log_def Let_def)
    have "open_fds h' = std_fds \<union> own_fd (lr_val r) \<union> wf_fds lg \<and> own_fd (lr_val r) \<inter> wf_fds lg = {}"
      by (rule replace_main [OF assms(2) conjunct2 [OF new]]) (use new in \<open>auto simp: h' open_fds_do\<close>)
    moreover have "log_mode own lg'" using assms(2) new True
      by (auto simp: lg' fds_held_def log_mode_def no_std_def split: if_splits)
    ultimately show ?thesis by (auto simp: lg' fds_held_def main_fds_def wf_fds_def)
  qed
qed

lemma check_file_fds:
  assumes "fd_kernel_ok env" and "fds_held own h lg" and "check_file env h lg name = (lg', h')"
  shows "fds_held own h' lg'"
proof -
  define h2 where "h2 = snd (log_sys env (snd (log_sys env h (Lg_fstat (lg_fd lg)))) (Lg_stat name))"
  have "open_fds h2 = open_fds h"
    using open_fds_simps(2) [of "h @ [(Lg_fstat (lg_fd lg), env h (Lg_fstat (lg_fd lg)))]"]
    by (simp add: h2_def log_sys_unfold)
  then have "fds_held own h2 lg" using fds_held_cong [OF assms(2)] by simp
  moreover have "(lg', h') = (lg, h2) \<or> (lg', h') = reopen_log env h2 lg (Some name)"
    using assms(3) by (auto simp: check_file_def h2_def log_sys_unfold Let_def split: if_splits)
  ultimately show ?thesis using reopen_log_fds [OF assms(1)] by (metis prod.inject)
qed

text \<open>The file of warnings: closed, opened, or opened anew before the old descriptor is closed.\<close>

lemma close_wf_fds:
  assumes "open_fds h = std_fds \<union> main_fds lg \<union> wf_fds lg" "main_fds lg \<inter> wf_fds lg = {}" "lg_wf_flag lg"
    and "no_std (lg_wf_fd lg)"
  shows "open_fds (log_do env h (Lg_close (lg_wf_fd lg))) = std_fds \<union> main_fds lg"
  using assms by (auto simp: open_fds_do main_fds_def wf_fds_def no_std_def)

lemma open_wf_fds:
  assumes "fd_kernel_ok env" and "open_fds h = std_fds \<union> main_fds lg" and "lg_wf_flag lg"
    and "log_sys env h (Lg_open f) = (r, h')"
  shows "open_fds h' = std_fds \<union> main_fds (lg\<lparr>lg_wf_fd := lr_val r\<rparr>) \<union> wf_fds (lg\<lparr>lg_wf_fd := lr_val r\<rparr>)
    \<and> main_fds (lg\<lparr>lg_wf_fd := lr_val r\<rparr>) \<inter> wf_fds (lg\<lparr>lg_wf_fd := lr_val r\<rparr>) = {} \<and> no_std (lr_val r)"
proof -
  have "open_fds h' = open_fds h \<union> own_fd (lr_val r) \<and> (lr_val r = - 1 \<or> lr_val r \<ge> 3 \<and> lr_val r \<notin> open_fds h)"
    by (rule open_adds [OF assms(1) _ assms(4)]) (use assms(2) in auto)
  then show ?thesis using assms(2,3) by (auto simp: main_fds_def wf_fds_def no_std_def)
qed

lemma reopen_wf_fds:
  assumes "fd_kernel_ok env" and "fds_held own h lg" and "lg_wf_flag lg"
    and "log_sys env h (Lg_open f) = (r, h1)"
    and "h' = (if lg_wf_fd lg \<noteq> 2 then log_do env h1 (Lg_close (lg_wf_fd lg)) else h1)"
  shows "fds_held own h' (lg\<lparr>lg_wf_fd := lr_val r\<rparr>)"
proof -
  note new = open_adds [OF assms(1) held_std [OF assms(2)] assms(4)]
  have wf: "no_std (lg_wf_fd lg)" using assms(2,3) by (simp add: fds_held_def log_mode_def)
  then have h': "open_fds h' = open_fds h \<union> own_fd (lr_val r) - {lg_wf_fd lg}"
    using assms(5) new by (auto simp: open_fds_do no_std_def)
  have acc: "open_fds h = std_fds \<union> main_fds lg \<union> own_fd (lg_wf_fd lg)" "main_fds lg \<inter> own_fd (lg_wf_fd lg) = {}"
    using assms(2,3) by (auto simp: fds_held_def wf_fds_def)
  have "open_fds h' = std_fds \<union> main_fds lg \<union> own_fd (lr_val r) \<and> main_fds lg \<inter> own_fd (lr_val r) = {}"
    using h' acc new wf by (auto simp: no_std_def main_fds_def)
  moreover have "log_mode own (lg\<lparr>lg_wf_fd := lr_val r\<rparr>)"
    using assms(2) new by (auto simp: fds_held_def log_mode_def no_std_def)
  ultimately show ?thesis using assms(3) by (simp add: fds_held_def main_fds_def wf_fds_def)
qed

text \<open>The main file of \<open>set_file_name\<close>.\<close>

definition set_main ::
  "log_env \<Rightarrow> log_history \<Rightarrow> logger \<Rightarrow> int \<Rightarrow> bool \<Rightarrow> logger \<times> log_history" where
  "set_main env h1 lg fd flag =
     (if \<not> flag
      then (lg, if fd \<noteq> lg_fd lg then log_do env (redirect env h1 lg fd) (Lg_close fd) else redirect env h1 lg fd)
      else (lg\<lparr>lg_fd := fd\<rparr>, if lg_name lg \<noteq> None then log_do env h1 (Lg_close (lg_fd lg)) else h1))"

text \<open>The flag fits the mode: a log on \<open>stderr\<close> stays there.\<close>

definition flag_fits :: "bool \<Rightarrow> logger \<Rightarrow> bool \<Rightarrow> bool" where
  "flag_fits own lg flag \<longleftrightarrow> (if lg_name lg = None then flag = own else flag \<longrightarrow> own)"

lemma set_main_fds:
  assumes "fd_kernel_ok env" and "fds_held own h lg" and "flag_fits own lg flag"
    and "log_sys env h (Lg_open f) = (r, h1)" and "set_main env h1 lg (lr_val r) flag = (lg1, h2)"
  shows "open_fds h2 = std_fds \<union> main_fds lg1 \<union> wf_fds lg1 \<and> main_fds lg1 \<inter> wf_fds lg1 = {}
    \<and> lg_wf_flag lg1 = lg_wf_flag lg \<and> lg_wf_fd lg1 = lg_wf_fd lg
    \<and> (if own then no_std (lg_fd lg1) else lg_fd lg1 = 2)"
proof (cases flag)
  case False
  have "open_fds h2 = open_fds h" and "lg1 = lg"
    using assms(5) False redirected [OF assms(1,2,4)] by (auto simp: set_main_def split: if_splits)
  moreover have "if own then no_std (lg_fd lg) else lg_fd lg = 2"
    using assms(2,3) False by (cases "lg_name lg") (auto simp: fds_held_def log_mode_def flag_fits_def)
  ultimately show ?thesis using assms(2) by (simp add: fds_held_def)
next
  case True
  note new = open_adds [OF assms(1) held_std [OF assms(2)] assms(4)]
  have lg1: "lg1 = lg\<lparr>lg_fd := lr_val r\<rparr>"
    and h2: "h2 = (if lg_name lg \<noteq> None then log_do env h1 (Lg_close (lg_fd lg)) else h1)"
    using assms(5) True by (auto simp: set_main_def)
  have own: own using assms(3) True by (auto simp: flag_fits_def split: if_splits)
  have fd: "lg_name lg = None \<longleftrightarrow> lg_fd lg = 2"
    using assms(2) own by (cases "lg_name lg") (auto simp: fds_held_def log_mode_def no_std_def)
  have "open_fds h2 = std_fds \<union> own_fd (lr_val r) \<union> wf_fds lg \<and> own_fd (lr_val r) \<inter> wf_fds lg = {}"
    by (rule replace_main [OF assms(2) conjunct2 [OF new]]) (use new fd in \<open>auto simp: h2 open_fds_do\<close>)
  then show ?thesis using new own by (auto simp: lg1 main_fds_def wf_fds_def no_std_def)
qed

lemma set_file_name_fds:
  assumes "fd_kernel_ok env" and "fds_held own h lg" and "flag_fits own lg flag"
    and "set_file_name env h lg filename flag open_wf = (lg', h')"
  shows "fds_held own h' lg'"
proof -
  obtain r h1 where op: "log_sys env h (Lg_open (Some (c_str filename))) = (r, h1)" by fastforce
  obtain lg1 h2 where main: "set_main env h1 lg (lr_val r) flag = (lg1, h2)" by fastforce
  note acc = set_main_fds [OF assms(1,2,3) op main]
  define h3 where "h3 = (if lg_wf_flag lg \<and> lg_name lg \<noteq> None then log_do env h2 (Lg_close (lg_wf_fd lg)) else h2)"
  define lg2 where "lg2 = lg1\<lparr>lg_name := Some (c_str filename), lg_flag := flag, lg_wf_flag := open_wf\<rparr>"
  have main2: "main_fds lg2 = main_fds lg1" by (simp add: lg2_def main_fds_def)
  have named: "lg_wf_flag lg \<Longrightarrow> lg_name lg \<noteq> None \<and> no_std (lg_wf_fd lg)"
    using assms(2) by (auto simp: fds_held_def log_mode_def)
  have h3: "open_fds h3 = std_fds \<union> main_fds lg2"
    using acc close_wf_fds [of h2 lg1 env] named by (auto simp: h3_def main2 wf_fds_def)
  have mode: "log_mode own (lg2\<lparr>lg_wf_fd := fd\<rparr>)" if "open_wf \<longrightarrow> no_std fd" for fd
    using that acc assms(3) by (auto simp: lg2_def log_mode_def flag_fits_def split: if_splits)
  have res: "(lg', h') = (if open_wf then let (r2, h4) = log_sys env h3 (Lg_open (Some (wf_name (c_str filename))))
      in (lg2\<lparr>lg_wf_fd := lr_val r2\<rparr>, h4) else (lg2, h3))"
    using assms(4) op main
    by (auto simp: set_file_name_def Let_def set_main_def redirect_def h3_def lg2_def split: if_splits prod.splits)
  show ?thesis
  proof (cases open_wf)
    case True
    then have wf: "lg_wf_flag lg2" by (simp add: lg2_def)
    obtain r2 h4 where "log_sys env h3 (Lg_open (Some (wf_name (c_str filename)))) = (r2, h4)" by fastforce
    then show ?thesis using open_wf_fds [OF assms(1) h3 wf] mode [of "lr_val r2"] res True
      by (simp add: fds_held_def)
  next
    case False
    then have "wf_fds lg2 = {}" "log_mode own lg2" using mode [of "lg_wf_fd lg2"] by (simp_all add: wf_fds_def lg2_def)
    then show ?thesis using res False h3 by (simp add: fds_held_def)
  qed
qed

lemma reopen_keeps:
  "reopen_log env h lg f = (lg', h') \<Longrightarrow>
   lg_wf_flag lg' = lg_wf_flag lg \<and> lg_wf_fd lg' = lg_wf_fd lg \<and> lg_name lg' = lg_name lg \<and> lg_flag lg' = lg_flag lg"
  by (auto simp: reopen_log_def log_sys_unfold Let_def split: if_splits)

lemma push_file_fds: "push_file env h n files f = (files', h') \<Longrightarrow> open_fds h' = open_fds h"
  by (auto simp: push_file_def open_fds_do split: if_splits)

text \<open>The two halves of \<open>rotate_log\<close>: the old files are renamed, then both are opened again.\<close>

definition rename_logs ::
  "log_env \<Rightarrow> log_history \<Rightarrow> logger \<Rightarrow> string \<Rightarrow> string option \<Rightarrow> fault + logger \<times> log_history" where
  "rename_logs env h1 lg f fmt =
     (let (d, h2) = log_sys env h1 (Lg_date fmt);
          old = f @ ''.'' @ lr_str d; old_wf = clip (wf_name f @ ''.'' @ lr_str d)
      in if length old \<ge> 256 then Inl OutOfBounds
         else let (files, h3) = (if max_file_index lg > 0
                    then push_file env h2 (max_file_index lg) (file_list lg) old else (file_list lg, h2));
                  h4 = log_do env h3 (Lg_rename f old);
                  (wfs, h5) = (if lg_wf_flag lg \<and> max_file_index lg > 0
                    then push_file env h4 (max_file_index lg) (wf_file_list lg) old_wf else (wf_file_list lg, h4));
                  h6 = log_do env h5 (Lg_rename (wf_name f) old_wf)
              in Inr (lg\<lparr>file_list := files, wf_file_list := wfs\<rparr>, h6))"

definition reopen_logs :: "log_env \<Rightarrow> logger \<Rightarrow> string option \<Rightarrow> logger \<times> log_history \<Rightarrow> logger \<times> log_history" where
  "reopen_logs env lg filename s =
     (let (lg2, h7) = reopen_log env (snd s) (fst s) filename
      in if lg_wf_flag lg
         then let (r8, h8) = log_sys env h7 (Lg_open (map_option wf_name filename));
                  h9 = (if lg_wf_fd lg \<noteq> 2 then log_do env h8 (Lg_close (lg_wf_fd lg)) else h8)
              in (lg2\<lparr>lg_wf_fd := lr_val r8\<rparr>, h9)
         else (lg2, h7))"

lemma rename_logs_fds:
  assumes "rename_logs env h1 lg f fmt = Inr (lg1, h6)"
  shows "open_fds h6 = open_fds h1 \<and> (\<exists>files wfs. lg1 = lg\<lparr>file_list := files, wf_file_list := wfs\<rparr>)"
proof -
  obtain d h2 where d: "log_sys env h1 (Lg_date fmt) = (d, h2)" by fastforce
  let ?old = "f @ ''.'' @ lr_str d" and ?old_wf = "clip (wf_name f @ ''.'' @ lr_str d)"
  obtain files h3 where p: "(if max_file_index lg > 0
      then push_file env h2 (max_file_index lg) (file_list lg) ?old else (file_list lg, h2)) = (files, h3)" by fastforce
  let ?h4 = "log_do env h3 (Lg_rename f ?old)"
  obtain wfs h5 where q: "(if lg_wf_flag lg \<and> max_file_index lg > 0
      then push_file env ?h4 (max_file_index lg) (wf_file_list lg) ?old_wf else (wf_file_list lg, ?h4)) = (wfs, h5)" by fastforce
  have "open_fds h2 = open_fds h1" using d by (auto simp: log_sys_unfold)
  moreover have "open_fds h3 = open_fds h2" using p push_file_fds by (auto split: if_splits)
  moreover have "open_fds h5 = open_fds ?h4" using q push_file_fds by (auto split: if_splits)
  moreover have "lg1 = lg\<lparr>file_list := files, wf_file_list := wfs\<rparr>" "h6 = log_do env h5 (Lg_rename (wf_name f) ?old_wf)"
    using assms unfolding rename_logs_def Let_def d p q prod.case by (auto split: if_splits)
  ultimately show ?thesis by (auto simp: open_fds_do)
qed

lemma reopen_logs_fds:
  assumes "fd_kernel_ok env" and "fds_held own h6 lg1" and "lg_wf_flag lg1 = lg_wf_flag lg" "lg_wf_fd lg1 = lg_wf_fd lg"
    and "reopen_logs env lg f (lg1, h6) = (lg', h')"
  shows "fds_held own h' lg'"
proof -
  obtain lg2 h7 where re: "reopen_log env h6 lg1 f = (lg2, h7)" by fastforce
  obtain r8 h8 where wf: "log_sys env h7 (Lg_open (map_option wf_name f)) = (r8, h8)" by fastforce
  have held: "fds_held own h7 lg2" by (rule reopen_log_fds [OF assms(1,2) re])
  have keep: "lg_wf_flag lg2 = lg_wf_flag lg" "lg_wf_fd lg2 = lg_wf_fd lg"
    using reopen_keeps [OF re] assms(3,4) by simp_all
  show ?thesis
    using assms(5) held reopen_wf_fds [OF assms(1) held _ wf refl]
    by (auto simp: reopen_logs_def re wf keep Let_def split: if_splits)
qed


lemma rotate_log_split:
  "rotate_log env h lg filename0 fmt =
     (let filename = (case filename0 of None \<Rightarrow> lg_name lg | Some f \<Rightarrow> Some (c_str f));
          h1 = log_do env h (Lg_access filename)
      in bind_err
           (if lr_val (env h (Lg_access filename)) = 0
            then (case filename of Some f \<Rightarrow> rename_logs env h1 lg f fmt | None \<Rightarrow> Inl NullPointer) else Inr (lg, h1))
           (\<lambda>s. Inr (reopen_logs env lg filename s)))"
  unfolding rotate_log_def rename_logs_def reopen_logs_def
  by (cases filename0; cases "lg_name lg")
    (simp_all add: Let_def log_sys_unfold log_do_def case_prod_beta' if_distrib [of Inr] cong: if_cong)

lemma rotate_log_fds:
  assumes "fd_kernel_ok env" and "fds_held own h lg" and "rotate_log env h lg filename0 fmt = Inr (lg', h')"
  shows "fds_held own h' lg'"
proof -
  define filename where "filename = (case filename0 of None \<Rightarrow> lg_name lg | Some f \<Rightarrow> Some (c_str f))"
  let ?h1 = "log_do env h (Lg_access filename)"
  have h1: "open_fds ?h1 = open_fds h" by (simp add: open_fds_do)
  obtain lg1 h6 where s: "(lg1, h6) = (lg, ?h1) \<or> (\<exists>f. rename_logs env ?h1 lg f fmt = Inr (lg1, h6))"
    and res: "reopen_logs env lg filename (lg1, h6) = (lg', h')"
    using assms(3) unfolding rotate_log_split filename_def [symmetric] Let_def
    by (auto simp: bind_err_Inr_iff split: if_splits option.splits)
  have "open_fds h6 = open_fds h \<and> (lg1 = lg \<or> (\<exists>files wfs. lg1 = lg\<lparr>file_list := files, wf_file_list := wfs\<rparr>))"
    using s rename_logs_fds h1 by blast
  then have h6: "open_fds h6 = open_fds h" and same: "lg_fd lg1 = lg_fd lg" "lg_wf_fd lg1 = lg_wf_fd lg"
      "lg_wf_flag lg1 = lg_wf_flag lg" "lg_flag lg1 = lg_flag lg" "lg_name lg1 = lg_name lg" by auto
  have "fds_held own h6 lg1" by (rule fds_held_cong [OF assms(2) h6 same])
  then show ?thesis using reopen_logs_fds [OF assms(1) _ same(3) same(2) res] by blast
qed


text \<open>The end of a message: the line is written, and the file rotated when it has grown too long.\<close>

definition write_line :: "log_env \<Rightarrow> log_history \<Rightarrow> logger \<Rightarrow> int \<Rightarrow> string list \<Rightarrow> fault + logger \<times> log_history" where
  "write_line env h2 lg1 level vec =
     (let h3 = log_do env h2 (Lg_writev (lg_fd lg1) vec);
          h4 = (if lg_wf_flag lg1 \<and> level \<le> lg_wf_level lg1 then log_do env h3 (Lg_writev (lg_wf_fd lg1) vec) else h3)
      in if max_file_size lg1 \<noteq> 0
         then let (r, h5) = log_sys env h4 (Lg_lseek (lg_fd lg1))
              in if lr_val r \<ge> 0 \<and> lr_val r \<ge> max_file_size lg1 then rotate_log env h5 lg1 None None
                 else Inr (lg1, h5)
         else Inr (lg1, h4))"

lemma write_line_fds:
  assumes "fd_kernel_ok env" and "fds_held own h2 lg1" and "write_line env h2 lg1 level vec = Inr (lg', h')"
  shows "fds_held own h' lg'"
proof -
  define h4 where "h4 = (let h3 = log_do env h2 (Lg_writev (lg_fd lg1) vec)
    in if lg_wf_flag lg1 \<and> level \<le> lg_wf_level lg1 then log_do env h3 (Lg_writev (lg_wf_fd lg1) vec) else h3)"
  have h4: "open_fds h4 = open_fds h2" by (simp add: h4_def Let_def open_fds_do)
  obtain r h5 where seek: "log_sys env h4 (Lg_lseek (lg_fd lg1)) = (r, h5)" by fastforce
  then have "h5 = log_do env h4 (Lg_lseek (lg_fd lg1))" by (simp add: log_do_def)
  then have h5: "open_fds h5 = open_fds h2" by (simp add: open_fds_do h4)
  have *: "write_line env h2 lg1 level vec = (if max_file_size lg1 \<noteq> 0
      then (if lr_val r \<ge> 0 \<and> lr_val r \<ge> max_file_size lg1 then rotate_log env h5 lg1 None None else Inr (lg1, h5))
      else Inr (lg1, h4))"
    unfolding write_line_def h4_def [symmetric, unfolded Let_def] Let_def seek prod.case by (rule refl)
  have "(lg', h') = (lg1, h4) \<or> (lg', h') = (lg1, h5) \<or> rotate_log env h5 lg1 None None = Inr (lg', h')"
    using assms(3) unfolding *
    by (simp only: split: if_splits) auto
  moreover have "fds_held own h4 lg1" "fds_held own h5 lg1"
    using fds_held_cong [OF assms(2)] h4 h5 by simp_all
  ultimately show ?thesis using rotate_log_fds [OF assms(1)] by blast
qed

lemma log_message_fds:
  assumes "fd_kernel_ok env" and "fds_held own h lg"
    and "log_message env h lg level file line func tid msg = Inr (lg', h')"
  shows "fds_held own h' lg'"
proof (cases "level > lg_level lg")
  case True
  then show ?thesis using assms(2,3) by (simp add: log_message_def)
next
  case False
  obtain lg1 h1 where pre: "(case lg_name lg of
        Some name \<Rightarrow> if lg_check lg \<noteq> 0 then check_file env h lg name else (lg, h) | None \<Rightarrow> (lg, h)) = (lg1, h1)"
    by fastforce
  obtain now h2 where now: "log_sys env h1 Lg_now = (now, h2)" by fastforce
  have held: "fds_held own h1 lg1"
    using pre assms(1,2) check_file_fds by (auto split: option.splits if_splits)
  have "h2 = log_do env h1 Lg_now" by (simp add: log_do_def now)
  then have h2: "open_fds h2 = open_fds h1" by (simp add: open_fds_do)
  have "bind_err (strip_newlines msg) (\<lambda>body. if level < 0 \<or> level \<ge> int (length errstr) then Inl OutOfBounds
      else bind_err (head_bytes (head_text (lr_str now) level file line func tid)) (\<lambda>hd.
        write_line env h2 lg1 level [hd, body, [newline]])) = Inr (lg', h')"
    using assms(3) False unfolding log_message_def write_line_def pre now prod.case Let_def by simp
  then obtain body where "(if level < 0 \<or> level \<ge> int (length errstr) then Inl OutOfBounds
      else bind_err (head_bytes (head_text (lr_str now) level file line func tid)) (\<lambda>hd.
        write_line env h2 lg1 level [hd, body, [newline]])) = Inr (lg', h')"
    by (auto simp only: bind_err_Inr_iff)
  then obtain hd where "write_line env h2 lg1 level [hd, body, [newline]] = Inr (lg', h')"
    by (auto simp: bind_err_Inr_iff split: if_splits)
  then show ?thesis using write_line_fds [OF assms(1)] fds_held_cong [OF held h2] by blast
qed


section \<open>Sequences of calls\<close>

datatype log_op =
    Op_name string bool bool
  | Op_level "string option" "string option"
  | Op_check int
  | Op_size int
  | Op_index int
  | Op_rotate "string option" "string option"
  | Op_message int string int string int string

fun log_apply :: "log_env \<Rightarrow> log_op \<Rightarrow> logger \<times> log_history \<Rightarrow> fault + logger \<times> log_history" where
  "log_apply env (Op_name f flag w) (lg, h) = Inr (set_file_name env h lg f flag w)"
| "log_apply env (Op_level l w) (lg, h) = Inr (set_log_level lg l w, h)"
| "log_apply env (Op_check v) (lg, h) = Inr (set_check lg v, h)"
| "log_apply env (Op_size n) (lg, h) = Inr (set_max_file_size lg n, h)"
| "log_apply env (Op_index n) (lg, h) = Inr (set_max_file_index lg n, h)"
| "log_apply env (Op_rotate f d) (lg, h) = rotate_log env h lg f d"
| "log_apply env (Op_message level file line func tid msg) (lg, h) = log_message env h lg level file line func tid msg"

fun log_run :: "log_env \<Rightarrow> log_op list \<Rightarrow> logger \<times> log_history \<Rightarrow> fault + logger \<times> log_history" where
  "log_run env [] s = Inr s"
| "log_run env (p # ps) s = bind_err (log_apply env p s) (log_run env ps)"

lemma settings_fds:
  "fds_held own h lg \<Longrightarrow> fds_held own h (set_log_level lg l w)"
  "fds_held own h lg \<Longrightarrow> fds_held own h (set_check lg v)"
  "fds_held own h lg \<Longrightarrow> fds_held own h (set_max_file_size lg n)"
  "fds_held own h lg \<Longrightarrow> fds_held own h (set_max_file_index lg n)"
  by (rule fds_held_cong;
      auto simp: set_log_level_def set_check_def set_max_file_size_def set_max_file_index_def Let_def split: option.splits)+

text \<open>Only \<open>set_file_name\<close> sets the name.\<close>

lemma rotate_log_name: "rotate_log env h lg f fmt = Inr (lg', h') \<Longrightarrow> lg_name lg' = lg_name lg"
  unfolding rotate_log_split Let_def
  by (auto simp: bind_err_Inr_iff reopen_logs_def log_sys_unfold Let_def dest!: reopen_keeps rename_logs_fds
      split: if_splits option.splits prod.splits)

lemma log_message_name:
  "log_message env h lg level file line func tid msg = Inr (lg', h') \<Longrightarrow> lg_name lg' = lg_name lg"
  unfolding log_message_def check_file_def Let_def
  by (auto simp: bind_err_Inr_iff log_sys_unfold dest!: rotate_log_name reopen_keeps
      split: if_splits option.splits prod.splits)

lemma settings_name:
  "lg_name (set_log_level lg l w) = lg_name lg" "lg_name (set_check lg v) = lg_name lg"
  "lg_name (set_max_file_size lg n) = lg_name lg" "lg_name (set_max_file_index lg i) = lg_name lg"
  by (auto simp: set_log_level_def set_check_def set_max_file_size_def set_max_file_index_def Let_def split: option.splits)

lemma set_file_name_name: "set_file_name env h lg f flag w = (lg', h') \<Longrightarrow> lg_name lg' \<noteq> None"
  by (auto simp: set_file_name_def log_sys_unfold Let_def split: if_splits)

text \<open>
  The \<open>flag\<close> arguments of a sequence of calls. The condition on them: a log that was first put on
  \<open>stderr\<close>, by \<open>set_file_name\<close> without \<open>flag\<close>, is not moved to a file of its own later.
\<close>

fun op_flag :: "log_op \<Rightarrow> bool list" where
  "op_flag (Op_name f flag w) = [flag]"
| "op_flag _ = []"

definition name_flags :: "log_op list \<Rightarrow> bool list" where
  "name_flags ps = concat (map op_flag ps)"

definition keeps_stderr :: "log_op list \<Rightarrow> bool" where
  "keeps_stderr ps \<longleftrightarrow> (case name_flags ps of [] \<Rightarrow> True | b # bs \<Rightarrow> b \<or> True \<notin> set bs)"

definition flags_fit :: "bool \<Rightarrow> logger \<Rightarrow> bool list \<Rightarrow> bool" where
  "flags_fit own lg bs \<longleftrightarrow> (case bs of [] \<Rightarrow> True | b # bs' \<Rightarrow> flag_fits own lg b \<and> (True \<in> set bs' \<longrightarrow> own))"

lemma flags_fit_step:
  "flags_fit own lg (b # bs) \<Longrightarrow> flag_fits own lg b"
  "flags_fit own lg (b # bs) \<Longrightarrow> lg_name lg' \<noteq> None \<Longrightarrow> flags_fit own lg' bs"
  "flags_fit own lg bs \<Longrightarrow> lg_name lg' = lg_name lg \<Longrightarrow> flags_fit own lg' bs"
  by (auto simp: flags_fit_def flag_fits_def split: list.splits)

lemma log_apply_fds:
  assumes "fd_kernel_ok env" and "fds_held own h lg" and "log_apply env p (lg, h) = Inr (lg', h')"
    and "flags_fit own lg (op_flag p @ bs)"
  shows "fds_held own h' lg' \<and> flags_fit own lg' bs"
proof (cases p)
  case (Op_name f flag w)
  then have "set_file_name env h lg f flag w = (lg', h')" "flags_fit own lg (flag # bs)" using assms(3,4) by simp_all
  then show ?thesis using set_file_name_fds [OF assms(1,2) flags_fit_step(1)] flags_fit_step(2) set_file_name_name
    by (metis (no_types))
next
  case (Op_rotate f d)
  then have "rotate_log env h lg f d = Inr (lg', h')" "flags_fit own lg bs" using assms(3,4) by simp_all
  then show ?thesis using rotate_log_fds [OF assms(1,2)] rotate_log_name flags_fit_step(3) by blast
next
  case (Op_message level src line func tid msg)
  then have "log_message env h lg level src line func tid msg = Inr (lg', h')" "flags_fit own lg bs"
    using assms(3,4) by simp_all
  then show ?thesis using log_message_fds [OF assms(1,2)] flags_fit_step(3) [OF _ log_message_name]
    by (metis (no_types))
qed (use assms(3,4) settings_fds [OF assms(2)] settings_name flags_fit_step(3) in auto)

lemma log_run_fds:
  "fd_kernel_ok env \<Longrightarrow> fds_held own h lg \<Longrightarrow> flags_fit own lg (name_flags ps) \<Longrightarrow>
   log_run env ps (lg, h) = Inr (lg', h') \<Longrightarrow> fds_held own h' lg'"
proof (induction ps arbitrary: lg h)
  case (Cons p ps)
  then obtain lg1 h1 where "log_apply env p (lg, h) = Inr (lg1, h1)" "log_run env ps (lg1, h1) = Inr (lg', h')"
    by (auto simp: bind_err_Inr_iff)
  moreover have "flags_fit own lg (op_flag p @ name_flags ps)" using Cons.prems(3) by (simp add: name_flags_def)
  ultimately show ?case using Cons log_apply_fds by blast
qed simp

text \<open>The destructor closes the files; a log on \<open>stderr\<close> takes that descriptor with it.\<close>

lemma logger_destroy_fds:
  assumes "fds_held own h lg"
  shows "open_fds (logger_destroy env h lg) = (if lg_name lg \<noteq> None \<and> lg_fd lg = 2 then std_fds - {2} else std_fds)"
proof (cases "lg_name lg")
  case None
  then show ?thesis using assms by (simp add: fds_held_def log_mode_def logger_destroy_def main_fds_def wf_fds_def)
next
  case (Some name)
  then have fd: "lg_fd lg = 2 \<or> no_std (lg_fd lg)" and wf: "lg_wf_flag lg \<Longrightarrow> no_std (lg_wf_fd lg)"
    using assms by (auto simp: fds_held_def log_mode_def split: if_splits)
  have acc: "open_fds h = std_fds \<union> main_fds lg \<union> wf_fds lg" "main_fds lg \<inter> wf_fds lg = {}"
    using assms by (simp_all add: fds_held_def)
  define h1 where "h1 = log_do env h (Lg_close (lg_fd lg))"
  have h1: "open_fds h1 = (if lg_fd lg = 2 then std_fds - {2} else std_fds) \<union> wf_fds lg"
    using acc fd by (auto simp: h1_def open_fds_do main_fds_def wf_fds_def no_std_def split: if_splits)
  show ?thesis
  proof (cases "lg_wf_flag lg")
    case True
    then show ?thesis using Some h1 wf
      by (auto simp: logger_destroy_def h1_def [symmetric] open_fds_do wf_fds_def no_std_def Let_def)
  next
    case False
    then show ?thesis using Some h1 by (simp add: logger_destroy_def h1_def [symmetric] wf_fds_def Let_def)
  qed
qed

lemma logger_make_held: "fds_held own [] logger_make"
  by (auto simp: fds_held_def logger_make_def main_fds_def wf_fds_def log_mode_def)

text \<open>
  C14: The logger owns its descriptors. A kernel starts with descriptors 0, 1 and 2 open, and
  answers every \<open>open\<close> with -1 or with a descriptor that is not open, such as the lowest one. Take
  any sequence of calls of the class from construction on (\<open>set_file_name\<close> in its four modes,
  settings, rotation, messages with the checks and rotations they bring), failed opens and failed
  \<open>dup2\<close> calls included, where no call ran outside a buffer and a log first put on \<open>stderr\<close> is not
  moved to a file of its own later. Then the descriptors that are open are exactly 0, 1, 2, the one
  of the log's own file and, when the file of warnings is in use, that one, which is a different one:
  no rotation and no change of files leaks a descriptor or closes a standard one. The destructor
  leaves exactly the standard ones, less descriptor 2 when the log was on \<open>stderr\<close>, which it closes.
  \<open>redirected_log_leaks\<close> below shows that the condition is needed: once such a log is moved,
  \<open>set_file_name\<close> closes descriptor 2, a later \<open>open\<close> returns 2, and \<open>rotate_log\<close> does not close it.
\<close>

theorem logger_descriptors:
  assumes "fd_kernel_ok env" and "keeps_stderr ps" and "log_run env ps (logger_make, []) = Inr (lg, h)"
  shows "open_fds h = {0, 1, 2} \<union> main_fds lg \<union> wf_fds lg \<and> main_fds lg \<inter> wf_fds lg = {}
    \<and> open_fds (logger_destroy env h lg) = (if lg_name lg \<noteq> None \<and> lg_fd lg = 2 then {0, 1} else {0, 1, 2})"
proof -
  have "flags_fit (case name_flags ps of [] \<Rightarrow> True | b # bs \<Rightarrow> b) logger_make (name_flags ps)"
    using assms(2) by (auto simp: flags_fit_def flag_fits_def keeps_stderr_def logger_make_def split: list.splits)
  then obtain own where held: "fds_held own h lg"
    using log_run_fds [OF assms(1) logger_make_held _ assms(3)] by blast
  have "std_fds - {2} = {0, 1}" by (auto simp: std_fds_def)
  then show ?thesis using held logger_destroy_fds [OF held] unfolding fds_held_def std_fds_def by presburger
qed

text \<open>A kernel that hands out the lowest free descriptor, as POSIX says, with a log file past its bound.\<close>

definition lowest_free :: "log_history \<Rightarrow> int" where
  "lowest_free h = hd (filter (\<lambda>n. n \<notin> open_fds h) (map int [0..<length h + 4]))"

definition posix_kernel :: log_env where
  "posix_kernel h c = \<lparr>lr_val = (case c of Lg_open _ \<Rightarrow> lowest_free h | Lg_lseek _ \<Rightarrow> 0x7FFFFFFF | _ \<Rightarrow> 0),
     lr_enoent = False, lr_ids = (0, 0), lr_str = ''20240101''\<rparr>"

lemma few_open: "finite (open_fds h) \<and> card (open_fds h) \<le> length h + 3"
proof (induction h rule: rev_induct)
  case Nil
  show ?case by (simp add: std_fds_def)
next
  case (snoc e h)
  have "finite (insert x S) \<and> card (insert x S) \<le> Suc n" "finite (S - {x}) \<and> card (S - {x}) \<le> Suc n"
    if "finite S \<and> card S \<le> n" for x :: int and S n
    using that by (auto simp: card_insert_if intro: le_trans [OF card_Diff1_le])
  note step = this [OF snoc.IH]
  with snoc show ?case by (cases "(open_fds h, e)" rule: fds_after.cases) (auto simp: add.commute [of 4])
qed

lemma posix_kernel_ok: "fd_kernel_ok posix_kernel"
proof -
  have "lowest_free h \<ge> 0 \<and> lowest_free h \<notin> open_fds h" for h
  proof -
    let ?c = "map int [0..<length h + 4]"
    have "\<not> set ?c \<subseteq> open_fds h"
    proof
      assume sub: "set ?c \<subseteq> open_fds h"
      have "card (set ?c) = length h + 4" by (simp add: card_image)
      then show False using card_mono [OF _ sub] few_open [of h] by simp
    qed
    then have "filter (\<lambda>n. n \<notin> open_fds h) ?c \<noteq> []" by (auto simp: filter_empty_conv)
    then have "lowest_free h \<in> set (filter (\<lambda>n. n \<notin> open_fds h) ?c)" unfolding lowest_free_def by (rule hd_in_set)
    then show ?thesis by auto
  qed
  then show ?thesis by (simp add: fd_kernel_ok_def posix_kernel_def Let_def)
qed

lemma logger_descriptors_witness:
  "\<exists>lg h. log_run posix_kernel
      [Op_name ''/l'' True True, Op_message 1 ''f'' 7 ''g'' 42 ''m'', Op_name ''/k'' True False] (logger_make, []) = Inr (lg, h)
    \<and> open_fds h = {0, 1, 2, 4} \<and> open_fds (logger_destroy posix_kernel h lg) = {0, 1, 2}"
proof -
  let ?ps = "[Op_name ''/l'' True True, Op_message 1 ''f'' 7 ''g'' 42 ''m'', Op_name ''/k'' True False]"
  have ok: "case log_run posix_kernel ?ps (logger_make, []) of Inl _ \<Rightarrow> False | Inr (lg, h) \<Rightarrow> lg_fd lg = 4 \<and> \<not> lg_wf_flag lg"
    by code_simp
  have "keeps_stderr ?ps" by code_simp
  moreover from ok obtain lg h where run: "log_run posix_kernel ?ps (logger_make, []) = Inr (lg, h)" "lg_fd lg = 4" "\<not> lg_wf_flag lg"
    by (auto split: sum.splits)
  ultimately show ?thesis using logger_descriptors [OF posix_kernel_ok _ run(1)] by (auto simp: main_fds_def wf_fds_def)
qed

text \<open>
  A log moved from \<open>stderr\<close> to a file of its own: descriptor 2 is closed. Two rotations later it is
  open on an old log file, and neither the logger nor its destructor closes it.
\<close>

lemma redirected_log_leaks:
  "case log_run posix_kernel [Op_name ''/l'' False False, Op_name ''/l'' True False] (logger_make, []) of
     Inl _ \<Rightarrow> False | Inr (lg, h) \<Rightarrow> lg_fd lg = 3 \<and> open_fds h = {0, 1, 3}"
  "case log_run posix_kernel [Op_name ''/l'' False False, Op_name ''/l'' True False, Op_rotate None None, Op_rotate None None]
      (logger_make, []) of
     Inl _ \<Rightarrow> False
   | Inr (lg, h) \<Rightarrow> lg_fd lg = 3 \<and> open_fds h = {0, 1, 2, 3} \<and> open_fds (logger_destroy posix_kernel h lg) = {0, 1, 2}"
  by code_simp+

end
