(* ===== verification/Log_Macros.thy ===== *)
theory Log_Macros
  imports Logger_Fds
begin

text \<open>
  The macros of \<open>log.h\<close>, through which the other components write messages: a level is tested before
  anything is evaluated, and only the six levels of \<open>log_base.h\<close> reach \<open>log_message\<close>.
\<close>

section \<open>Levels\<close>

datatype log_level = LL_error | LL_user_error | LL_warn | LL_info | LL_trace | LL_debug

fun level_number :: "log_level \<Rightarrow> int" where
  "level_number LL_error = 0"
| "level_number LL_user_error = 1"
| "level_number LL_warn = 2"
| "level_number LL_info = 3"
| "level_number LL_trace = 4"
| "level_number LL_debug = 5"

lemma level_number_bounds: "0 \<le> level_number l \<and> level_number l < int (length errstr)"
  by (cases l) (simp_all add: errstr_def)

lemma find_level_names: "find_level (errstr ! nat (level_number l)) errstr 0 = Some (level_number l)"
  by (cases l; simp only: level_number.simps; code_simp)

text \<open>Setting the level by the name of a level lets its messages pass, and those before it.\<close>

lemma set_log_level_name:
  "set_log_level lg (Some (errstr ! nat (level_number l))) None = lg\<lparr>lg_level := level_number l\<rparr>"
  by (simp add: set_log_level_def find_level_names)

text \<open>\<open>USER_ERROR\<close>, the name in the macros, is not a name \<open>set_log_level\<close> knows: its table has \<open>USER_ERR\<close>.\<close>

lemma user_error_unknown: "set_log_level lg (Some ''USER_ERROR'') None = lg"
proof -
  have "find_level ''USER_ERROR'' errstr 0 = None" by code_simp
  then show ?thesis by (simp add: set_log_level_def)
qed

section \<open>Macros\<close>

definition log_base ::
  "log_env \<Rightarrow> log_history \<Rightarrow> logger \<Rightarrow> log_level \<Rightarrow> string \<Rightarrow> int \<Rightarrow> string \<Rightarrow> int \<Rightarrow> string \<Rightarrow> fault + logger \<times> log_history" where
  "log_base env h lg l file line func tid msg =
     (if level_number l > lg_level lg then Inr (lg, h)
      else log_message env h lg (level_number l) file line func tid msg)"

definition log_macro ::
  "log_env \<Rightarrow> log_history \<Rightarrow> logger \<Rightarrow> log_level \<Rightarrow> string \<Rightarrow> int \<Rightarrow> string \<Rightarrow> int \<Rightarrow> string \<Rightarrow> fault + logger \<times> log_history" where
  "log_macro env h lg l file line func tid msg =
     (if level_number l > lg_level lg then Inr (lg, h) else log_base env h lg l file line func tid msg)"

definition get_cur_tv :: "log_env \<Rightarrow> log_history \<Rightarrow> (nat \<times> nat) \<times> log_history" where
  "get_cur_tv env h = (let (r, h1) = log_sys env h Lg_gettimeofday in (lr_ids r, h1))"

text \<open>
  \<open>LOG_US\<close> asks for the time twice, once for the seconds and once for the microseconds, in an order that
  C++ leaves to the compiler: \<open>sec_first\<close>.
\<close>

definition log_us ::
  "bool \<Rightarrow> log_env \<Rightarrow> log_history \<Rightarrow> logger \<Rightarrow> log_level \<Rightarrow> string \<Rightarrow> int \<Rightarrow> string \<Rightarrow> int \<Rightarrow> string
     \<Rightarrow> fault + logger \<times> log_history" where
  "log_us sec_first env h lg l file line func tid msg =
     (if level_number l > lg_level lg then Inr (lg, h)
      else let (tv1, h1) = get_cur_tv env h; (tv2, h2) = get_cur_tv env h1;
               sec = fst (if sec_first then tv1 else tv2); usec = snd (if sec_first then tv2 else tv1)
           in log_base env h2 lg l file line func tid
                (''['' @ dec_int tid @ ''][''  @ dec_int (int sec) @ ''][''  @ dec_int (int usec) @ ''] '' @ msg))"

section \<open>Facts\<close>

lemma log_base_message: "log_base env h lg l file line func tid msg = log_message env h lg (level_number l) file line func tid msg"
  by (simp add: log_base_def log_message_def)

lemma log_macro_message: "log_macro env h lg l file line func tid msg = log_message env h lg (level_number l) file line func tid msg"
  by (simp add: log_macro_def log_base_message log_message_def)

text \<open>A level that is off costs nothing: no call is made, not even of the clock.\<close>

lemma log_us_quiet: "level_number l > lg_level lg \<Longrightarrow> log_us b env h lg l file line func tid msg = Inr (lg, h)"
  by (simp add: log_us_def)

text \<open>Microseconds are put in front of a message that is never empty and never newlines only.\<close>

lemma log_us_stamp_body:
  "\<exists>body. strip_newlines (''['' @ t @ msg) = Inr body"
  by (cases "strip_newlines (''['' @ t @ msg)") (auto simp: strip_newlines_fault newline_def)

lemma log_macro_fds:
  assumes "fd_kernel_ok env" and "fds_held own h lg"
  shows "log_macro env h lg l file line func tid msg = Inr (lg', h') \<Longrightarrow> fds_held own h' lg'"
    and "log_us b env h lg l file line func tid msg = Inr (lg', h') \<Longrightarrow> fds_held own h' lg'"
proof -
  show "log_macro env h lg l file line func tid msg = Inr (lg', h') \<Longrightarrow> fds_held own h' lg'"
    unfolding log_macro_message by (rule log_message_fds [OF assms])
  let ?h1 = "log_do env h Lg_gettimeofday"
  have "fds_held own (log_do env ?h1 Lg_gettimeofday) lg"
    by (rule fds_held_cong [OF assms(2)]) (simp_all add: open_fds_do)
  moreover have "snd (get_cur_tv env h') = log_do env h' Lg_gettimeofday" for h'
    by (simp add: get_cur_tv_def log_do_def split_beta Let_def)
  ultimately show "log_us b env h lg l file line func tid msg = Inr (lg', h') \<Longrightarrow> fds_held own h' lg'"
    using log_message_fds [OF assms(1)] assms(2)
    by (auto simp: log_us_def log_base_message split_beta Let_def split: if_splits)
qed

text \<open>
  The two readings may fall into different seconds. Here the clock goes from 30 microseconds to
  a second and 10, and the stamp says 10 microseconds, which is before both.
\<close>

definition second_boundary :: log_env where
  "second_boundary h c = \<lparr>lr_val = 0, lr_enoent = False,
     lr_ids = (case h of [] \<Rightarrow> (0, 30) | _ \<Rightarrow> (1, 10)), lr_str = ''now''\<rparr>"

fun written :: "log_call \<times> log_ret \<Rightarrow> (int \<times> string list) list" where
  "written (Lg_writev fd vec, r) = [(fd, tl vec)]"
| "written (_, r) = []"

lemma log_us_stamp_skewed:
  "map_sum id (\<lambda>(lg, h). concat (map written h)) (log_us True second_boundary [] logger_make LL_warn ''f'' 7 ''g'' 42 ''m'')
   = Inr [(2, [''[42][0][10] m'', [newline]])]"
  by code_simp

end
