(* ===== verification/Logger_Threads.thy ===== *)
theory Logger_Threads
  imports Logger
begin

text \<open>
  \<open>Logger::log_message\<close> of \<open>log_base.cpp\<close> in any number of threads: the line is written to \<open>_fd\<close> without
  a lock; then, under \<open>_fileSizeMutex\<close>, the length of the file is looked at and the file rotated. A
  step is a system call or an access to \<open>_fd\<close> or the mutex; a message without text is not written, and only
  looked after. The kernel keeps a directory, the lines of every file, and the table of descriptors; a file is
  known by its inode. With \<open>may_fail\<close>, a file need not be opened and a write on an open descriptor may be
  refused. The file of warnings is closed, \<open>check\<close> is off, only \<open>log_message\<close> rotates, and \<open>writev\<close>
  appends a line whole or not at all. Nothing else changes the directory, so \<open>unlink\<close> and \<open>rename\<close> of files that
  are there succeed, and since only the thread that has the mutex uses names, \<open>access\<close>, \<open>unlink\<close> and
  \<open>rename\<close> are one step.
\<close>

section \<open>Steps\<close>

datatype log_point =
    LP_idle
  | LP_write int string
  | LP_lock
  | LP_seek
  | LP_access
  | LP_open
  | LP_dup int
  | LP_dup_out int
  | LP_dup_err int
  | LP_close int
  | LP_close_old int
  | LP_set int
  | LP_unlock

text \<open>The last four fields are ghosts: lines written, lines refused for a closed descriptor, files opened, files renamed, in order.\<close>

record log_threads =
  directory :: "string \<rightharpoonup> nat"
  contents :: "nat \<Rightarrow> string list"
  fd_table :: "int \<rightharpoonup> nat"
  shared_log :: logger
  size_mutex :: "nat option"
  points :: "nat \<Rightarrow> log_point"
  appended :: "string list"
  refused :: "string list"
  generations :: "nat list"
  archive :: "(string \<times> nat) list"

definition at_point :: "log_threads \<Rightarrow> nat \<Rightarrow> log_point \<Rightarrow> log_threads" where
  "at_point s t p = s\<lparr>points := (points s)(t := p)\<rparr>"

definition log_fd :: "log_threads \<Rightarrow> int" where
  "log_fd s = lg_fd (shared_log s)"

definition file_length :: "string list \<Rightarrow> int" where
  "file_length ls = int (length (concat ls))"

text \<open>The file has reached \<open>_maxFileSize\<close>.\<close>

definition long_file :: "log_threads \<Rightarrow> nat \<Rightarrow> bool" where
  "long_file s i \<longleftrightarrow> max_file_size (shared_log s) \<le> file_length (contents s i)"

definition after_write :: "log_threads \<Rightarrow> log_point" where
  "after_write s = (if max_file_size (shared_log s) \<noteq> 0 then LP_lock else LP_idle)"

definition after_seek :: "log_threads \<Rightarrow> log_point" where
  "after_seek s = (case fd_table s (log_fd s) of
     Some i \<Rightarrow> if long_file s i then LP_access else LP_unlock | None \<Rightarrow> LP_unlock)"

definition dup_fd :: "(int \<rightharpoonup> nat) \<Rightarrow> int \<Rightarrow> int \<Rightarrow> (int \<rightharpoonup> nat)" where
  "dup_fd m a b = (case m a of Some i \<Rightarrow> m(b \<mapsto> i) | None \<Rightarrow> m)"

text \<open>The list of kept files makes room, and the file gets its old name.\<close>

definition archive_file :: "log_threads \<Rightarrow> string \<Rightarrow> nat \<Rightarrow> string \<Rightarrow> log_threads" where
  "archive_file s f i old =
     (let lg = shared_log s; files = file_list lg; n = max_file_index lg; full = (n > 0 \<and> length files \<ge> n);
          d = (if full then (directory s)(hd files := None) else directory s);
          files' = (if n = 0 then files else if full then tl files @ [old] else files @ [old])
      in s\<lparr>shared_log := lg\<lparr>file_list := files'\<rparr>, directory := (d(f := None))(old \<mapsto> i),
           archive := archive s @ [(old, i)]\<rparr>)"

definition old_name :: "string \<Rightarrow> string \<Rightarrow> string" where
  "old_name f date = f @ ''.'' @ date"

definition date_ok :: "string \<Rightarrow> string \<Rightarrow> bool" where
  "date_ok f date \<longleftrightarrow> list_all is_digit date \<and> length (old_name f date) < 256"

inductive log_thread_step :: "bool \<Rightarrow> log_threads \<Rightarrow> log_threads \<Rightarrow> bool" for may_fail where
  lt_call: "points s t = LP_idle \<Longrightarrow> log_thread_step may_fail s (at_point s t (LP_write (log_fd s) line))"
| lt_write: "points s t = LP_write fd line \<Longrightarrow> fd_table s fd = Some i \<Longrightarrow>
    log_thread_step may_fail s ((at_point s t (after_write s))
      \<lparr>contents := (contents s)(i := contents s i @ [line]), appended := appended s @ [line]\<rparr>)"
| lt_refused: "points s t = LP_write fd line \<Longrightarrow> fd_table s fd = None \<Longrightarrow>
    log_thread_step may_fail s ((at_point s t (after_write s))\<lparr>refused := refused s @ [line]\<rparr>)"
| lt_empty: "points s t = LP_idle \<Longrightarrow> log_thread_step may_fail s (at_point s t (after_write s))"
| lt_write_failed: "points s t = LP_write fd line \<Longrightarrow> may_fail \<Longrightarrow> log_thread_step may_fail s (at_point s t (after_write s))"
| lt_lock: "points s t = LP_lock \<Longrightarrow> size_mutex s = None \<Longrightarrow>
    log_thread_step may_fail s ((at_point s t LP_seek)\<lparr>size_mutex := Some t\<rparr>)"
| lt_seek: "points s t = LP_seek \<Longrightarrow> log_thread_step may_fail s (at_point s t (after_seek s))"
| lt_missing: "points s t = LP_access \<Longrightarrow> lg_name (shared_log s) = Some f \<Longrightarrow> directory s f = None \<Longrightarrow>
    log_thread_step may_fail s (at_point s t LP_open)"
| lt_rename: "points s t = LP_access \<Longrightarrow> lg_name (shared_log s) = Some f \<Longrightarrow> directory s f = Some i \<Longrightarrow>
    date_ok f date \<Longrightarrow> log_thread_step may_fail s (archive_file (at_point s t LP_open) f i (old_name f date))"
| lt_open: "points s t = LP_open \<Longrightarrow> lg_name (shared_log s) = Some f \<Longrightarrow> directory s f = Some i \<Longrightarrow>
    fd \<ge> 0 \<Longrightarrow> fd_table s fd = None \<Longrightarrow>
    log_thread_step may_fail s ((at_point s t (if lg_flag (shared_log s) then LP_close_old fd else LP_dup fd))
      \<lparr>fd_table := (fd_table s)(fd \<mapsto> i)\<rparr>)"
| lt_create: "points s t = LP_open \<Longrightarrow> lg_name (shared_log s) = Some f \<Longrightarrow> directory s f = None \<Longrightarrow>
    i \<notin> set (generations s) \<union> ran (directory s) \<union> ran (fd_table s) \<Longrightarrow> contents s i = [] \<Longrightarrow> fd \<ge> 0 \<Longrightarrow> fd_table s fd = None \<Longrightarrow>
    log_thread_step may_fail s ((at_point s t (if lg_flag (shared_log s) then LP_close_old fd else LP_dup fd))
      \<lparr>directory := (directory s)(f \<mapsto> i), fd_table := (fd_table s)(fd \<mapsto> i), generations := generations s @ [i]\<rparr>)"
| lt_open_failed: "points s t = LP_open \<Longrightarrow> may_fail \<Longrightarrow>
    log_thread_step may_fail s (at_point s t (if lg_flag (shared_log s) then LP_close_old (- 1) else LP_dup (- 1)))"
| lt_dup: "points s t = LP_dup fd \<Longrightarrow>
    log_thread_step may_fail s ((at_point s t (LP_dup_out fd))\<lparr>fd_table := dup_fd (fd_table s) fd (log_fd s)\<rparr>)"
| lt_dup_out: "points s t = LP_dup_out fd \<Longrightarrow>
    log_thread_step may_fail s ((at_point s t (if log_fd s \<noteq> 2 then LP_dup_err fd else LP_close fd))\<lparr>fd_table := dup_fd (fd_table s) fd 1\<rparr>)"
| lt_dup_err: "points s t = LP_dup_err fd \<Longrightarrow>
    log_thread_step may_fail s ((at_point s t (LP_close fd))\<lparr>fd_table := dup_fd (fd_table s) fd 2\<rparr>)"
| lt_close: "points s t = LP_close fd \<Longrightarrow>
    log_thread_step may_fail s ((at_point s t LP_unlock)\<lparr>fd_table := (fd_table s)(fd := None)\<rparr>)"
| lt_close_old: "points s t = LP_close_old fd \<Longrightarrow>
    log_thread_step may_fail s ((at_point s t (LP_set fd))
      \<lparr>fd_table := (if log_fd s \<noteq> 2 then (fd_table s)(log_fd s := None) else fd_table s)\<rparr>)"
| lt_set: "points s t = LP_set fd \<Longrightarrow>
    log_thread_step may_fail s ((at_point s t LP_unlock)\<lparr>shared_log := (shared_log s)\<lparr>lg_fd := fd\<rparr>\<rparr>)"
| lt_unlock: "points s t = LP_unlock \<Longrightarrow> log_thread_step may_fail s ((at_point s t LP_idle)\<lparr>size_mutex := None\<rparr>)"

text \<open>At the start one empty file is open, under its name; descriptors of other files are left out.\<close>

definition log_start :: "log_threads \<Rightarrow> bool" where
  "log_start s \<longleftrightarrow> (\<exists>f i. lg_name (shared_log s) = Some f \<and> \<not> lg_wf_flag (shared_log s) \<and> file_list (shared_log s) = []
     \<and> directory s = [f \<mapsto> i] \<and> fd_table s (log_fd s) = Some i \<and> ran (fd_table s) = {i} \<and> fd_table s (- 1) = None
     \<and> generations s = [i])
   \<and> contents s = (\<lambda>_. []) \<and> size_mutex s = None \<and> points s = (\<lambda>_. LP_idle)
   \<and> appended s = [] \<and> refused s = [] \<and> archive s = []"

fun inside_lock :: "log_point \<Rightarrow> bool" where
  "inside_lock LP_idle = False"
| "inside_lock (LP_write fd line) = False"
| "inside_lock LP_lock = False"
| "inside_lock _ = True"

section \<open>Standard output redirected: the invariant\<close>

text \<open>
  What holds of a thread by where it is, when \<open>c\<close> is the file that \<open>_fd\<close> stands for and \<open>new\<close> the one
  opened to replace it.
\<close>

fun point_ok :: "log_threads \<Rightarrow> nat \<Rightarrow> nat list \<Rightarrow> log_point \<Rightarrow> bool" where
  "point_ok s c new LP_idle = True"
| "point_ok s c new (LP_write fd line) = (fd = log_fd s)"
| "point_ok s c new LP_lock = True"
| "point_ok s c new LP_seek = (new = [])"
| "point_ok s c new LP_access = (new = [] \<and> long_file s c)"
| "point_ok s c new LP_open = (new = [] \<and> long_file s c \<and> directory s (the (lg_name (shared_log s))) = None)"
| "point_ok s c new (LP_dup fd) = (fd \<noteq> log_fd s \<and> long_file s c \<and> new = (case fd_table s fd of Some i \<Rightarrow> [i] | None \<Rightarrow> []))"
| "point_ok s c new (LP_dup_out fd) = (fd \<noteq> log_fd s \<and> new = [] \<and> (fd_table s fd = None \<or> fd_table s fd = Some c))"
| "point_ok s c new (LP_dup_err fd) = (fd \<noteq> log_fd s \<and> new = [] \<and> (fd_table s fd = None \<or> fd_table s fd = Some c))"
| "point_ok s c new (LP_close fd) = (fd \<noteq> log_fd s \<and> new = [])"
| "point_ok s c new (LP_close_old fd) = False"
| "point_ok s c new (LP_set fd) = False"
| "point_ok s c new LP_unlock = (new = [])"

definition redirecting :: "log_threads \<Rightarrow> bool" where
  "redirecting s \<longleftrightarrow> \<not> lg_flag (shared_log s) \<and> lg_name (shared_log s) \<noteq> None \<and> fd_table s (- 1) = None"

definition files_ok :: "log_threads \<Rightarrow> bool" where
  "files_ok s \<longleftrightarrow> distinct (generations s) \<and> ran (directory s) \<union> ran (fd_table s) \<subseteq> set (generations s)
     \<and> concat (map (contents s) (generations s)) = appended s \<and> refused s = []"

definition current_ok :: "log_threads \<Rightarrow> bool" where
  "current_ok s \<longleftrightarrow> (\<exists>old c new. generations s = old @ c # new \<and> fd_table s (log_fd s) = Some c
     \<and> (\<forall>g \<in> set old. long_file s g) \<and> (\<forall>g \<in> set new. contents s g = [])
     \<and> (size_mutex s = None \<longrightarrow> new = []) \<and> (\<forall>t. point_ok s c new (points s t)))"

definition log_threads_inv :: "log_threads \<Rightarrow> bool" where
  "log_threads_inv s \<longleftrightarrow> guarded inside_lock (points s) (size_mutex s) \<and> redirecting s \<and> files_ok s \<and> current_ok s"

lemma at_point_simps [simp]:
  "directory (at_point s t p) = directory s" "contents (at_point s t p) = contents s" "fd_table (at_point s t p) = fd_table s"
  "shared_log (at_point s t p) = shared_log s" "size_mutex (at_point s t p) = size_mutex s"
  "points (at_point s t p) = (points s)(t := p)" "appended (at_point s t p) = appended s"
  "refused (at_point s t p) = refused s" "generations (at_point s t p) = generations s" "archive (at_point s t p) = archive s"
  "log_fd (at_point s t p) = log_fd s" "long_file (at_point s t p) i = long_file s i"
  by (simp_all add: at_point_def log_fd_def long_file_def)

lemma log_fd_upd [simp]:
  "log_fd (s\<lparr>contents := x\<rparr>) = log_fd s" "log_fd (s\<lparr>appended := y\<rparr>) = log_fd s" "log_fd (s\<lparr>refused := y\<rparr>) = log_fd s"
  "log_fd (s\<lparr>size_mutex := m\<rparr>) = log_fd s" "log_fd (s\<lparr>fd_table := d\<rparr>) = log_fd s" "log_fd (s\<lparr>directory := dd\<rparr>) = log_fd s"
  "log_fd (s\<lparr>generations := g\<rparr>) = log_fd s"
  by (simp_all add: log_fd_def)

lemma long_file_upd [simp]:
  "long_file (s\<lparr>appended := y\<rparr>) i = long_file s i" "long_file (s\<lparr>refused := y\<rparr>) i = long_file s i"
  "long_file (s\<lparr>size_mutex := m\<rparr>) i = long_file s i" "long_file (s\<lparr>fd_table := d\<rparr>) i = long_file s i"
  "long_file (s\<lparr>directory := dd\<rparr>) i = long_file s i" "long_file (s\<lparr>generations := g\<rparr>) i = long_file s i"
  by (simp_all add: long_file_def)

lemma archive_file_simps [simp]:
  "contents (archive_file s f i old) = contents s" "fd_table (archive_file s f i old) = fd_table s"
  "size_mutex (archive_file s f i old) = size_mutex s" "points (archive_file s f i old) = points s"
  "appended (archive_file s f i old) = appended s" "refused (archive_file s f i old) = refused s"
  "generations (archive_file s f i old) = generations s" "archive (archive_file s f i old) = archive s @ [(old, i)]"
  "log_fd (archive_file s f i old) = log_fd s" "long_file (archive_file s f i old) g = long_file s g"
  "lg_flag (shared_log (archive_file s f i old)) = lg_flag (shared_log s)"
  "lg_name (shared_log (archive_file s f i old)) = lg_name (shared_log s)"
  "max_file_size (shared_log (archive_file s f i old)) = max_file_size (shared_log s)"
  "max_file_index (shared_log (archive_file s f i old)) = max_file_index (shared_log s)"
  by (simp_all add: archive_file_def Let_def log_fd_def long_file_def split del: if_split)

text \<open>A thread outside the section is not affected by what happens inside.\<close>

lemma point_ok_outside: "\<not> inside_lock p \<Longrightarrow> log_fd s' = log_fd s \<Longrightarrow> point_ok s c new p \<Longrightarrow> point_ok s' c' new' p"
  by (cases p) simp_all

lemma points_ok_inside:
  assumes "guarded inside_lock (points s) (size_mutex s)" and "inside_lock (points s t)"
    and "\<forall>u. point_ok s c new (points s u)" and "log_fd s' = log_fd s" and "points s' = (points s)(t := p)"
    and "point_ok s' c' new' p"
  shows "\<forall>u. point_ok s' c' new' (points s' u)"
proof
  fix u
  show "point_ok s' c' new' (points s' u)"
  proof (cases "u = t")
    case False
    then have "\<not> inside_lock (points s u)" using guarded_others [OF assms(1,2)] by blast
    from point_ok_outside [OF this assms(4)] assms(3) have "point_ok s' c' new' (points s u)" by blast
    then show ?thesis using False by (simp add: assms(5))
  qed (simp add: assms(5,6))
qed


lemma log_threads_invE:
  assumes "log_threads_inv s"
  obtains old c new f where "guarded inside_lock (points s) (size_mutex s)" and "redirecting s" and "files_ok s"
    and "generations s = old @ c # new" and "fd_table s (log_fd s) = Some c"
    and "\<forall>g \<in> set old. long_file s g" and "\<forall>g \<in> set new. contents s g = []"
    and "size_mutex s = None \<longrightarrow> new = []" and "\<forall>t. point_ok s c new (points s t)"
    and "lg_name (shared_log s) = Some f"
proof -
  from assms have g: "guarded inside_lock (points s) (size_mutex s)" "redirecting s" "files_ok s" and "current_ok s"
    by (simp_all add: log_threads_inv_def)
  then obtain old c new where c: "generations s = old @ c # new" "fd_table s (log_fd s) = Some c"
    "\<forall>g \<in> set old. long_file s g" "\<forall>g \<in> set new. contents s g = []"
    "size_mutex s = None \<longrightarrow> new = []" "\<forall>t. point_ok s c new (points s t)"
    unfolding current_ok_def by (elim exE conjE)
  obtain f where "lg_name (shared_log s) = Some f" using g(2) by (auto simp: redirecting_def)
  then show thesis by (rule that [OF g c])
qed

lemma log_threads_invI:
  assumes "guarded inside_lock (points s) (size_mutex s)" and "redirecting s" and "files_ok s"
    and "generations s = old @ c # new" and "fd_table s (log_fd s) = Some c"
    and "\<forall>g \<in> set old. long_file s g" and "\<forall>g \<in> set new. contents s g = []"
    and "size_mutex s = None \<longrightarrow> new = []" and "\<forall>t. point_ok s c new (points s t)"
  shows "log_threads_inv s"
  unfolding log_threads_inv_def current_ok_def by (intro conjI exI; rule assms)

lemma log_start_inv: "log_start s \<Longrightarrow> \<not> lg_flag (shared_log s) \<Longrightarrow> log_threads_inv s"
  by (rule log_threads_invI [of s "[]" "the (fd_table s (log_fd s))" "[]"])
    (auto simp: log_start_def redirecting_def files_ok_def guarded_def)

text \<open>A step inside the section that changes neither the files nor the descriptors.\<close>

lemma inv_move_inside:
  assumes "log_threads_inv s" and "inside_lock (points s t)" and "inside_lock p"
    and "\<And>c new. fd_table s (log_fd s) = Some c \<Longrightarrow> point_ok s c new (points s t) \<Longrightarrow> point_ok s c new p"
  shows "log_threads_inv (at_point s t p)"
proof (rule log_threads_invE [OF assms(1)], goal_cases)
  case (1 old c new f)
  have same: "point_ok (at_point s t p) c' new' q = point_ok s c' new' q" for c' new' q
    by (cases q) (simp_all split: option.splits)
  have "\<forall>u. point_ok (at_point s t p) c new (points (at_point s t p) u)"
    by (rule points_ok_inside [OF 1(1) assms(2) 1(9), where p = p]) (use assms(4) [OF 1(5)] spec [OF 1(9), of t] in \<open>simp_all add: same\<close>)
  moreover have "guarded inside_lock (points (at_point s t p)) (size_mutex (at_point s t p))"
    using 1(1) assms(2,3) by (simp add: guarded_move)
  ultimately show ?case
    by (intro log_threads_invI [of _ old c new]) (use 1 in \<open>simp_all add: redirecting_def files_ok_def\<close>)
qed

text \<open>A step outside the section.\<close>

lemma inv_write:
  assumes "log_threads_inv s" and "points s t = LP_write fd line" and "fd_table s fd = Some i"
  shows "log_threads_inv ((at_point s t (after_write s))
      \<lparr>contents := (contents s)(i := contents s i @ [line]), appended := appended s @ [line]\<rparr>)" (is "log_threads_inv ?s")
proof (rule log_threads_invE [OF assms(1)], goal_cases)
  case (1 old c new f)
  have "fd = log_fd s" using 1(9) assms(2) by (metis point_ok.simps(2))
  then have i: "i = c" using assms(3) 1(5) by simp
  have d: "distinct (old @ c # new)" using 1(3,4) by (simp add: files_ok_def)
  have long: "long_file s g \<Longrightarrow> long_file ?s g" for g
    by (auto simp: long_file_def file_length_def)
  have ok: "point_ok s c new q \<Longrightarrow> point_ok ?s c new q" for q
    using long by (cases q) (simp_all split: option.splits)
  have out: "\<not> inside_lock (after_write s)" by (simp add: after_write_def)
  have "concat (map (contents ?s) (old @ c # new)) = appended s @ [line]"
  proof -
    have "map (contents ?s) old = map (contents s) old" and "map (contents ?s) new = map (contents s) new"
      using d i by auto
    moreover have none: "concat (map (contents s) new) = []" using 1(7) by auto
    moreover have "appended s = concat (map (contents s) old) @ contents s c @ concat (map (contents s) new)"
      using 1(3,4) by (simp add: files_ok_def)
    ultimately show ?thesis using i by (simp del: concat_eq_Nil_conv map_eq_conv)
  qed
  then have "files_ok ?s" using 1(3,4) by (simp add: files_ok_def)
  moreover have "guarded inside_lock (points ?s) (size_mutex ?s)"
    using guarded_move [OF 1(1), of "after_write s" t] out assms(2) by simp
  moreover have "\<forall>u. point_ok ?s c new (points ?s u)"
    using 1(9) ok by (simp add: after_write_def)
  moreover have "\<forall>g \<in> set new. contents ?s g = []" using 1(7) d i by auto
  ultimately show ?case
    by (intro log_threads_invI [of _ old c new]) (use 1 long in \<open>simp_all add: redirecting_def\<close>)
qed


lemma inv_outside:
  assumes "log_threads_inv s" and "\<not> inside_lock (points s t)" and "\<not> inside_lock p"
    and "\<And>c new. point_ok s c new p"
  shows "log_threads_inv (at_point s t p)"
proof (rule log_threads_invE [OF assms(1)], goal_cases)
  case (1 old c new f)
  have same: "point_ok (at_point s t p) c' new' q = point_ok s c' new' q" for c' new' q
    by (cases q) (simp_all split: option.splits)
  have "guarded inside_lock (points (at_point s t p)) (size_mutex (at_point s t p))"
    using guarded_move [OF 1(1), of p t] assms(2,3) by simp
  moreover have "\<forall>u. point_ok (at_point s t p) c new (points (at_point s t p) u)"
    using 1(9) assms(4) by (simp add: same)
  ultimately show ?case
    by (intro log_threads_invI [of _ old c new]) (use 1 in \<open>simp_all add: redirecting_def files_ok_def\<close>)
qed

lemma inv_lock:
  assumes "log_threads_inv s" and "points s t = LP_lock" and "size_mutex s = None"
  shows "log_threads_inv ((at_point s t LP_seek)\<lparr>size_mutex := Some t\<rparr>)" (is "log_threads_inv ?s")
proof (rule log_threads_invE [OF assms(1)], goal_cases)
  case (1 old c new f)
  have "guarded inside_lock (points ?s) (size_mutex ?s)"
    using guarded_enter [of inside_lock "points s" LP_seek t] 1(1) assms(3) by simp
  moreover have "point_ok ?s c new (points ?s u)" for u
  proof (cases "u = t")
    case False
    then have "\<not> inside_lock (points s u)" using guarded_free 1(1) assms(3) by metis
    from point_ok_outside [OF this _ spec [OF 1(9)]] show ?thesis using False by simp
  qed (use 1(8) assms(3) in simp)
  ultimately show ?case
    by (intro log_threads_invI [of _ old c new]) (use 1 assms(3) in \<open>simp_all add: redirecting_def files_ok_def\<close>)
qed

lemma inv_unlock:
  assumes "log_threads_inv s" and "points s t = LP_unlock"
  shows "log_threads_inv ((at_point s t LP_idle)\<lparr>size_mutex := None\<rparr>)" (is "log_threads_inv ?s")
proof (rule log_threads_invE [OF assms(1)], goal_cases)
  case (1 old c new f)
  have new: "new = []" using spec [OF 1(9), of t] assms(2) by simp
  have "guarded inside_lock (points ?s) (size_mutex ?s)"
    using guarded_leave [OF 1(1), of t LP_idle] assms(2) by simp
  moreover have "\<forall>u. point_ok ?s c new (points ?s u)"
    by (rule points_ok_inside [OF 1(1) _ 1(9), where t = t and p = LP_idle]) (simp_all add: assms(2))
  ultimately show ?case
    by (intro log_threads_invI [of _ old c new]) (use 1 new in \<open>simp_all add: redirecting_def files_ok_def\<close>)
qed

lemma inv_rename:
  assumes "log_threads_inv s" and "points s t = LP_access" and "lg_name (shared_log s) = Some f"
    and "directory s f = Some i" and "f \<noteq> old'"
  shows "log_threads_inv (archive_file (at_point s t LP_open) f i old')" (is "log_threads_inv ?s")
proof (rule log_threads_invE [OF assms(1)], goal_cases)
  case (1 old c new f')
  have at: "point_ok s c new LP_access" using spec [OF 1(9), of t] assms(2) by simp
  have "ran (directory ?s) \<subseteq> ran (directory s)"
    using assms(4) by (auto simp: archive_file_def Let_def ran_def split: if_splits)
  then have "files_ok ?s" using 1(3) by (auto simp: files_ok_def)
  moreover have "directory ?s f = None" using assms(5) by (simp add: archive_file_def Let_def)
  then have "\<forall>u. point_ok ?s c new (points ?s u)"
    by (intro points_ok_inside [OF 1(1) _ 1(9), where t = t and p = LP_open]) (use at assms(2,3) in simp_all)
  moreover have "guarded inside_lock (points ?s) (size_mutex ?s)"
    using guarded_move [OF 1(1), of LP_open t] assms(2) by simp
  ultimately show ?case
    by (intro log_threads_invI [of _ old c new]) (use 1 in \<open>simp_all add: redirecting_def\<close>)
qed

lemma inv_create:
  assumes "log_threads_inv s" and "points s t = LP_open" and "lg_name (shared_log s) = Some f"
    and "i \<notin> set (generations s)" and "contents s i = []" and "fd \<ge> 0" and "fd_table s fd = None"
  shows "log_threads_inv ((at_point s t (LP_dup fd))
      \<lparr>directory := (directory s)(f \<mapsto> i), fd_table := (fd_table s)(fd \<mapsto> i), generations := generations s @ [i]\<rparr>)" (is "log_threads_inv ?s")
proof (rule log_threads_invE [OF assms(1)], goal_cases)
  case (1 old c new f')
  have at: "point_ok s c new LP_open" using spec [OF 1(9), of t] assms(2) by simp
  then have new: "new = []" "long_file s c" by simp_all
  have fd: "fd \<noteq> log_fd s" "fd \<noteq> - 1" using assms(6,7) 1(5) by auto
  have "ran (directory ?s) \<union> ran (fd_table ?s) \<subseteq> set (generations ?s)"
    using 1(3) by (auto simp: files_ok_def ran_def split: if_splits)
  then have "files_ok ?s" using 1(3) assms(4,5) by (simp add: files_ok_def)
  moreover have "\<forall>u. point_ok ?s c [i] (points ?s u)"
    by (intro points_ok_inside [OF 1(1) _ 1(9), where t = t and p = "LP_dup fd"]) (use assms(2) new fd in simp_all)
  moreover have "guarded inside_lock (points ?s) (size_mutex ?s)"
    using guarded_move [OF 1(1), of "LP_dup fd" t] assms(2) by simp
  moreover have "size_mutex s \<noteq> None" using 1(1) assms(2) by (metis guarded_free inside_lock.simps(6))
  ultimately show ?case
    by (intro log_threads_invI [of _ old c "[i]"]) (use 1 new fd assms(5) in \<open>simp_all add: redirecting_def\<close>)
qed

text \<open>The descriptor the log writes to becomes one of the new file.\<close>

lemma inv_dup:
  assumes "log_threads_inv s" and "points s t = LP_dup fd"
  shows "log_threads_inv ((at_point s t (LP_dup_out fd))\<lparr>fd_table := dup_fd (fd_table s) fd (log_fd s)\<rparr>)" (is "log_threads_inv ?s")
proof (rule log_threads_invE [OF assms(1)], goal_cases)
  case (1 old c new f)
  have at: "fd \<noteq> log_fd s" "long_file s c" "new = (case fd_table s fd of Some i \<Rightarrow> [i] | None \<Rightarrow> [])"
    using spec [OF 1(9), of t] assms(2) by simp_all
  have F: "log_fd s \<noteq> - 1" using 1(2,5) by (auto simp: redirecting_def)
  have r: "ran (dup_fd (fd_table s) fd (log_fd s)) \<subseteq> ran (fd_table s)"
    by (auto simp: dup_fd_def ran_def split: option.splits if_splits)
  then have files: "files_ok ?s" using 1(3) by (auto simp: files_ok_def)
  have g: "guarded inside_lock (points ?s) (size_mutex ?s)"
    using guarded_move [OF 1(1), of "LP_dup_out fd" t] assms(2) by simp
  have red: "redirecting ?s" using 1(2) F by (auto simp: redirecting_def dup_fd_def split: option.splits)
  show ?case
  proof (cases "fd_table s fd")
    case None
    have "\<forall>u. point_ok ?s c [] (points ?s u)"
      by (intro points_ok_inside [OF 1(1) _ 1(9), where t = t and p = "LP_dup_out fd"])
        (use assms(2) at None in \<open>simp_all add: dup_fd_def\<close>)
    then show ?thesis
      by (intro log_threads_invI [of _ old c "[]"]) (use 1 at g files red None in \<open>simp_all add: dup_fd_def\<close>)
  next
    case (Some i)
    have "\<forall>u. point_ok ?s i [] (points ?s u)"
      by (intro points_ok_inside [OF 1(1) _ 1(9), where t = t and p = "LP_dup_out fd"])
        (use assms(2) at Some in \<open>simp_all add: dup_fd_def\<close>)
    then show ?thesis
      by (intro log_threads_invI [of _ "old @ [c]" i "[]"]) (use 1 at g files red Some in \<open>auto simp: dup_fd_def\<close>)
  qed
qed

text \<open>Standard output and error follow, and the spare descriptor is closed.\<close>

lemma inv_fds:
  assumes "log_threads_inv s" and "inside_lock (points s t)" and "inside_lock p"
    and "\<And>c new. fd_table s (log_fd s) = Some c \<Longrightarrow> point_ok s c new (points s t) \<Longrightarrow>
      m (log_fd s) = Some c \<and> m (- 1) = fd_table s (- 1) \<and> ran m \<subseteq> ran (fd_table s) \<and> point_ok ((at_point s t p)\<lparr>fd_table := m\<rparr>) c new p
      \<and> new = []"
  shows "log_threads_inv ((at_point s t p)\<lparr>fd_table := m\<rparr>)" (is "log_threads_inv ?s")
proof (rule log_threads_invE [OF assms(1)], goal_cases)
  case (1 old c new f)
  note m = assms(4) [OF 1(5) spec [OF 1(9), of t]]
  have "files_ok ?s" using 1(3) m by (auto simp: files_ok_def)
  moreover have "\<forall>u. point_ok ?s c new (points ?s u)"
    by (intro points_ok_inside [OF 1(1) assms(2) 1(9), where p = p]) (use m in auto)
  moreover have "guarded inside_lock (points ?s) (size_mutex ?s)"
    using guarded_move [OF 1(1), of p t] assms(2,3) by simp
  ultimately show ?case
    by (intro log_threads_invI [of _ old c new]) (use 1 m in \<open>simp_all add: redirecting_def\<close>)
qed


lemma point_at:
  assumes "log_threads_inv s"
  obtains c new where "fd_table s (log_fd s) = Some c" and "point_ok s c new (points s t)"
  using assms by (elim log_threads_invE) blast

text \<open>The name of a file in use is never one given to an old file.\<close>

lemma old_name_differs: "old_name f date \<noteq> f"
  by (simp add: old_name_def)

lemma ran_dup_fd: "ran (dup_fd m a b) \<subseteq> ran m"
  by (auto simp: dup_fd_def ran_def split: option.splits if_splits)

lemma dup_fd_none [simp]: "m a = None \<Longrightarrow> dup_fd m a b = m"
  by (simp add: dup_fd_def)

lemma dup_fd_same: "m a = None \<or> m a = Some c \<Longrightarrow> m x = Some c \<Longrightarrow> dup_fd m a b x = Some c"
  by (auto simp: dup_fd_def)

lemma log_thread_step_inv:
  assumes "log_thread_step may_fail s s'" and inv: "log_threads_inv s"
  shows "log_threads_inv s'"
proof -
  have flag: "\<not> lg_flag (shared_log s)" using inv by (simp add: log_threads_inv_def redirecting_def)
  show ?thesis using assms(1)
  proof cases
    case (lt_call t line)
    then show ?thesis using inv_outside [OF inv, of t "LP_write (log_fd s) line"] by simp
  next
    case (lt_write t fd line i)
    then show ?thesis using inv_write [OF inv] by simp
  next
    case (lt_refused t fd line)
    obtain c new where "fd_table s (log_fd s) = Some c" "point_ok s c new (points s t)" by (rule point_at [OF inv])
    then show ?thesis using lt_refused by simp
  next
    case (lt_empty t)
    then show ?thesis using inv_outside [OF inv, of t "after_write s"] by (simp add: after_write_def)
  next
    case (lt_write_failed t fd line)
    then show ?thesis using inv_outside [OF inv, of t "after_write s"] by (simp add: after_write_def)
  next
    case (lt_lock t)
    then show ?thesis using inv_lock [OF inv] by simp
  next
    case (lt_seek t)
    then show ?thesis using inv_move_inside [OF inv, of t "after_seek s"]
      by (simp add: after_seek_def split: option.splits)
  next
    case (lt_missing t f)
    then show ?thesis using inv_move_inside [OF inv, of t LP_open] by simp
  next
    case (lt_rename t f i date)
    then show ?thesis using inv_rename [OF inv _ _ _ old_name_differs [symmetric]] by simp
  next
    case (lt_open t f i fd)
    obtain c new where "fd_table s (log_fd s) = Some c" "point_ok s c new (points s t)" by (rule point_at [OF inv])
    then show ?thesis using lt_open by simp
  next
    case (lt_create t f i fd)
    then show ?thesis using inv_create [OF inv, of t f i fd] flag by simp
  next
    case (lt_open_failed t)
    have none: "fd_table s (- 1) = None" using inv by (simp add: log_threads_inv_def redirecting_def)
    obtain c new where "fd_table s (log_fd s) = Some c" by (rule point_at [OF inv])
    then have "- 1 \<noteq> log_fd s" using none by auto
    then show ?thesis using inv_move_inside [OF inv, of t "LP_dup (- 1)"] lt_open_failed flag none by auto
  next
    case (lt_dup t fd)
    then show ?thesis using inv_dup [OF inv] by simp
  next
    case (lt_dup_out t fd)
    let ?p = "if log_fd s \<noteq> 2 then LP_dup_err fd else LP_close fd"
    have "dup_fd (fd_table s) fd 1 (- 1) = fd_table s (- 1)" by (simp add: dup_fd_def split: option.splits)
    then show ?thesis unfolding lt_dup_out(1)
      by (intro inv_fds [OF inv, of t ?p]) (use lt_dup_out(2) in \<open>auto simp: ran_dup_fd dup_fd_same dest: subsetD [OF ran_dup_fd]\<close>)
  next
    case (lt_dup_err t fd)
    have "dup_fd (fd_table s) fd 2 (- 1) = fd_table s (- 1)" by (simp add: dup_fd_def split: option.splits)
    then show ?thesis unfolding lt_dup_err(1)
      by (intro inv_fds [OF inv, of t "LP_close fd"]) (use lt_dup_err(2) in \<open>auto simp: dup_fd_same dest: subsetD [OF ran_dup_fd]\<close>)
  next
    case (lt_close t fd)
    have "fd_table s (- 1) = None" using inv by (simp add: log_threads_inv_def redirecting_def)
    moreover have "ran ((fd_table s)(fd := None)) \<subseteq> ran (fd_table s)" by (auto simp: ran_def split: if_splits)
    ultimately show ?thesis unfolding lt_close(1)
      by (intro inv_fds [OF inv, of t LP_unlock]) (use lt_close(2) in auto)
  next
    case (lt_close_old t fd)
    obtain c new where "fd_table s (log_fd s) = Some c" "point_ok s c new (points s t)" by (rule point_at [OF inv])
    then show ?thesis using lt_close_old by simp
  next
    case (lt_set t fd)
    obtain c new where "fd_table s (log_fd s) = Some c" "point_ok s c new (points s t)" by (rule point_at [OF inv])
    then show ?thesis using lt_set by simp
  next
    case (lt_unlock t)
    then show ?thesis using inv_unlock [OF inv] by simp
  qed
qed

interpretation log_threads: state_machine "\<lambda>s. log_start s \<and> \<not> lg_flag (shared_log s)" "log_thread_step may_fail" log_threads_inv
  by unfold_locales (auto intro: log_start_inv log_thread_step_inv)

end
