(* ===== verification/Logger_Files.thy ===== *)
theory Logger_Files
  imports Logger_Threads
begin

text \<open>
  What the files of the logger hold after any interleaving of the threads of \<open>Logger_Threads\<close>: the
  names of the rotated files, the length of every file, and the two situations in which lines are lost.
\<close>

section \<open>The names of the files\<close>

text \<open>The old files that should still be there: all, or the newest \<open>_maxFileIndex\<close>.\<close>

definition kept :: "log_threads \<Rightarrow> (string \<times> nat) list" where
  "kept s = (if max_file_index (shared_log s) = 0 then archive s
     else drop (length (archive s) - length (file_list (shared_log s))) (archive s))"

definition names_ok :: "log_threads \<Rightarrow> bool" where
  "names_ok s \<longleftrightarrow> (\<exists>f. lg_name (shared_log s) = Some f \<and> f \<notin> fst ` set (archive s)
     \<and> file_list (shared_log s) = (if max_file_index (shared_log s) = 0 then [] else map fst (kept s))
     \<and> (0 < max_file_index (shared_log s) \<longrightarrow>
          length (file_list (shared_log s)) = min (max_file_index (shared_log s)) (length (archive s)))
     \<and> generations s = map snd (archive s) @ (case directory s f of Some i \<Rightarrow> [i] | None \<Rightarrow> [])
     \<and> (distinct (map fst (archive s)) \<longrightarrow> (\<forall>n. n \<noteq> f \<longrightarrow> directory s n = map_of (kept s) n)))"

lemma names_ok_same:
  assumes "names_ok s" and "directory s' = directory s" and "generations s' = generations s" and "archive s' = archive s"
    and "lg_name (shared_log s') = lg_name (shared_log s)" "file_list (shared_log s') = file_list (shared_log s)"
    and "max_file_index (shared_log s') = max_file_index (shared_log s)"
  shows "names_ok s'"
proof -
  have "kept s' = kept s" using assms by (simp add: kept_def)
  then show ?thesis using assms(1) by (simp only: names_ok_def assms(2-7))
qed

lemma names_ok_start: "log_start s \<Longrightarrow> names_ok s"
  by (auto simp: log_start_def names_ok_def kept_def)

lemma kept_archive_file:
  assumes "file_list (shared_log s) = (if max_file_index (shared_log s) = 0 then [] else map fst (kept s))"
    and "0 < max_file_index (shared_log s) \<longrightarrow> length (file_list (shared_log s)) = min (max_file_index (shared_log s)) (length (archive s))"
  defines "full \<equiv> 0 < max_file_index (shared_log s) \<and> length (file_list (shared_log s)) \<ge> max_file_index (shared_log s)"
  shows "kept (archive_file s f i old) = (if full then tl (kept s) else kept s) @ [(old, i)]"
    and "full \<Longrightarrow> kept s \<noteq> [] \<and> hd (file_list (shared_log s)) = fst (hd (kept s))"
proof -
  let ?fl = "file_list (shared_log s)" and ?n = "max_file_index (shared_log s)"
  have len: "0 < ?n \<Longrightarrow> length ?fl \<le> length (archive s) \<and> length (kept s) = length ?fl"
  proof -
    assume n: "0 < ?n"
    then have "length ?fl = length (kept s)" using assms(1) by (metis length_map less_not_refl)
    then show ?thesis using n by (simp add: kept_def)
  qed
  show "full \<Longrightarrow> kept s \<noteq> [] \<and> hd ?fl = fst (hd (kept s))"
    using len assms(1) by (cases "kept s") (auto simp: full_def)
  show "kept (archive_file s f i old) = (if full then tl (kept s) else kept s) @ [(old, i)]"
  proof (cases "?n = 0")
    case True
    then show ?thesis by (simp add: kept_def full_def)
  next
    case False
    have "file_list (shared_log (archive_file s f i old)) = (if full then tl ?fl @ [old] else ?fl @ [old])"
      using False by (simp add: archive_file_def Let_def full_def)
    then show ?thesis using False len assms(2)
      by (auto simp: kept_def full_def tl_drop Suc_diff_le drop_Suc Suc_diff_Suc split: if_splits)
  qed
qed


lemma map_of_snoc: "k \<notin> fst ` set xs \<Longrightarrow> map_of (xs @ [(k, v)]) = (map_of xs)(k \<mapsto> v)"
  by (induction xs) (auto simp: fun_upd_twist)

lemma names_ok_rename:
  assumes "names_ok s" and "lg_name (shared_log s) = Some f" and "directory s f = Some i" and "f \<noteq> old"
  shows "names_ok (archive_file s f i old)" (is "names_ok ?s")
proof -
  let ?fl = "file_list (shared_log s)" and ?n = "max_file_index (shared_log s)"
  let ?full = "0 < ?n \<and> length ?fl \<ge> ?n"
  have ok: "f \<notin> fst ` set (archive s)" "?fl = (if ?n = 0 then [] else map fst (kept s))"
      "0 < ?n \<longrightarrow> length ?fl = min ?n (length (archive s))" "generations s = map snd (archive s) @ [i]"
      "distinct (map fst (archive s)) \<Longrightarrow> n \<noteq> f \<Longrightarrow> directory s n = map_of (kept s) n" for n
    using assms(1-3) by (auto simp: names_ok_def)
  note kept = kept_archive_file [OF ok(2,3)]
  have sub: "set (kept s) \<subseteq> set (archive s)" by (simp add: kept_def set_drop_subset)
  have dir: "directory ?s = ((if ?full then (directory s)(hd ?fl := None) else directory s)(f := None))(old \<mapsto> i)"
    by (simp add: archive_file_def Let_def)
  have fl: "file_list (shared_log ?s) = (if ?n = 0 then ?fl else if ?full then tl ?fl @ [old] else ?fl @ [old])"
    by (simp add: archive_file_def Let_def)
  have none: "directory ?s f = None" using assms(4) by (simp add: dir)
  have files: "file_list (shared_log ?s) = (if ?n = 0 then [] else map fst (kept ?s))"
    unfolding kept(1) using ok(2) by (auto simp: fl map_tl)
  have bound: "0 < ?n \<longrightarrow> length (file_list (shared_log ?s)) = min ?n (length (archive s @ [(old, i)]))"
    using ok(3) by (auto simp: fl)
  have names: "directory ?s n = map_of (kept ?s) n" if d: "distinct (map fst (archive s @ [(old, i)]))" and n: "n \<noteq> f" for n
  proof -
    have kd: "distinct (map fst (kept s))" using d by (simp add: kept_def drop_map [symmetric])
    have new: "old \<notin> fst ` set (kept s)" using d sub by auto
    have k: "map_of (kept ?s) n = (if n = old then Some i else map_of (if ?full then tl (kept s) else kept s) n)"
    proof -
      have "old \<notin> fst ` set (if ?full then tl (kept s) else kept s)"
        using new by (cases "kept s") auto
      from map_of_snoc [OF this] show ?thesis unfolding kept(1) by (simp only: fun_upd_apply)
    qed
    have "directory s n = map_of (kept s) n" using ok(5) d n by simp
    moreover have "map_of (tl (kept s)) n = (if n = hd ?fl then None else map_of (kept s) n)" if ?full
      using kept(2) [OF that] kd by (cases "kept s") (auto simp: map_of_eq_None_iff)
    ultimately show ?thesis using n by (simp add: dir k)
  qed
  show ?thesis
    unfolding names_ok_def archive_file_simps
    by (intro exI [of _ f] conjI impI allI assms(2) files bound [rule_format] names)
      (use assms(4) ok(1,4) none in auto)
qed


lemma names_ok_create:
  assumes "names_ok s" and "lg_name (shared_log s) = Some f" and "directory s f = None"
    and "directory s' = (directory s)(f \<mapsto> i)" and "generations s' = generations s @ [i]"
    and "archive s' = archive s" and "shared_log s' = shared_log s"
  shows "names_ok s'"
proof -
  have "kept s' = kept s" using assms(6,7) by (simp add: kept_def)
  then show ?thesis using assms(1-3) unfolding names_ok_def assms(4-7) by auto
qed

lemma log_thread_step_names: "log_thread_step may_fail s s' \<Longrightarrow> names_ok s \<Longrightarrow> names_ok s'"
proof (induction rule: log_thread_step.induct)
  case (lt_rename s t f i date)
  have "names_ok (at_point s t LP_open)" by (rule names_ok_same [OF lt_rename(5)]) simp_all
  then show ?case using lt_rename(2,3) old_name_differs [symmetric] by (intro names_ok_rename) simp_all
next
  case (lt_create s t f i fd)
  then show ?case by (intro names_ok_create [OF lt_create(8,2,3)]) simp_all
qed (auto elim!: names_ok_same)

interpretation log_names: state_machine log_start "log_thread_step may_fail" names_ok
  by unfold_locales (auto intro: names_ok_start log_thread_step_names)

section \<open>The length of the files\<close>

text \<open>Threads that have written and have not yet seen the length, or that replace the file.\<close>

fun over_length :: "log_point \<Rightarrow> bool" where
  "over_length LP_lock = True"
| "over_length LP_seek = True"
| "over_length LP_access = True"
| "over_length LP_open = True"
| "over_length (LP_dup fd) = True"
| "over_length _ = False"

definition late :: "log_threads \<Rightarrow> nat set" where
  "late s = {t. over_length (points s t)}"

text \<open>\<open>n\<close> threads, and lines of at most \<open>m\<close> bytes.\<close>

definition lines_fit :: "nat \<Rightarrow> nat \<Rightarrow> log_threads \<Rightarrow> bool" where
  "lines_fit n m s \<longleftrightarrow> (\<forall>t. points s t \<noteq> LP_idle \<longrightarrow> t < n)
     \<and> (\<forall>t fd line. points s t = LP_write fd line \<longrightarrow> length line \<le> m)"

definition fit_step :: "nat \<Rightarrow> nat \<Rightarrow> log_threads \<Rightarrow> log_threads \<Rightarrow> bool" where
  "fit_step n m s s' \<longleftrightarrow> log_thread_step False s s' \<and> lines_fit n m s'"

definition length_ok :: "nat \<Rightarrow> nat \<Rightarrow> log_threads \<Rightarrow> bool" where
  "length_ok n m s \<longleftrightarrow> 0 < max_file_size (shared_log s)
     \<and> (\<forall>t fd. points s t = LP_dup fd \<longrightarrow> fd_table s fd \<noteq> None)
     \<and> (\<forall>c. fd_table s (log_fd s) = Some c \<longrightarrow> long_file s c \<longrightarrow>
          file_length (contents s c) < max_file_size (shared_log s) + int (m * card (late s)))
     \<and> (\<forall>g. file_length (contents s g) < max_file_size (shared_log s) + int (m * n))"

lemma late_bound: "lines_fit n m s \<Longrightarrow> late s \<subseteq> {..<n} \<and> card (late s) \<le> n"
proof -
  assume "lines_fit n m s"
  then have "late s \<subseteq> {..<n}" by (auto simp: late_def lines_fit_def) (metis over_length.simps(6))
  then show ?thesis using card_mono [of "{..<n}" "late s"] by simp
qed

lemma late_at_point:
  "points s' = (points s)(t := p) \<Longrightarrow> late s' = (if over_length p then insert t (late s) else late s - {t})"
  by (auto simp: late_def)


lemma length_ok_move:
  assumes "length_ok n m s" and "lines_fit n m s'" and "contents s' = contents s"
    and "max_file_size (shared_log s') = max_file_size (shared_log s)"
    and "\<forall>t fd. points s' t = LP_dup fd \<longrightarrow> fd_table s' fd \<noteq> None"
    and "\<And>c. fd_table s' (log_fd s') = Some c \<Longrightarrow> long_file s c \<Longrightarrow> fd_table s (log_fd s) = Some c \<and> late s \<subseteq> late s'"
  shows "length_ok n m s'"
proof -
  have fin: "finite (late s')" using late_bound [OF assms(2)] finite_subset by blast
  have "file_length (contents s c) < max_file_size (shared_log s) + int (m * card (late s'))"
    if c: "fd_table s' (log_fd s') = Some c" "long_file s c" for c
  proof -
    have "m * card (late s) \<le> m * card (late s')" using card_mono [OF fin] assms(6) [OF c] by simp
    moreover have "file_length (contents s c) < max_file_size (shared_log s) + int (m * card (late s))"
      using assms(1,6) c by (simp add: length_ok_def)
    ultimately show ?thesis by linarith
  qed
  then show ?thesis using assms by (simp add: length_ok_def long_file_def)
qed

lemma length_ok_write:
  assumes "length_ok n m s" and "lines_fit n m s" and "points s t = LP_write fd line" and "fd_table s (log_fd s) = Some i"
  defines "s' \<equiv> (at_point s t (after_write s))\<lparr>contents := (contents s)(i := contents s i @ [line]), appended := appended s @ [line]\<rparr>"
  assumes "lines_fit n m s'"
  shows "length_ok n m s'"
proof -
  have size: "0 < max_file_size (shared_log s)" using assms(1) by (simp add: length_ok_def)
  have "late s' = insert t (late s)"
    using late_at_point [of s' s t LP_lock] size by (simp add: s'_def after_write_def)
  moreover have "t \<notin> late s" using assms(3) by (simp add: late_def)
  moreover have "finite (late s)" using late_bound [OF assms(2)] finite_subset by blast
  ultimately have card: "card (late s') = Suc (card (late s))" by simp
  have len: "length line \<le> m" using assms(2,3) by (simp add: lines_fit_def)
  have new: "file_length (contents s' i) = file_length (contents s i) + int (length line)"
    by (simp add: s'_def file_length_def)
  have "file_length (contents s i) < max_file_size (shared_log s) + int (m * card (late s))"
  proof (cases "long_file s i")
    case True
    then show ?thesis using assms(1,4) by (simp add: length_ok_def)
  next
    case False
    then have "file_length (contents s i) < max_file_size (shared_log s)" by (simp add: long_file_def)
    then show ?thesis by (rule less_le_trans) simp
  qed
  then have bound: "file_length (contents s' i) < max_file_size (shared_log s) + int (m * card (late s'))"
    using len by (simp add: new card algebra_simps)
  have "m * card (late s') \<le> m * n" using late_bound [OF assms(6)] by simp
  with bound have "file_length (contents s' i) < max_file_size (shared_log s) + int (m * n)" by linarith
  moreover have "file_length (contents s' g) < max_file_size (shared_log s) + int (m * n)" if "g \<noteq> i" for g
    using that assms(1) by (simp add: length_ok_def s'_def)
  ultimately have "\<forall>g. file_length (contents s' g) < max_file_size (shared_log s) + int (m * n)" by metis
  moreover have "shared_log s' = shared_log s" "fd_table s' = fd_table s" "log_fd s' = log_fd s" by (simp_all add: s'_def)
  moreover have "points s' u \<noteq> LP_dup x \<or> points s u = LP_dup x" for u x
    using size by (simp add: s'_def after_write_def)
  ultimately show ?thesis
    using assms(1,4) bound unfolding length_ok_def by (metis option.inject)
qed

lemma fit_step_length:
  assumes "fit_step n m s s'" and inv: "log_threads_inv s" and fit: "lines_fit n m s" and len: "length_ok n m s"
  shows "length_ok n m s'"
proof -
  have fit': "lines_fit n m s'" and flag: "\<not> lg_flag (shared_log s)"
    using assms(1) inv by (simp_all add: fit_step_def log_threads_inv_def redirecting_def)
  have dup: "points s t = LP_dup fd \<Longrightarrow> fd_table s fd \<noteq> None" for t fd using len by (auto simp: length_ok_def)
  note move = length_ok_move [OF len fit']
  obtain c new where c: "fd_table s (log_fd s) = Some c" "\<forall>t. point_ok s c new (points s t)" "\<forall>g \<in> set new. contents s g = []"
    using inv by (elim log_threads_invE) blast
  have guard: "guarded inside_lock (points s) (size_mutex s)" using inv by (simp add: log_threads_inv_def)
  have others: "inside_lock (points s t) \<Longrightarrow> u \<noteq> t \<Longrightarrow> points s u \<noteq> LP_dup x" for t u x
    using guarded_others [OF guard] by fastforce
  have "log_thread_step False s s'" using assms(1) by (simp add: fit_step_def)
  then show ?thesis
  proof cases
    case (lt_write t fd line i)
    have "fd_table s (log_fd s) = Some i" using c(1) spec [OF c(2), of t] lt_write(2,3) by simp
    then show ?thesis using length_ok_write [OF len fit lt_write(2)] lt_write(1) fit' by simp
  next
    case (lt_call t line)
    show ?thesis unfolding lt_call(1)
      by (rule move [unfolded lt_call(1)])
        (use lt_call(2-) dup in \<open>auto simp: late_def after_seek_def split: if_splits option.splits\<close>)
  next
    case (lt_empty t)
    show ?thesis unfolding lt_empty(1)
      by (rule move [unfolded lt_empty(1)])
        (use lt_empty(2-) dup in \<open>auto simp: late_def after_write_def split: if_splits option.splits\<close>)
  next
    case (lt_write_failed t fd line)
    then show ?thesis by simp
  next
    case (lt_lock t)
    show ?thesis unfolding lt_lock(1)
      by (rule move [unfolded lt_lock(1)])
        (use lt_lock(2-) dup in \<open>auto simp: late_def after_seek_def split: if_splits option.splits\<close>)
  next
    case (lt_seek t)
    show ?thesis unfolding lt_seek(1)
      by (rule move [unfolded lt_seek(1)])
        (use lt_seek(2-) dup in \<open>auto simp: late_def after_seek_def split: if_splits option.splits\<close>)
  next
    case (lt_missing t f)
    show ?thesis unfolding lt_missing(1)
      by (rule move [unfolded lt_missing(1)])
        (use lt_missing(2-) dup in \<open>auto simp: late_def after_seek_def split: if_splits option.splits\<close>)
  next
    case (lt_rename t f i date)
    show ?thesis unfolding lt_rename(1)
      by (rule move [unfolded lt_rename(1)])
        (use lt_rename(2-) dup in \<open>auto simp: late_def after_seek_def split: if_splits option.splits\<close>)
  next
    case (lt_unlock t)
    show ?thesis unfolding lt_unlock(1)
      by (rule move [unfolded lt_unlock(1)])
        (use lt_unlock(2-) dup in \<open>auto simp: late_def after_seek_def split: if_splits option.splits\<close>)
  next
    case (lt_refused t fd line)
    then show ?thesis using c(1) spec [OF c(2), of t] by simp
  next
    case (lt_open t f i fd)
    then show ?thesis using c(1) spec [OF c(2), of t] by simp
  next
    case (lt_close_old t fd)
    then show ?thesis using c(1) spec [OF c(2), of t] by simp
  next
    case (lt_set t fd)
    then show ?thesis using c(1) spec [OF c(2), of t] by simp
  next
    case (lt_open_failed t)
    then show ?thesis by simp
  next
    case (lt_create t f i fd)
    have "fd \<noteq> log_fd s" using lt_create(8) c(1) by auto
    then show ?thesis unfolding lt_create(1)
      by (intro move [unfolded lt_create(1)])
        (use lt_create(2-) dup flag in \<open>auto simp: late_def split: if_splits\<close>)
  next
    case (lt_dup t fd)
    obtain i where i: "fd_table s fd = Some i" "new = [i]" using dup [OF lt_dup(2)] spec [OF c(2), of t] lt_dup(2) by auto
    then have "contents s i = []" using c(3) by simp
    then have "\<not> long_file s i" using len by (simp add: length_ok_def long_file_def file_length_def)
    then show ?thesis unfolding lt_dup(1)
      by (intro move [unfolded lt_dup(1)])
        (use lt_dup(2) others [of t] i dup in \<open>auto simp: late_def dup_fd_def split: if_splits\<close>)
  next
    case (lt_dup_out t fd)
    have "dup_fd (fd_table s) fd 1 (log_fd s) = Some c"
      using c(1) spec [OF c(2), of t] lt_dup_out(2) by (auto simp: dup_fd_same)
    then show ?thesis unfolding lt_dup_out(1)
      by (intro move [unfolded lt_dup_out(1)])
        (use lt_dup_out(2) others [of t] dup c(1) in \<open>auto simp: late_def split: if_splits\<close>)
  next
    case (lt_dup_err t fd)
    have "dup_fd (fd_table s) fd 2 (log_fd s) = Some c"
      using c(1) spec [OF c(2), of t] lt_dup_err(2) by (auto simp: dup_fd_same)
    then show ?thesis unfolding lt_dup_err(1)
      by (intro move [unfolded lt_dup_err(1)])
        (use lt_dup_err(2) others [of t] dup c(1) in \<open>auto simp: late_def split: if_splits\<close>)
  next
    case (lt_close t fd)
    have "((fd_table s)(fd := None)) (log_fd s) = Some c"
      using c(1) spec [OF c(2), of t] lt_close(2) by (auto simp: dup_fd_same)
    then show ?thesis unfolding lt_close(1)
      by (intro move [unfolded lt_close(1)])
        (use lt_close(2) others [of t] dup c(1) in \<open>auto simp: late_def split: if_splits\<close>)
  qed
qed


lemma fit_step_inv:
  assumes "fit_step n m s s'" and "log_threads_inv s \<and> lines_fit n m s \<and> length_ok n m s"
  shows "log_threads_inv s' \<and> lines_fit n m s' \<and> length_ok n m s'"
  using assms fit_step_length log_thread_step_inv by (auto simp: fit_step_def)

interpretation log_lengths: state_machine
  "\<lambda>s. log_start s \<and> \<not> lg_flag (shared_log s) \<and> 0 < max_file_size (shared_log s)" "fit_step n m"
  "\<lambda>s. log_threads_inv s \<and> lines_fit n m s \<and> length_ok n m s"
proof (unfold_locales, goal_cases)
  case (1 s)
  then have "lines_fit n m s" and "late s = {}" and "contents s = (\<lambda>_. [])" and "\<And>t fd. points s t \<noteq> LP_dup fd"
    by (auto simp: log_start_def lines_fit_def late_def)
  then have "length_ok n m s" using 1 by (auto simp: length_ok_def long_file_def file_length_def add_pos_nonneg)
  then show ?case using 1 log_start_inv \<open>lines_fit n m s\<close> by blast
next
  case (2 s s')
  then show ?case using fit_step_inv by blast
qed

section \<open>A call that rotates\<close>

lemma step_to: "log_thread_step b s x \<Longrightarrow> x = y \<Longrightarrow> log_thread_step b s y"
  by simp

text \<open>A call without interference, whose line makes the file long enough.\<close>

lemma rotating_call:
  assumes "points s t = LP_idle" and "size_mutex s = None" and "\<not> lg_flag (shared_log s)" and "lg_fd (shared_log s) = 2"
    and "lg_name (shared_log s) = Some f" and "max_file_index (shared_log s) = 0" and "directory s f = Some i" and "fd_table s 2 = Some i"
    and "max_file_size (shared_log s) \<noteq> 0" and "max_file_size (shared_log s) \<le> file_length (contents s i @ [line])"
    and "date_ok f date" and "j \<notin> set (generations s) \<union> ran (directory s) \<union> ran (fd_table s)" and "contents s j = []" and "fd_table s 3 = None"
  shows "(log_thread_step b)\<^sup>*\<^sup>* s
    (s\<lparr>contents := (contents s)(i := contents s i @ [line]), appended := appended s @ [line],
       directory := (directory s)(f := None, old_name f date \<mapsto> i, f \<mapsto> j),
       archive := archive s @ [(old_name f date, i)], generations := generations s @ [j],
       fd_table := (fd_table s)(3 \<mapsto> j, 2 \<mapsto> j, 1 \<mapsto> j, 3 := None)\<rparr>)"
proof -
  have i: "i \<noteq> j" using assms(7,12) by (auto simp: ran_def)
  define w where "w = s\<lparr>contents := (contents s)(i := contents s i @ [line]), appended := appended s @ [line]\<rparr>"
  define l where "l = w\<lparr>size_mutex := Some t\<rparr>"
  define r where "r = l\<lparr>directory := (directory s)(f := None, old_name f date \<mapsto> i), archive := archive s @ [(old_name f date, i)]\<rparr>"
  define c where "c = r\<lparr>directory := (directory s)(f := None, old_name f date \<mapsto> i, f \<mapsto> j), generations := generations s @ [j],
    fd_table := (fd_table s)(3 \<mapsto> j)\<rparr>"
  define d where "d = c\<lparr>fd_table := (fd_table s)(3 \<mapsto> j, 2 \<mapsto> j)\<rparr>"
  define e where "e = d\<lparr>fd_table := (fd_table s)(3 \<mapsto> j, 2 \<mapsto> j, 1 \<mapsto> j)\<rparr>"
  define z where "z = e\<lparr>fd_table := (fd_table s)(3 \<mapsto> j, 2 \<mapsto> j, 1 \<mapsto> j, 3 := None)\<rparr>"
  note defs = w_def l_def r_def c_def d_def e_def z_def at_point_def
  let ?R = "log_thread_step b"
  have 1: "?R s (at_point s t (LP_write 2 line))"
    using lt_call [OF assms(1), of b line] assms(4) by (simp add: log_fd_def)
  have 2: "?R (at_point s t (LP_write 2 line)) (at_point w t LP_lock)"
    by (rule step_to [OF lt_write [of _ t 2 line i]])
      (use assms(8,9) in \<open>auto intro!: log_threads.equality simp: defs after_write_def\<close>)
  have 3: "?R (at_point w t LP_lock) (at_point l t LP_seek)"
    by (rule step_to [OF lt_lock [of _ t]]) (use assms(2) in \<open>auto intro!: log_threads.equality simp: defs\<close>)
  have "after_seek (at_point l t LP_seek) = LP_access"
    using assms(4,8,10) by (simp add: defs after_seek_def log_fd_def long_file_def)
  then have 4: "?R (at_point l t LP_seek) (at_point l t LP_access)"
    by (intro step_to [OF lt_seek [of _ t]]) (auto intro!: log_threads.equality simp: defs)
  have 5: "?R (at_point l t LP_access) (at_point r t LP_open)"
    by (rule step_to [OF lt_rename [of _ t f i date]])
      (use assms(5-7,11) in \<open>auto intro!: log_threads.equality simp: defs archive_file_def Let_def\<close>)
  have 6: "?R (at_point r t LP_open) (at_point c t (LP_dup 3))"
    by (rule step_to [OF lt_create [of _ t f j 3]])
      (use assms(3,5,12-14) i old_name_differs [of f date] in
        \<open>auto intro!: log_threads.equality simp: defs ran_def split: if_splits\<close>)
  have 7: "?R (at_point c t (LP_dup 3)) (at_point d t (LP_dup_out 3))"
    by (rule step_to [OF lt_dup [of _ t 3]]) (use assms(4) in \<open>auto intro!: log_threads.equality simp: defs log_fd_def dup_fd_def\<close>)
  have 8: "?R (at_point d t (LP_dup_out 3)) (at_point e t (LP_close 3))"
    by (rule step_to [OF lt_dup_out [of _ t 3]]) (use assms(4) in \<open>auto intro!: log_threads.equality simp: defs log_fd_def dup_fd_def\<close>)
  have 9: "?R (at_point e t (LP_close 3)) (at_point z t LP_unlock)"
    by (rule step_to [OF lt_close [of _ t 3]]) (auto intro!: log_threads.equality simp: defs)
  have 10: "?R (at_point z t LP_unlock) (z\<lparr>size_mutex := None\<rparr>)"
    by (rule step_to [OF lt_unlock [of _ t]]) (use assms(1) in \<open>auto intro!: log_threads.equality simp: defs\<close>)
  note go = converse_rtranclp_into_rtranclp [of ?R]
  have "?R\<^sup>*\<^sup>* s (z\<lparr>size_mutex := None\<rparr>)"
    by (rule go [OF 1], rule go [OF 2], rule go [OF 3], rule go [OF 4], rule go [OF 5], rule go [OF 6],
        rule go [OF 7], rule go [OF 8], rule go [OF 9], rule r_into_rtranclp [of ?R, OF 10])
  moreover have "z\<lparr>size_mutex := None\<rparr> = s
    \<lparr>contents := (contents s)(i := contents s i @ [line]), appended := appended s @ [line],
       directory := (directory s)(f := None, old_name f date \<mapsto> i, f \<mapsto> j),
       archive := archive s @ [(old_name f date, i)], generations := generations s @ [j],
       fd_table := (fd_table s)(3 \<mapsto> j, 2 \<mapsto> j, 1 \<mapsto> j, 3 := None)\<rparr>"
    using assms(2) by (intro log_threads.equality) (simp_all add: defs)
  ultimately show ?thesis by simp
qed


text \<open>No step changes the settings.\<close>

lemma settings_step:
  "log_thread_step b s s' \<Longrightarrow> max_file_size (shared_log s') = max_file_size (shared_log s)
     \<and> max_file_index (shared_log s') = max_file_index (shared_log s) \<and> lg_name (shared_log s') = lg_name (shared_log s)"
  by (induction rule: log_thread_step.induct) simp_all

lemma settings_run:
  "(log_thread_step b)\<^sup>*\<^sup>* s s' \<Longrightarrow> max_file_size (shared_log s') = max_file_size (shared_log s)
     \<and> max_file_index (shared_log s') = max_file_index (shared_log s) \<and> lg_name (shared_log s') = lg_name (shared_log s)"
  by (induction rule: rtranclp_induct) (auto dest: settings_step)

lemma fit_run: "(fit_step n m)\<^sup>*\<^sup>* s s' \<Longrightarrow> (log_thread_step False)\<^sup>*\<^sup>* s s'"
  by (induction rule: rtranclp_induct) (auto simp: fit_step_def intro: rtranclp.rtrancl_into_rtrancl)

section \<open>Samples\<close>

text \<open>The log file \<open>l\<close>, to be rotated as soon as it has a byte; without \<open>_flag\<close> the log is descriptor 2.\<close>

definition sample_threads :: "bool \<Rightarrow> log_threads" where
  "sample_threads flag = \<lparr>directory = [''l'' \<mapsto> 0], contents = (\<lambda>_. []), fd_table = [if flag then 3 else 2 \<mapsto> 0],
     shared_log = logger_make\<lparr>lg_fd := (if flag then 3 else 2), lg_name := Some ''l'', lg_flag := flag, max_file_size := 1\<rparr>,
     size_mutex = None, points = (\<lambda>_. LP_idle), appended = [], refused = [], generations = [0], archive = []\<rparr>"

lemma sample_threads_start: "log_start (sample_threads flag)"
  by (auto simp: log_start_def sample_threads_def log_fd_def logger_make_def)

text \<open>After one call that rotates.\<close>

definition sample_rotated :: "string \<Rightarrow> log_threads" where
  "sample_rotated date = (sample_threads False)
    \<lparr>contents := (\<lambda>_. [])(0 := [''a'']), appended := [''a''],
     directory := [old_name ''l'' date \<mapsto> 0, ''l'' \<mapsto> 1], archive := [(old_name ''l'' date, 0)], generations := [0, 1],
     fd_table := [2 \<mapsto> 1, 1 \<mapsto> 1]\<rparr>"

lemma sample_rotated_run:
  assumes "date_ok ''l'' date"
  shows "(log_thread_step b)\<^sup>*\<^sup>* (sample_threads False) (sample_rotated date)"
proof -
  let ?s = "sample_threads False"
  have "(log_thread_step b)\<^sup>*\<^sup>* ?s (?s\<lparr>contents := (contents ?s)(0 := contents ?s 0 @ [''a'']), appended := appended ?s @ [''a''],
       directory := (directory ?s)(''l'' := None, old_name ''l'' date \<mapsto> 0, ''l'' \<mapsto> 1),
       archive := archive ?s @ [(old_name ''l'' date, 0)], generations := generations ?s @ [1],
       fd_table := (fd_table ?s)(3 \<mapsto> 1, 2 \<mapsto> 1, 1 \<mapsto> 1, 3 := None)\<rparr>)"
    by (rule rotating_call [of _ 0]) (use assms in \<open>simp_all add: sample_threads_def logger_make_def file_length_def\<close>)
  moreover have "(fd_table ?s)(3 \<mapsto> 1, 2 \<mapsto> 1, 1 \<mapsto> 1, 3 := None) = [2 \<mapsto> 1, 1 \<mapsto> 1 :: nat]"
    by (rule ext) (simp add: sample_threads_def)
  moreover have "(directory ?s)(''l'' := None, old_name ''l'' date \<mapsto> 0, ''l'' \<mapsto> 1) = [old_name ''l'' date \<mapsto> 0, ''l'' \<mapsto> 1 :: nat]"
    by (rule ext) (simp add: sample_threads_def)
  ultimately show ?thesis by (simp add: sample_rotated_def) (simp add: sample_threads_def)
qed

section \<open>Properties\<close>

text \<open>The old files that are kept, and those that were deleted to keep to \<open>_maxFileIndex\<close>.\<close>

lemma kept_files:
  assumes "log_start s0" and "(log_thread_step may_fail)\<^sup>*\<^sup>* s0 s" and "lg_name (shared_log s0) = Some f"
    and "distinct (map fst (archive s))"
  defines "n \<equiv> max_file_index (shared_log s0)"
  obtains gone where "archive s = gone @ kept s" and "\<forall>x. x \<noteq> f \<longrightarrow> directory s x = map_of (kept s) x"
    and "length (kept s) = (if n = 0 then length (archive s) else min n (length (archive s)))"
    and "file_list (shared_log s) = (if n = 0 then [] else map fst (kept s))"
    and "generations s = map snd (archive s) @ (case directory s f of Some i \<Rightarrow> [i] | None \<Rightarrow> [])"
    and "f \<notin> fst ` set (archive s)"
proof
  have ok: "names_ok s" using log_names.reachable_inv [OF assms(2,1)] .
  have set: "lg_name (shared_log s) = Some f" "max_file_index (shared_log s) = n"
    using settings_run [OF assms(2)] assms(3) by (simp_all add: n_def)
  let ?k = "if n = 0 then 0 else length (archive s) - length (file_list (shared_log s))"
  have kept: "kept s = drop ?k (archive s)" using set by (simp add: kept_def)
  then show "archive s = take ?k (archive s) @ kept s" by simp
  show "\<forall>x. x \<noteq> f \<longrightarrow> directory s x = map_of (kept s) x" using ok set assms(4) by (auto simp: names_ok_def)
  show files: "file_list (shared_log s) = (if n = 0 then [] else map fst (kept s))" using ok set by (auto simp: names_ok_def)
  have "0 < n \<Longrightarrow> length (file_list (shared_log s)) = min n (length (archive s))" using ok set by (auto simp: names_ok_def)
  then show "length (kept s) = (if n = 0 then length (archive s) else min n (length (archive s)))"
  proof (cases "n = 0")
    case True
    with kept show ?thesis by simp
  next
    case False
    then have "file_list (shared_log s) = map fst (kept s)" using files by simp
    then have "length (kept s) = length (file_list (shared_log s))" by simp
    with False \<open>0 < n \<Longrightarrow> length (file_list (shared_log s)) = min n (length (archive s))\<close> show ?thesis by simp
  qed
  show "generations s = map snd (archive s) @ (case directory s f of Some i \<Rightarrow> [i] | None \<Rightarrow> [])" "f \<notin> fst ` set (archive s)"
    using ok set by (auto simp: names_ok_def)
qed

text \<open>
  C5: With standard output redirected (\<open>set_file_name\<close> without \<open>_flag\<close>), whatever the threads do and
  although \<open>_fd\<close> is used without a lock, no line is refused for a closed descriptor, and the files, in the order in
  which they were opened, hold all lines written, whole and in the order of writing. A file that the log has left
  has reached the maximal length: no thread rotates a file that another one has just rotated. If no two
  rotations fall into the same second, every one of these files has a name in the directory, but for those
  deleted to keep to \<open>_maxFileIndex\<close>: the oldest, and only as many as there are too many. This also
  holds when files cannot be opened.
\<close>

theorem log_threads_lose_nothing:
  assumes "log_start s0" and "\<not> lg_flag (shared_log s0)" and "(log_thread_step may_fail)\<^sup>*\<^sup>* s0 s"
  defines "n \<equiv> max_file_index (shared_log s0)"
  shows "refused s = [] \<and> concat (map (contents s) (generations s)) = appended s
    \<and> (\<exists>old c new. generations s = old @ c # new \<and> fd_table s (log_fd s) = Some c
        \<and> (\<forall>g \<in> set old. max_file_size (shared_log s0) \<le> file_length (contents s g))
        \<and> (\<forall>g \<in> set new. contents s g = []))
    \<and> (distinct (map fst (archive s)) \<longrightarrow> (\<exists>deleted named. generations s = deleted @ named
        \<and> length deleted = (if n = 0 then 0 else length (archive s) - n)
        \<and> (\<forall>g \<in> set named. \<exists>x. directory s x = Some g)))"
proof -
  have inv: "log_threads_inv s" using log_threads.reachable_inv [OF assms(3)] assms(1,2) by blast
  have "max_file_size (shared_log s) = max_file_size (shared_log s0)" using settings_run [OF assms(3)] by simp
  then have "refused s = [] \<and> concat (map (contents s) (generations s)) = appended s
    \<and> (\<exists>old c new. generations s = old @ c # new \<and> fd_table s (log_fd s) = Some c
        \<and> (\<forall>g \<in> set old. max_file_size (shared_log s0) \<le> file_length (contents s g))
        \<and> (\<forall>g \<in> set new. contents s g = []))"
    using inv unfolding log_threads_inv_def files_ok_def current_ok_def long_file_def by metis
  moreover have "\<exists>deleted named. generations s = deleted @ named \<and> length deleted = (if n = 0 then 0 else length (archive s) - n)
      \<and> (\<forall>g \<in> set named. \<exists>x. directory s x = Some g)" if d: "distinct (map fst (archive s))"
  proof -
    obtain f where f: "lg_name (shared_log s0) = Some f" using assms(1) by (auto simp: log_start_def)
    from kept_files [OF assms(1,3) f d] obtain gone where gone: "archive s = gone @ kept s"
      and dir: "\<forall>x. x \<noteq> f \<longrightarrow> directory s x = map_of (kept s) x"
      and len: "length (kept s) = (if n = 0 then length (archive s) else min n (length (archive s)))"
      and gen: "generations s = map snd (archive s) @ (case directory s f of Some i \<Rightarrow> [i] | None \<Rightarrow> [])"
      and new: "f \<notin> fst ` set (archive s)" unfolding n_def by metis
    have kd: "distinct (map fst (kept s))" using d unfolding gone by simp
    have "length gone = length (archive s) - length (kept s)" using arg_cong [OF gone, of length] by simp
    then have "length gone = (if n = 0 then 0 else length (archive s) - n)" unfolding len by (simp add: min_def)
    moreover have "\<exists>x. directory s x = Some g" if g: "g \<in> set (map snd (kept s) @ (case directory s f of Some i \<Rightarrow> [i] | None \<Rightarrow> []))" for g
    proof (cases "g \<in> snd ` set (kept s)")
      case True
      then obtain x where x: "(x, g) \<in> set (kept s)" by auto
      then have "x \<noteq> f" using new gone by (metis UnCI fst_conv image_eqI set_append)
      then show ?thesis using dir map_of_is_SomeI [OF kd x] by metis
    next
      case False
      with g show ?thesis by (auto split: option.splits)
    qed
    moreover have "generations s = map snd gone @ map snd (kept s) @ (case directory s f of Some i \<Rightarrow> [i] | None \<Rightarrow> [])"
      unfolding gen by (subst gone) simp
    ultimately show ?thesis by (metis length_map)
  qed
  ultimately show ?thesis by blast
qed

theorem log_threads_lose_nothing_witness:
  "(log_thread_step False)\<^sup>*\<^sup>* (sample_threads False) (sample_rotated ''1'')
   \<and> concat (map (contents (sample_rotated ''1'')) [0, 1]) = [''a'']"
proof -
  have run: "(log_thread_step False)\<^sup>*\<^sup>* (sample_threads False) (sample_rotated ''1'')"
    by (rule sample_rotated_run) (simp add: date_ok_def old_name_def is_digit_def)
  have "\<not> lg_flag (shared_log (sample_threads False))" by (simp add: sample_threads_def)
  from log_threads_lose_nothing [OF sample_threads_start this run] run show ?thesis
    by (simp add: sample_rotated_def)
qed

text \<open>
  C26: When no two rotations fall into the same second, a rotated file keeps its content under its old name: the names are
  those of the files renamed, in order: all of them if \<open>_maxFileIndex\<close> is 0, else exactly the newest
  \<open>_maxFileIndex\<close>, or all while there are fewer. Each stands for the file the
  log had when it was rotated, and besides them there is the name of the file in use, if it could be opened.
\<close>

theorem log_archive_names:
  assumes "log_start s0" and "(log_thread_step may_fail)\<^sup>*\<^sup>* s0 s" and "lg_name (shared_log s0) = Some f"
    and "distinct (map fst (archive s))"
  defines "n \<equiv> max_file_index (shared_log s0)"
  shows "\<exists>gone old. archive s = gone @ old \<and> (\<forall>x. x \<noteq> f \<longrightarrow> directory s x = map_of old x)
    \<and> length old = (if n = 0 then length (archive s) else min n (length (archive s)))
    \<and> file_list (shared_log s) = (if n = 0 then [] else map fst old)
    \<and> generations s = map snd (archive s) @ (case directory s f of Some i \<Rightarrow> [i] | None \<Rightarrow> [])"
  using kept_files [OF assms(1-4)] unfolding n_def by metis

theorem log_archive_names_witness:
  "(log_thread_step False)\<^sup>*\<^sup>* (sample_threads False) (sample_rotated ''1'')
   \<and> (\<exists>gone old. [(''l.1'', 0)] = gone @ old \<and> gone = [] \<and> directory (sample_rotated ''1'') ''l.1'' = map_of old ''l.1'')"
proof -
  have run: "(log_thread_step False)\<^sup>*\<^sup>* (sample_threads False) (sample_rotated ''1'')"
    by (rule sample_rotated_run) (simp add: date_ok_def old_name_def is_digit_def)
  have f: "lg_name (shared_log (sample_threads False)) = Some ''l''" and n: "max_file_index (shared_log (sample_threads False)) = 0"
    and a: "archive (sample_rotated ''1'') = [(''l.1'', 0)]"
    by (simp_all add: sample_threads_def logger_make_def sample_rotated_def old_name_def)
  have "distinct (map fst (archive (sample_rotated ''1'')))" by (simp add: a)
  from log_archive_names [OF sample_threads_start run f this] run show ?thesis unfolding n a by (auto simp: Cons_eq_append_conv)
qed


text \<open>
  C27: With standard output redirected, a positive maximal length, \<open>n\<close> threads that write lines of at most
  \<open>m\<close> bytes, and files that can be opened, no file of the log ever exceeds its maximal length by \<open>m * n\<close>
  bytes: after a line that makes it too long, every thread can write one more before the file is replaced.
\<close>

theorem log_file_bounds:
  assumes "log_start s0" and "\<not> lg_flag (shared_log s0)" and "0 < max_file_size (shared_log s0)"
    and "(fit_step n m)\<^sup>*\<^sup>* s0 s"
  shows "file_length (contents s g) < max_file_size (shared_log s0) + int (m * n)"
proof -
  have "length_ok n m s" using log_lengths.reachable_inv [OF assms(4)] assms(1-3) by blast
  moreover have "max_file_size (shared_log s) = max_file_size (shared_log s0)" using settings_run [OF fit_run [OF assms(4)]] by simp
  ultimately show ?thesis by (simp add: length_ok_def)
qed

theorem log_file_bounds_witness:
  "\<exists>s. (fit_step 1 1)\<^sup>*\<^sup>* (sample_threads False) s \<and> contents s 0 = [''a''] \<and> file_length (contents s 0) < 2"
proof -
  let ?s = "sample_threads False"
  let ?s1 = "at_point ?s 0 (LP_write 2 ''a'')"
  let ?s2 = "(at_point ?s1 0 LP_lock)\<lparr>contents := (contents ?s1)(0 := contents ?s1 0 @ [''a'']), appended := appended ?s1 @ [''a'']\<rparr>"
  have "log_thread_step False ?s ?s1"
    using lt_call [of ?s 0 False "''a''"] by (simp add: sample_threads_def log_fd_def)
  then have 1: "fit_step 1 1 ?s ?s1" by (simp add: fit_step_def lines_fit_def) (simp add: sample_threads_def)
  have "log_thread_step False ?s1 ?s2"
    using lt_write [of ?s1 0 2 "''a''" 0 False] by (simp add: after_write_def sample_threads_def)
  then have 2: "fit_step 1 1 ?s1 ?s2" by (simp add: fit_step_def lines_fit_def) (simp add: sample_threads_def)
  have run: "(fit_step 1 1)\<^sup>*\<^sup>* ?s ?s2"
    by (rule converse_rtranclp_into_rtranclp [of "fit_step 1 1", OF 1]) (rule r_into_rtranclp [of "fit_step 1 1", OF 2])
  have "\<not> lg_flag (shared_log ?s)" "0 < max_file_size (shared_log ?s)" "max_file_size (shared_log ?s) = 1"
    by (simp_all add: sample_threads_def)
  with log_file_bounds [OF sample_threads_start this(1,2) run, of 0] run show ?thesis
    by (intro exI [of _ ?s2]) (simp add: sample_threads_def)
qed

section \<open>Lost lines\<close>

text \<open>
  With \<open>_flag\<close>, a thread that has read \<open>_fd\<close> is overtaken by one that rotates, closes that descriptor, and only then
  stores the new one.
\<close>

lemma write_after_close:
  "\<exists>s. (log_thread_step False)\<^sup>*\<^sup>* (sample_threads True) s \<and> refused s = [''b'']"
proof -
  let ?R = "log_thread_step False"
  define s0 where "s0 = sample_threads True"
  define s1 where "s1 = at_point s0 1 (LP_write 3 ''b'')"
  define s2 where "s2 = at_point s1 0 (LP_write 3 ''a'')"
  define s3 where "s3 = (at_point s2 0 LP_lock)\<lparr>contents := (contents s2)(0 := [''a'']), appended := [''a'']\<rparr>"
  define s4 where "s4 = (at_point s3 0 LP_seek)\<lparr>size_mutex := Some 0\<rparr>"
  define s5 where "s5 = at_point s4 0 LP_access"
  define s6 where "s6 = archive_file (at_point s5 0 LP_open) ''l'' 0 (old_name ''l'' ''1'')"
  define s7 where "s7 = (at_point s6 0 (LP_close_old 4))\<lparr>directory := (directory s6)(''l'' \<mapsto> 1), fd_table := (fd_table s6)(4 \<mapsto> 1),
    generations := generations s6 @ [1]\<rparr>"
  define s8 where "s8 = (at_point s7 0 (LP_set 4))\<lparr>fd_table := (fd_table s7)(3 := None)\<rparr>"
  define s9 where "s9 = (at_point s8 1 LP_lock)\<lparr>refused := [''b'']\<rparr>"
  have f0: "points s0 = (\<lambda>_. LP_idle)" "log_fd s0 = 3" "fd_table s0 = [3 \<mapsto> 0]" "contents s0 = (\<lambda>_. [])" "appended s0 = []"
    "size_mutex s0 = None" "shared_log s0 = logger_make\<lparr>lg_fd := 3, lg_name := Some ''l'', lg_flag := True, max_file_size := 1\<rparr>"
    "directory s0 = [''l'' \<mapsto> 0]" "generations s0 = [0]" "refused s0 = []"
    by (simp_all add: s0_def sample_threads_def log_fd_def)
  have f2: "points s2 = (\<lambda>_. LP_idle)(1 := LP_write 3 ''b'', 0 := LP_write 3 ''a'')" "fd_table s2 = [3 \<mapsto> 0]"
    "shared_log s2 = shared_log s0" "directory s2 = [''l'' \<mapsto> 0]" "generations s2 = [0]"
    "contents s2 = (\<lambda>_. [])" "appended s2 = []" "size_mutex s2 = None" "log_fd s2 = 3" "refused s2 = []"
    by (simp_all add: s2_def s1_def f0)
  have 1: "?R s0 s1" using lt_call [of s0 1 False "''b''"] by (simp add: s1_def f0)
  have 2: "?R s1 s2" using lt_call [of s1 0 False "''a''"] by (simp add: s2_def s1_def f0)
  have 3: "?R s2 s3" using lt_write [of s2 0 3 "''a''" 0 False] by (simp add: s3_def f2 after_write_def f0)
  have 4: "?R s3 s4" using lt_lock [of s3 0 False] by (simp add: s4_def s3_def f2)
  have f4: "points s4 = (points s2)(0 := LP_seek)" "fd_table s4 = [3 \<mapsto> 0]" "shared_log s4 = shared_log s0" "log_fd s4 = 3"
    "directory s4 = [''l'' \<mapsto> 0]" "generations s4 = [0]" "contents s4 = (\<lambda>_. [])(0 := [''a''])" "refused s4 = []"
    by (simp_all add: s4_def s3_def f2)
  have "after_seek s4 = LP_access" by (simp add: after_seek_def f4 long_file_def file_length_def f0)
  then have 5: "?R s4 s5" using lt_seek [of s4 0 False] by (simp add: s5_def f4)
  have f5: "points s5 = (points s2)(0 := LP_access)" "fd_table s5 = [3 \<mapsto> 0]" "shared_log s5 = shared_log s0" "log_fd s5 = 3"
    "directory s5 = [''l'' \<mapsto> 0]" "generations s5 = [0]" "contents s5 = (\<lambda>_. [])(0 := [''a''])" "refused s5 = []"
    by (simp_all add: s5_def f4)
  have "date_ok ''l'' ''1''" by (simp add: date_ok_def old_name_def is_digit_def)
  then have 6: "?R s5 s6" using lt_rename [of s5 0 "''l''" 0 "''1''" False] by (simp add: s6_def f5 f0)
  have f6: "points s6 = (points s2)(0 := LP_open)" "fd_table s6 = [3 \<mapsto> 0]" "lg_flag (shared_log s6)" "lg_name (shared_log s6) = Some ''l''"
    "log_fd s6 = 3" "generations s6 = [0]" "contents s6 = (\<lambda>_. [])(0 := [''a''])" "refused s6 = []"
    "max_file_size (shared_log s6) = 1"
    by (simp_all add: s6_def f5 f0)
  have d6: "directory s6 = [old_name ''l'' ''1'' \<mapsto> 0]"
    by (rule ext) (simp add: s6_def archive_file_def Let_def f5 f0 logger_make_def old_name_def)
  have 7: "?R s6 s7" using lt_create [of s6 0 "''l''" 1 4 False] by (simp add: s7_def f6 d6 old_name_def)
  have 8: "?R s7 s8" using lt_close_old [of s7 0 4 False] by (simp add: s8_def s7_def f6)
  have 9: "?R s8 s9" using lt_refused [of s8 1 3 "''b''" False]
    by (simp add: s9_def s8_def s7_def f6 f2 after_write_def)
  note go = converse_rtranclp_into_rtranclp [of ?R]
  have "?R\<^sup>*\<^sup>* s0 s9"
    by (rule go [OF 1], rule go [OF 2], rule go [OF 3], rule go [OF 4], rule go [OF 5], rule go [OF 6],
        rule go [OF 7], rule go [OF 8], rule r_into_rtranclp [of ?R, OF 9])
  then show ?thesis by (intro exI [of _ s9]) (simp add: s0_def s9_def)
qed

text \<open>Two rotations in one second give the second file the name of the first.\<close>

lemma renamed_over:
  "\<exists>s. (log_thread_step False)\<^sup>*\<^sup>* (sample_threads False) s \<and> max_file_index (shared_log s) = 0
     \<and> appended s = [''a'', ''b''] \<and> (\<nexists>x i. directory s x = Some i \<and> ''a'' \<in> set (contents s i))"
proof -
  let ?s = "sample_rotated ''1''" and ?old = "old_name ''l'' ''1''"
  have d: "date_ok ''l'' ''1''" by (simp add: date_ok_def old_name_def is_digit_def)
  define s where "s = ?s\<lparr>contents := (contents ?s)(1 := contents ?s 1 @ [''b'']), appended := appended ?s @ [''b''],
       directory := (directory ?s)(''l'' := None, ?old \<mapsto> 1, ''l'' \<mapsto> 2),
       archive := archive ?s @ [(?old, 1)], generations := generations ?s @ [2],
       fd_table := (fd_table ?s)(3 \<mapsto> 2, 2 \<mapsto> 2, 1 \<mapsto> 2, 3 := None)\<rparr>"
  have "(log_thread_step False)\<^sup>*\<^sup>* ?s s" unfolding s_def
    by (rule rotating_call [of _ 0]) (use d in \<open>auto simp: sample_rotated_def sample_threads_def logger_make_def file_length_def ran_def old_name_def split: if_splits\<close>)
  then have run: "(log_thread_step False)\<^sup>*\<^sup>* (sample_threads False) s"
    by (rule rtranclp_trans [OF sample_rotated_run [OF d]])
  have "directory s x = Some i \<Longrightarrow> i = 1 \<or> i = 2" for x i
    by (auto simp: s_def sample_rotated_def split: if_splits)
  then have "''a'' \<notin> set (contents s i)" if "directory s x = Some i" for x i
    using that by (fastforce simp: s_def sample_rotated_def)
  then show ?thesis using run by (intro exI [of _ s]) (simp add: s_def sample_rotated_def sample_threads_def logger_make_def)
qed

text \<open>
  C34: Both conditions are needed. With \<open>_flag\<close>, a thread that is about to write while another one rotates writes to a
  descriptor that has been closed: its line is lost, though every file could be opened. And with standard output
  redirected, when the log is rotated twice in a second, the second rename replaces the file of the first, and
  a line that was written is in none of the files, though none of them was to be deleted.
\<close>

theorem log_threads_lose_lines:
  "(\<exists>s. (log_thread_step False)\<^sup>*\<^sup>* (sample_threads True) s \<and> refused s = [''b''])
 \<and> (\<exists>s. (log_thread_step False)\<^sup>*\<^sup>* (sample_threads False) s \<and> max_file_index (shared_log s) = 0
     \<and> appended s = [''a'', ''b''] \<and> (\<nexists>x i. directory s x = Some i \<and> ''a'' \<in> set (contents s i)))"
  using write_after_close renamed_over by (rule conjI)

end
