(* ===== verification/Fs_Utils.thy ===== *)
theory Fs_Utils
  imports String_Utils Complex_Main
begin

text \<open>
  The directory reader of \<open>filelister.cpp\<close> and the helpers of \<open>fs_utils.cpp\<close>. The file system
  is a parameter: what \<open>opendir\<close> finds, what \<open>stat\<close> and \<open>statfs\<close> report; \<open>mkdir\<close>, which changes
  it, is answered by an environment. An open directory is the entries it lists and those not yet read.
\<close>

section \<open>Directory reader\<close>

datatype entry_type = DT_REG | DT_UNKNOWN | DT_OTHER

record dirent =
  d_name :: string
  d_type :: entry_type

type_synonym dir_table = "string \<rightharpoonup> dirent list"

record file_lister =
  m_dirpath :: string
  m_dir :: "(dirent list \<times> dirent list) option"

definition file_lister_make :: "string \<Rightarrow> file_lister" where
  "file_lister_make path = \<lparr>m_dirpath = path, m_dir = None\<rparr>"

definition lister_close :: "file_lister \<Rightarrow> file_lister" where
  "lister_close fl = fl\<lparr>m_dir := None\<rparr>"

definition lister_open :: "dir_table \<Rightarrow> file_lister \<Rightarrow> int \<times> file_lister" where
  "lister_open dirs fl =
     (let fl1 = lister_close fl
      in case dirs (c_str (m_dirpath fl1)) of
           Some es \<Rightarrow> (0, fl1\<lparr>m_dir := Some (es, es)\<rparr>)
         | None \<Rightarrow> (- 1, fl1\<lparr>m_dir := None\<rparr>))"

definition lister_open_path :: "dir_table \<Rightarrow> file_lister \<Rightarrow> string \<Rightarrow> int \<times> file_lister" where
  "lister_open_path dirs fl path = lister_open dirs (fl\<lparr>m_dirpath := path\<rparr>)"

definition lister_start :: "file_lister \<Rightarrow> file_lister" where
  "lister_start fl = (case m_dir fl of None \<Rightarrow> fl | Some (es, _) \<Rightarrow> fl\<lparr>m_dir := Some (es, es)\<rparr>)"

text \<open>The loop over \<open>readdir\<close>: the entry that is returned, and what is left to read.\<close>

fun next_loop :: "dirent list \<Rightarrow> string option \<times> dirent list" where
  "next_loop [] = (None, [])"
| "next_loop (e # es) = (if d_type e = DT_REG \<or> d_type e = DT_UNKNOWN then (Some (d_name e), es) else next_loop es)"

definition lister_next :: "file_lister \<Rightarrow> string option \<times> file_lister" where
  "lister_next fl =
     (case m_dir fl of None \<Rightarrow> (None, fl)
      | Some (es, rest) \<Rightarrow> let (r, rest1) = next_loop rest in (r, fl\<lparr>m_dir := Some (es, rest1)\<rparr>))"

definition listed :: "dirent list \<Rightarrow> string list" where
  "listed es = map d_name (filter (\<lambda>e. d_type e = DT_REG \<or> d_type e = DT_UNKNOWN) es)"

lemma next_loop_listed:
  "case next_loop es of
     (None, rest) \<Rightarrow> listed es = [] \<and> rest = []
   | (Some n, rest) \<Rightarrow> listed es = n # listed rest \<and> length rest < length es"
proof (induction es)
  case (Cons e es)
  then show ?case by (auto simp: listed_def split: prod.splits option.splits)
qed (simp add: listed_def)

section \<open>Sizes\<close>

text \<open>
  The loop of \<open>get_dir_files_size\<close>; \<open>stat_size\<close> is the size of a file if \<open>stat\<close> succeeds. It ends at the
  end of the directory, so the entries left to read bound it.
\<close>

lemma lister_next_shorter:
  "lister_next fl = (Some n, fl1) \<Longrightarrow> m_dir fl = Some (es, rest) \<Longrightarrow>
   \<exists>rest1. m_dir fl1 = Some (es, rest1) \<and> length rest1 < length rest"
  using next_loop_listed [of rest] by (auto simp: lister_next_def split: prod.splits option.splits)

definition unread :: "file_lister \<Rightarrow> nat" where
  "unread fl = (case m_dir fl of None \<Rightarrow> 0 | Some (_, rest) \<Rightarrow> length rest)"

lemma lister_next_unread: "lister_next fl = (Some n, fl1) \<Longrightarrow> unread fl1 < unread fl"
proof (cases "m_dir fl")
  case (Some d)
  moreover assume "lister_next fl = (Some n, fl1)"
  ultimately show ?thesis using lister_next_shorter [of fl n fl1] by (cases d) (fastforce simp: unread_def)
qed (simp add: lister_next_def)

function files_size_loop ::
  "(string \<Rightarrow> int option) \<Rightarrow> string \<Rightarrow> u32 \<Rightarrow> file_lister \<Rightarrow> u32 \<Rightarrow> u64 \<Rightarrow> (u32 \<times> u64) option" where
  "files_size_loop stat_size path max_count fl count path_size =
     (case lister_next fl of
        (None, _) \<Rightarrow> Some (count, path_size)
      | (Some file_name, fl1) \<Rightarrow>
          let count1 = count + 1
          in case stat_size (c_str (path @ ''/'' @ file_name)) of
               None \<Rightarrow> None
             | Some st_size \<Rightarrow>
                 let size1 = path_size + word_of_int st_size
                 in if count1 \<ge> max_count then Some (count1, size1)
                    else files_size_loop stat_size path max_count fl1 count1 size1)"
  by pat_completeness auto

termination
  by (relation "measure (\<lambda>(_, _, _, fl, _, _). unread fl)") (auto dest: lister_next_unread [OF sym])

declare files_size_loop.simps [simp del]

definition get_dir_files_size ::
  "dir_table \<Rightarrow> (string \<Rightarrow> int option) \<Rightarrow> string \<Rightarrow> u32 \<Rightarrow> u64 \<Rightarrow> u32 \<Rightarrow> int \<times> u32 \<times> u64" where
  "get_dir_files_size dirs stat_size path file_count total_size max_count =
     (let (_, fl) = lister_open dirs (file_lister_make path); fl1 = lister_start fl
      in case files_size_loop stat_size path max_count fl1 0 0 of
           None \<Rightarrow> (- 1, file_count, total_size)
         | Some (count, path_size) \<Rightarrow> (0, count, path_size))"

text \<open>\<open>stat_blk\<close> is the block size \<open>stat\<close> reports, \<open>statfs_avail\<close> the free blocks of \<open>statfs\<close>.\<close>

definition get_dir_free_size ::
  "(string \<Rightarrow> int option) \<Rightarrow> (string \<Rightarrow> u64 option) \<Rightarrow> string \<Rightarrow> u64 \<Rightarrow> int \<times> u64" where
  "get_dir_free_size stat_blk statfs_avail path free_size =
     (if path = [] then (- 1, free_size)
      else case stat_blk (c_str path) of None \<Rightarrow> (- 1, free_size)
         | Some b \<Rightarrow> (case statfs_avail (c_str path) of None \<Rightarrow> (- 1, free_size)
                      | Some avail \<Rightarrow> (0, ucast (word_of_int b :: u32) * avail)))"

section \<open>Units\<close>

definition size_units :: "string list" where
  "size_units = ['' Bytes'', '' KB'', '' MB'', '' GB'', '' TB'', '' PB'', '' EB'', '' ZB'', '' YB'']"

function unit_loop :: "u64 \<Rightarrow> nat \<Rightarrow> u64 \<times> nat" where
  "unit_loop bytes count =
     (if bytes \<ge> 1024 then if count > length size_units - 1 then (bytes, count) else unit_loop (bytes div 1024) (count + 1)
      else (bytes, count))"
  by pat_completeness auto

termination
proof (relation "measure (\<lambda>(bytes, _). unat bytes)", goal_cases)
  case (2 bytes count)
  then have "0 < unat bytes" by (simp add: word_le_nat_alt)
  then show ?case by (simp add: unat_div)
qed simp

declare unit_loop.simps [simp del]

text \<open>
  The division is by powers of two, so the result is the rounded number of bytes, exactly scaled;
  the rounding and the formatting with two decimals are parameters.
\<close>

definition convert_disk_size_unit :: "(u64 \<Rightarrow> rat) \<Rightarrow> (rat \<Rightarrow> string) \<Rightarrow> u64 \<Rightarrow> string" where
  "convert_disk_size_unit to_double fixed2 bytes =
     (let (_, count) = unit_loop bytes 0 in fixed2 (to_double bytes / 1024 ^ count) @ size_units ! count)"


lemma unit_loop_result:
  "unat b < 1024 ^ (7 - c) \<Longrightarrow> c \<le> 6 \<Longrightarrow>
   \<exists>k b'. unit_loop b c = (b', c + k) \<and> c + k \<le> 6 \<and> (k = 0 \<or> 1024 ^ k \<le> unat b) \<and> unat b < 1024 ^ (k + 1)"
proof (induction b c rule: unit_loop.induct)
  case (1 b c)
  show ?case
  proof (cases "b \<ge> 1024")
    case False
    then have "unat b < 1024" by (simp add: word_le_nat_alt)
    with False 1(3) show ?thesis by (intro exI [of _ 0] exI [of _ b]) (simp add: unit_loop.simps)
  next
    case True
    then have ge: "1024 \<le> unat b" by (simp add: word_le_nat_alt)
    have c: "c \<le> 5"
    proof (rule ccontr)
      assume "\<not> c \<le> 5"
      with 1(3) have "c = 6" by simp
      with 1(2) ge show False by simp
    qed
    then have small: "\<not> c > length size_units - 1" by (simp add: size_units_def)
    have d: "unat (b div 1024) = unat b div 1024" by (simp add: unat_div)
    have "(1024 :: nat) ^ (7 - c) = 1024 * 1024 ^ (7 - (c + 1))"
      using c by (simp flip: power_Suc add: Suc_diff_le)
    then have "unat (b div 1024) < 1024 ^ (7 - (c + 1))" using 1(2) by (simp add: d less_mult_imp_div_less mult.commute)
    from 1(1) [OF True small this] c obtain k b' where
      k: "unit_loop (b div 1024) (c + 1) = (b', c + 1 + k)" "c + 1 + k \<le> 6"
         "k = 0 \<or> 1024 ^ k \<le> unat b div 1024" "unat b div 1024 < 1024 ^ (k + 1)" by (auto simp: d)
    have "unit_loop b c = (b', c + Suc k)" using True small k(1) by (subst unit_loop.simps) simp
    moreover have "1024 ^ Suc k \<le> unat b"
    proof (cases "k = 0")
      case False
      with k(3) have "1024 ^ k \<le> unat b div 1024" by simp
      then have "1024 ^ k * 1024 \<le> unat b" by (simp add: less_eq_div_iff_mult_less_eq)
      then show ?thesis by (simp add: mult.commute)
    qed (use ge in simp)
    moreover have "unat b < 1024 ^ (Suc k + 1)"
      using k(4) by (simp add: div_less_iff_less_mult mult.commute mult.left_commute)
    ultimately show ?thesis using k(2) by (intro exI [of _ "Suc k"] exI [of _ b']) simp
  qed
qed

lemma convert_unit_exact:
  "\<exists>k \<le> 6. convert_disk_size_unit to_double fixed2 bytes = fixed2 (to_double bytes / 1024 ^ k) @ size_units ! k
     \<and> (k = 0 \<or> 1024 ^ k \<le> unat bytes) \<and> unat bytes < 1024 ^ (k + 1)"
proof -
  have "unat bytes < 1024 ^ (7 - 0)" using u64_less [of bytes] by simp
  from unit_loop_result [OF this] show ?thesis by (force simp: convert_disk_size_unit_def)
qed

section \<open>Directories\<close>

text \<open>\<open>mkdir\<close> answers its result and whether \<open>errno\<close> is \<open>EEXIST\<close>.\<close>

type_synonym mkdir_env = "(string, int \<times> bool) env"
type_synonym mkdir_history = "(string, int \<times> bool) history"

fun mkdir_loop :: "mkdir_env \<Rightarrow> mkdir_history \<Rightarrow> string \<Rightarrow> string list \<Rightarrow> bool \<times> mkdir_history" where
  "mkdir_loop env h dir [] = (True, h)"
| "mkdir_loop env h dir (s # subdirs) =
     (let dir1 = dir @ ''/'' @ s;
          ((ret, eexist), h1) = invoke env h (c_str dir1)
      in if ret = - 1 \<and> \<not> eexist then (False, h1) else mkdir_loop env h1 dir1 subdirs)"

text \<open>\<open>None\<close> is the failed assertion on an empty path.\<close>

definition makedir :: "mkdir_env \<Rightarrow> mkdir_history \<Rightarrow> string \<Rightarrow> (bool \<times> mkdir_history) option" where
  "makedir env h path =
     (if path = [] then None
      else let subdirs = split_string path CHR ''/''
           in Some (if subdirs = [] then (False, h)
                    else if hd subdirs = [] then mkdir_loop env h [] (tl subdirs)
                    else if hd subdirs = ''.'' then mkdir_loop env h ''.'' (tl subdirs)
                    else if hd subdirs = ''..'' then mkdir_loop env h ''..'' (tl subdirs)
                    else mkdir_loop env h ''.'' subdirs))"

text \<open>The directories on the way to a path, outermost first.\<close>

fun way :: "string \<Rightarrow> string list \<Rightarrow> string list" where
  "way dir [] = []"
| "way dir (s # ss) = (dir @ ''/'' @ s) # way (dir @ ''/'' @ s) ss"

definition way_to :: "string \<Rightarrow> string list" where
  "way_to path =
     (let ss = split_string path CHR ''/''
      in if hd ss \<in> {[], ''.'', ''..''} then way (hd ss) (tl ss) else way ''.'' ss)"

lemma mkdir_loop_result:
  "mkdir_loop env h dir ss = (r, h') \<Longrightarrow>
   \<exists>made. h' = h @ made \<and> map fst made = map c_str (take (length made) (way dir ss))
     \<and> (r \<longrightarrow> length made = length (way dir ss) \<and> (\<forall>(d, a) \<in> set made. fst a \<noteq> - 1 \<or> snd a))
     \<and> (\<not> r \<longrightarrow> made \<noteq> [] \<and> fst (snd (last made)) = - 1 \<and> \<not> snd (snd (last made)))"
proof (induction ss arbitrary: h dir)
  case (Cons s ss)
  define dir1 where "dir1 = dir @ CHR ''/'' # s"
  obtain ret ee where a: "env h (c_str dir1) = (ret, ee)" by fastforce
  define h1 where "h1 = h @ [(c_str dir1, (ret, ee))]"
  show ?case
  proof (cases "ret = - 1 \<and> \<not> ee")
    case True
    with Cons.prems a have "(r, h') = (False, h1)" by (simp add: invoke_def dir1_def [symmetric] h1_def Let_def)
    with True show ?thesis by (intro exI [of _ "[(c_str dir1, (ret, ee))]"]) (simp add: h1_def dir1_def)
  next
    case False
    with Cons.prems a have "mkdir_loop env h1 dir1 ss = (r, h')"
      by (simp add: invoke_def dir1_def [symmetric] h1_def Let_def split: if_splits)
    from Cons.IH [OF this] obtain made where m: "h' = h1 @ made" "map fst made = map c_str (take (length made) (way dir1 ss))"
      "r \<longrightarrow> length made = length (way dir1 ss) \<and> (\<forall>(d, a) \<in> set made. fst a \<noteq> - 1 \<or> snd a)"
      "\<not> r \<longrightarrow> made \<noteq> [] \<and> fst (snd (last made)) = - 1 \<and> \<not> snd (snd (last made))" by blast
    then show ?thesis using False
      by (intro exI [of _ "(c_str dir1, (ret, ee)) # made"]) (auto simp: h1_def dir1_def)
  qed
qed (auto intro: exI [of _ "[]"])

section \<open>Properties\<close>

text \<open>
  \<open>makedir\<close> asks for the directories on the way to the path, outermost first, and for nothing
  else; it reports success exactly if each was created or existed, and otherwise stops at the first
  that could not be created.
\<close>

lemma makedir_creates_way:
  assumes "path \<noteq> []"
  shows "\<exists>r made. makedir env h path = Some (r, h @ made)
    \<and> map fst made = map c_str (take (length made) (way_to path))
    \<and> (r \<longrightarrow> length made = length (way_to path) \<and> (\<forall>(d, a) \<in> set made. fst a \<noteq> - 1 \<or> snd a))
    \<and> (\<not> r \<longrightarrow> made \<noteq> [] \<and> fst (snd (last made)) = - 1 \<and> \<not> snd (snd (last made)))"
proof -
  have ne: "split_string path CHR ''/'' \<noteq> []" using assms by (simp add: split_eq_Nil_iff)
  obtain dir ss where m: "makedir env h path = Some (mkdir_loop env h dir ss)" and w: "way_to path = way dir ss"
  proof (cases "hd (split_string path CHR ''/'') \<in> {[], ''.'', ''..''}")
    case True
    with assms ne show ?thesis by (intro that) (auto simp: makedir_def way_to_def Let_def)
  next
    case False
    with assms ne show ?thesis by (intro that) (auto simp: makedir_def way_to_def Let_def)
  qed
  obtain r h' where "mkdir_loop env h dir ss = (r, h')" by fastforce
  from mkdir_loop_result [OF this] this show ?thesis unfolding m w by blast
qed

lemma makedir_creates_way_witness:
  "\<exists>r made. makedir (\<lambda>h c. (0, False)) [] ''a/b'' = Some (r, made) \<and> (r \<longrightarrow> length made = length (way_to ''a/b''))"
  using makedir_creates_way [of "''a/b''" "\<lambda>h c. (0, False)" "[]"] by auto

text \<open>The files \<open>get_dir_files_size\<close> looks at; a limit of 0 acts as a limit of 1.\<close>

definition scanned :: "dirent list \<Rightarrow> u32 \<Rightarrow> string list" where
  "scanned es max_count = take (max 1 (unat max_count)) (listed es)"

lemma files_size_loop_result:
  assumes "length (listed rest) + unat count < 2 ^ 32" and "m_dir fl = Some (es, rest)" and "unat count < bnd" and bnd: "bnd = max 1 (unat mx)"
  shows "files_size_loop stat_size path mx fl count acc =
    (let fs = take (bnd - unat count) (listed rest); szs = map (\<lambda>n. stat_size (c_str (path @ ''/'' @ n))) fs
     in if None \<in> set szs then None
        else Some (count + of_nat (length fs), acc + (\<Sum>s \<leftarrow> szs. word_of_int (the s))))"
  using assms(1-3)
proof (induction "length rest" arbitrary: rest fl count acc rule: less_induct)
  case less
  obtain r rest1 where n: "next_loop rest = (r, rest1)" by fastforce
  then have nx: "lister_next fl = (r, fl\<lparr>m_dir := Some (es, rest1)\<rparr>)" using less.prems(2) by (simp add: lister_next_def)
  show ?case
  proof (cases r)
    case None
    then have "listed rest = []" using next_loop_listed [of rest] n by simp
    then show ?thesis using nx None by (simp add: files_size_loop.simps)
  next
    case (Some f)
    then have l: "listed rest = f # listed rest1" "length rest1 < length rest" using next_loop_listed [of rest] n by simp_all
    have c1: "unat (count + 1) = Suc (unat count)"
      using iffD1 [OF unat_add_lem, of count 1] less.prems(1) l(1) by simp
    have room: "bnd - unat count = Suc (bnd - Suc (unat count))" using less.prems(3) by simp
    show ?thesis
    proof (cases "stat_size (c_str (path @ ''/'' @ f))")
      case None
      then show ?thesis using nx Some l(1) by (subst files_size_loop.simps) (simp add: room Let_def)
    next
      case sz: (Some st)
      show ?thesis
      proof (cases "count + 1 \<ge> mx")
        case True
        then have "bnd - Suc (unat count) = 0" using c1 less.prems(3) by (simp add: word_le_nat_alt bnd)
        then show ?thesis using True nx Some sz l(1) by (subst files_size_loop.simps) (simp add: room Let_def)
      next
        case False
        then have "unat (count + 1) < bnd" by (simp add: word_le_nat_alt bnd)
        moreover have "length (listed rest1) + unat (count + 1) < 2 ^ 32" using less.prems(1) l(1) c1 by simp
        ultimately have "files_size_loop stat_size path mx (fl\<lparr>m_dir := Some (es, rest1)\<rparr>) (count + 1) (acc + word_of_int st) =
          (let fs = take (bnd - unat (count + 1)) (listed rest1); szs = map (\<lambda>n. stat_size (c_str (path @ ''/'' @ n))) fs
           in if None \<in> set szs then None
              else Some (count + 1 + of_nat (length fs), acc + word_of_int st + (\<Sum>s \<leftarrow> szs. word_of_int (the s))))"
          by (intro less.hyps [OF l(2)]) simp_all
        then show ?thesis using False nx Some sz l(1)
          by (subst files_size_loop.simps) (simp add: room c1 Let_def add.assoc)
      qed
    qed
  qed
qed

text \<open>
  C40: In a directory of fewer than \<open>2 ^ 32\<close> entries, \<open>get_dir_files_size\<close> counts the regular files and those of
  unknown type in the order they are listed, up to the limit but at least one, and adds up their
  sizes modulo \<open>2 ^ 64\<close>; it fails, and leaves its results alone, exactly if one of them has no
  \<open>stat\<close>. A directory that cannot be opened is reported as an empty one.
\<close>

theorem dir_files_size_exact:
  assumes "length (case dirs (c_str path) of Some es \<Rightarrow> es | None \<Rightarrow> []) < 2 ^ 32"
  shows "get_dir_files_size dirs stat_size path fc ts mx =
    (case dirs (c_str path) of
       None \<Rightarrow> (0, 0, 0)
     | Some es \<Rightarrow>
         let szs = map (\<lambda>n. stat_size (c_str (path @ ''/'' @ n))) (scanned es mx)
         in if None \<in> set szs then (- 1, fc, ts)
            else (0, of_nat (length (scanned es mx)), \<Sum>s \<leftarrow> szs. word_of_int (the s)))"
proof (cases "dirs (c_str path)")
  case None
  then show ?thesis
    by (simp add: get_dir_files_size_def lister_open_def lister_close_def file_lister_make_def lister_start_def
        files_size_loop.simps lister_next_def)
next
  case (Some es)
  then have "length (listed es) < 2 ^ 32"
    using assms le_less_trans [OF length_filter_le] by (simp add: listed_def)
  then show ?thesis using Some
    by (simp add: get_dir_files_size_def lister_open_def lister_close_def file_lister_make_def lister_start_def
        files_size_loop_result [of es 0 _ es _ mx, OF _ _ _ refl] scanned_def Let_def)
qed

theorem dir_files_size_exact_witness:
  "get_dir_files_size (\<lambda>_. Some [\<lparr>d_name = ''x'', d_type = DT_REG\<rparr>, \<lparr>d_name = ''d'', d_type = DT_OTHER\<rparr>,
       \<lparr>d_name = ''y'', d_type = DT_UNKNOWN\<rparr>]) (\<lambda>n. Some 5) ''p'' 0 0 9 = (0, 2, 10)"
  by (subst dir_files_size_exact) (simp_all add: scanned_def listed_def)

end
