(* ===== verification/Singleton.thy ===== *)
theory Singleton
  imports Prelude
begin

text \<open>
  \<open>Singleton::GetInstance\<close> of \<open>singleton.cpp\<close>, called by any number of threads at once: a step
  relation with one step for each access to the shared pointer and to the mutex, in any
  interleaving. Accesses take effect in the order of the program; \<open>Singleton_Tso\<close> shows that buffered
  stores change nothing.
\<close>

section \<open>Steps\<close>

text \<open>Where a thread is in \<open>GetInstance\<close>; \<open>P_done\<close> holds the value it returned.\<close>

datatype get_pc =
    P_start
  | P_lock
  | P_check
  | P_new
  | P_store "nat option"
  | P_unlock
  | P_return
  | P_done "nat option"

record singleton_state =
  m_instance :: "nat option"
  m_lock :: "nat option"
  objects :: "nat list"
  pcs :: "nat \<Rightarrow> get_pc"

definition at_pc :: "singleton_state \<Rightarrow> nat \<Rightarrow> get_pc \<Rightarrow> singleton_state" where
  "at_pc s t p = s\<lparr>pcs := (pcs s)(t := p)\<rparr>"

inductive get_instance_step :: "singleton_state \<Rightarrow> singleton_state \<Rightarrow> bool" where
  gi_first_check: "pcs s t = P_start \<Longrightarrow> get_instance_step s (at_pc s t (if m_instance s = None then P_lock else P_return))"
| gi_lock: "pcs s t = P_lock \<Longrightarrow> m_lock s = None \<Longrightarrow> get_instance_step s ((at_pc s t P_check)\<lparr>m_lock := Some t\<rparr>)"
| gi_second_check: "pcs s t = P_check \<Longrightarrow> get_instance_step s (at_pc s t (if m_instance s = None then P_new else P_unlock))"
| gi_new: "pcs s t = P_new \<Longrightarrow> p \<notin> set (objects s) \<Longrightarrow>
    get_instance_step s ((at_pc s t (P_store (Some p)))\<lparr>objects := p # objects s\<rparr>)"
| gi_new_failed: "pcs s t = P_new \<Longrightarrow> get_instance_step s (at_pc s t (P_store None))"
| gi_store: "pcs s t = P_store p \<Longrightarrow> get_instance_step s ((at_pc s t P_unlock)\<lparr>m_instance := p\<rparr>)"
| gi_unlock: "pcs s t = P_unlock \<Longrightarrow> get_instance_step s ((at_pc s t P_return)\<lparr>m_lock := None\<rparr>)"
| gi_return: "pcs s t = P_return \<Longrightarrow> get_instance_step s (at_pc s t (P_done (m_instance s)))"
| gi_again: "pcs s t = P_done p \<Longrightarrow> get_instance_step s (at_pc s t P_start)"

definition singleton_start :: "singleton_state \<Rightarrow> bool" where
  "singleton_start s \<longleftrightarrow> m_instance s = None \<and> m_lock s = None \<and> objects s = [] \<and> (\<forall>t. pcs s t = P_start)"

section \<open>Invariant\<close>

fun in_section :: "get_pc \<Rightarrow> bool" where
  "in_section P_check = True"
| "in_section P_new = True"
| "in_section (P_store p) = True"
| "in_section P_unlock = True"
| "in_section _ = False"

text \<open>The pointer a thread is about to store.\<close>

fun stored :: "get_pc \<Rightarrow> nat option" where
  "stored (P_store p) = p"
| "stored _ = None"

text \<open>The mutex is held by the one thread in the critical section.\<close>

definition mutex_ok :: "singleton_state \<Rightarrow> bool" where
  "mutex_ok s \<longleftrightarrow> (\<forall>t. in_section (pcs s t) \<longleftrightarrow> m_lock s = Some t)"

text \<open>While a thread creates the object there is none; the only one is published or about to be.\<close>

definition object_ok :: "singleton_state \<Rightarrow> bool" where
  "object_ok s \<longleftrightarrow>
     (\<forall>t. pcs s t = P_new \<longrightarrow> m_instance s = None \<and> objects s = [])
     \<and> (\<forall>t p. pcs s t = P_store p \<longrightarrow> m_instance s = None \<and> objects s = (case p of None \<Rightarrow> [] | Some x \<Rightarrow> [x]))
     \<and> (case m_instance s of Some p \<Rightarrow> objects s = [p] | None \<Rightarrow> (\<forall>t. stored (pcs s t) = None) \<longrightarrow> objects s = [])
     \<and> (\<forall>t p. pcs s t = P_done (Some p) \<longrightarrow> m_instance s = Some p)"

definition singleton_inv :: "singleton_state \<Rightarrow> bool" where
  "singleton_inv s \<longleftrightarrow> mutex_ok s \<and> object_ok s"

lemma at_pc_simps [simp]:
  "m_instance (at_pc s t p) = m_instance s"
  "m_lock (at_pc s t p) = m_lock s"
  "objects (at_pc s t p) = objects s"
  "pcs (at_pc s t p) u = (if u = t then p else pcs s u)"
  by (simp_all add: at_pc_def)

lemma start_inv: "singleton_start s \<Longrightarrow> singleton_inv s"
  by (simp add: singleton_start_def singleton_inv_def mutex_ok_def object_ok_def)

lemma mutex_move: "mutex_ok s \<Longrightarrow> in_section p = in_section (pcs s t) \<Longrightarrow> mutex_ok (at_pc s t p)"
  by (simp add: mutex_ok_def)

lemma mutex_upd [simp]:
  "mutex_ok (s\<lparr>objects := x\<rparr>) = mutex_ok s"
  "mutex_ok (s\<lparr>m_instance := i\<rparr>) = mutex_ok s"
  by (simp_all add: mutex_ok_def)

lemma mutex_enter: "mutex_ok s \<Longrightarrow> m_lock s = None \<Longrightarrow> mutex_ok ((at_pc s t P_check)\<lparr>m_lock := Some t\<rparr>)"
  by (simp add: mutex_ok_def)

lemma mutex_leave:
  assumes "mutex_ok s" and "pcs s t = P_unlock"
  shows "mutex_ok ((at_pc s t P_return)\<lparr>m_lock := None\<rparr>)"
proof -
  have "m_lock s = Some t" using assms by (metis in_section.simps(4) mutex_ok_def)
  with assms(1) show ?thesis by (auto simp: mutex_ok_def)
qed

lemma mutex_step: "get_instance_step s s' \<Longrightarrow> mutex_ok s \<Longrightarrow> mutex_ok s'"
  by (induction rule: get_instance_step.induct) (simp_all add: mutex_move mutex_enter mutex_leave)

lemma section_unique: "mutex_ok s \<Longrightarrow> in_section (pcs s t) \<Longrightarrow> in_section (pcs s u) \<Longrightarrow> u = t"
  by (metis mutex_ok_def option.inject)

text \<open>While one thread is in the critical section, the others are at none of its steps.\<close>

lemma others_outside:
  assumes "mutex_ok s" and "in_section (pcs s t)" and "u \<noteq> t"
  shows "pcs s u \<noteq> P_new" "pcs s u \<noteq> P_store p" "stored (pcs s u) = None"
  using section_unique [OF assms(1,2), of u] assms(3) by (cases "pcs s u"; auto)+

lemma stored_all:
  assumes "stored (pcs s t) = None"
  shows "(\<forall>u. u \<noteq> t \<longrightarrow> stored (pcs s u) = None) \<longleftrightarrow> (\<forall>u. stored (pcs s u) = None)"
  using assms by metis

lemma object_step: "get_instance_step s s' \<Longrightarrow> mutex_ok s \<Longrightarrow> object_ok s \<Longrightarrow> object_ok s'"
proof (induction rule: get_instance_step.induct)
  case (gi_first_check s t)
  then show ?case using stored_all [of s t] by (auto simp: object_ok_def split: option.splits)
next
  case (gi_lock s t)
  then show ?case using stored_all [of s t] by (auto simp: object_ok_def split: option.splits)
next
  case (gi_second_check s t)
  note out = others_outside [OF gi_second_check(2), of t]
  from gi_second_check out show ?case using stored_all [of s t] by (auto simp: object_ok_def split: option.splits)
next
  case (gi_new s t p)
  note out = others_outside [OF gi_new(3), of t]
  from gi_new out show ?case by (auto simp: object_ok_def split: option.splits)
next
  case (gi_new_failed s t)
  note out = others_outside [OF gi_new_failed(2), of t]
  from gi_new_failed out show ?case by (auto simp: object_ok_def split: option.splits)
next
  case (gi_store s t p)
  have out: "u \<noteq> t \<Longrightarrow> pcs s u \<noteq> P_new" "u \<noteq> t \<Longrightarrow> pcs s u \<noteq> P_store q" for u q
    using others_outside [OF gi_store(2), of t] gi_store(1) by simp_all
  have m: "m_instance s = None" "objects s = (case p of None \<Rightarrow> [] | Some x \<Rightarrow> [x])"
    using gi_store(1,3) by (simp_all add: object_ok_def)
  then have "pcs s u \<noteq> P_done (Some q)" for u q using gi_store(3) by (auto simp: object_ok_def)
  with m gi_store(1) out show ?case by (cases p) (auto simp: object_ok_def)
next
  case (gi_unlock s t)
  then show ?case using stored_all [of s t] by (auto simp: object_ok_def split: option.splits)
next
  case (gi_return s t)
  then show ?case using stored_all [of s t] by (auto simp: object_ok_def split: option.splits)
next
  case (gi_again s t p)
  then show ?case using stored_all [of s t] by (auto simp: object_ok_def split: option.splits)
qed

interpretation singleton: state_machine singleton_start get_instance_step singleton_inv
proof (unfold_locales, goal_cases)
  case (1 s)
  then show ?case by (rule start_inv)
next
  case (2 s s')
  then show ?case using mutex_step object_step by (simp add: singleton_inv_def)
qed

lemma at_most_one_object:
  assumes "singleton_inv s"
  shows "length (objects s) \<le> 1"
proof (cases "\<exists>t. stored (pcs s t) \<noteq> None")
  case True
  then obtain t where "stored (pcs s t) \<noteq> None" by blast
  then obtain x where "pcs s t = P_store (Some x)" by (cases "pcs s t") auto
  with assms show ?thesis by (auto simp: singleton_inv_def object_ok_def)
next
  case False
  with assms show ?thesis by (cases "m_instance s") (auto simp: singleton_inv_def object_ok_def)
qed

lemma returned_object: "singleton_inv s \<Longrightarrow> pcs s t = P_done (Some p) \<Longrightarrow> objects s = [p] \<and> m_instance s = Some p"
  by (fastforce simp: singleton_inv_def object_ok_def)

section \<open>Allocation\<close>

text \<open>A step in which \<open>new\<close> does not fail, and what then holds of a call that has passed its last test of the pointer.\<close>

definition allocating_step :: "singleton_state \<Rightarrow> singleton_state \<Rightarrow> bool" where
  "allocating_step s s' \<longleftrightarrow> get_instance_step s s' \<and> (\<forall>t. pcs s' t \<noteq> P_store None)"

definition never_null :: "singleton_state \<Rightarrow> bool" where
  "never_null s \<longleftrightarrow> (\<forall>t. pcs s t \<noteq> P_store None \<and> pcs s t \<noteq> P_done None
     \<and> (pcs s t = P_unlock \<or> pcs s t = P_return \<longrightarrow> m_instance s \<noteq> None))"

lemma never_null_step:
  assumes "never_null s" and "allocating_step s s'"
  shows "never_null s'"
proof -
  have "get_instance_step s s'" and new: "\<forall>t. pcs s' t \<noteq> P_store None" using assms(2) by (simp_all add: allocating_step_def)
  then show ?thesis using assms(1)
  proof (induction rule: get_instance_step.induct)
    case (gi_store s t p)
    then have "p \<noteq> None" unfolding never_null_def by metis
    with gi_store show ?case by (auto simp: never_null_def)
  next
    case (gi_return s t)
    then have "m_instance s \<noteq> None" by (auto simp: never_null_def)
    with gi_return show ?case by (auto simp: never_null_def)
  qed (auto simp: never_null_def split: if_splits)
qed

interpretation allocating: state_machine singleton_start allocating_step never_null
proof (unfold_locales, goal_cases)
  case (1 s)
  then show ?case by (simp add: singleton_start_def never_null_def)
qed (rule never_null_step)

inductive_cases get_instance_stepE: "get_instance_step s s'"

lemma call_returns_pointer:
  assumes "get_instance_step s s'" and "pcs s t = P_return" and "pcs s' t \<noteq> P_return"
  shows "pcs s' t = P_done (m_instance s)"
  using assms(1) by (rule get_instance_stepE) (use assms(2,3) in \<open>auto split: if_splits\<close>)

section \<open>Progress\<close>

text \<open>A thread can move; the most steps it has left in its call.\<close>

definition can_step :: "singleton_state \<Rightarrow> nat \<Rightarrow> bool" where
  "can_step s t \<longleftrightarrow> (\<exists>s'. get_instance_step s s' \<and> pcs s' t \<noteq> pcs s t)"

fun steps_left :: "get_pc \<Rightarrow> nat" where
  "steps_left P_start = 7"
| "steps_left P_lock = 6"
| "steps_left P_check = 5"
| "steps_left P_new = 4"
| "steps_left (P_store p) = 3"
| "steps_left P_unlock = 2"
| "steps_left P_return = 1"
| "steps_left (P_done p) = 0"

lemma can_stepI: "get_instance_step s s' \<Longrightarrow> pcs s' t \<noteq> pcs s t \<Longrightarrow> can_step s t"
  by (auto simp: can_step_def)

lemma can_step_lock: "pcs s t = P_lock \<Longrightarrow> m_lock s = None \<Longrightarrow> can_step s t"
  using can_stepI [OF gi_lock] by simp

lemma can_step_unblocked:
  assumes "pcs s t \<noteq> P_lock"
  shows "can_step s t"
proof (cases "pcs s t")
  case P_start
  then show ?thesis using can_stepI [OF gi_first_check] by simp
next
  case P_check
  then show ?thesis using can_stepI [OF gi_second_check] by simp
next
  case P_new
  then show ?thesis using can_stepI [OF gi_new_failed] by simp
next
  case (P_store p)
  then show ?thesis using can_stepI [OF gi_store] by simp
next
  case P_unlock
  then show ?thesis using can_stepI [OF gi_unlock] by simp
next
  case P_return
  then show ?thesis using can_stepI [OF gi_return] by simp
next
  case (P_done p)
  then show ?thesis using can_stepI [OF gi_again] by simp
qed (use assms in simp)

lemma step_decreases:
  "get_instance_step s s' \<Longrightarrow> \<exists>t. (\<forall>u. u \<noteq> t \<longrightarrow> pcs s' u = pcs s u)
     \<and> (steps_left (pcs s' t) < steps_left (pcs s t) \<or> (\<exists>p. pcs s t = P_done p) \<and> pcs s' t = P_start)"
  by (induction rule: get_instance_step.induct) (rule_tac x = t in exI; simp)+

section \<open>Properties\<close>

text \<open>
  C3: However many threads call \<open>GetInstance\<close>, however often and in whatever interleaving, at
  most one object is created; a call that has come to its last line returns what \<open>m_instance\<close> holds then, and every
  pointer returned, if not null, is the one object, also for calls that skip the mutex. If no allocation
  fails, no call returns null, so all calls return the same object. At most one thread at a time is between
  locking and unlocking.
\<close>

theorem singleton_at_most_one:
  assumes "singleton_start s0" and "get_instance_step\<^sup>*\<^sup>* s0 s"
  shows "length (objects s) \<le> 1
    \<and> (\<forall>t s'. pcs s t = P_return \<and> get_instance_step s s' \<and> pcs s' t \<noteq> P_return \<longrightarrow> pcs s' t = P_done (m_instance s))
    \<and> (\<forall>t p. pcs s t = P_done (Some p) \<longrightarrow> objects s = [p] \<and> m_instance s = Some p)
    \<and> (allocating_step\<^sup>*\<^sup>* s0 s \<longrightarrow> (\<forall>t. pcs s t \<noteq> P_done None))
    \<and> (\<forall>t u. in_section (pcs s t) \<longrightarrow> in_section (pcs s u) \<longrightarrow> t = u)"
proof -
  have inv: "singleton_inv s" by (rule singleton.reachable_inv [OF assms(2,1)])
  have "allocating_step\<^sup>*\<^sup>* s0 s \<Longrightarrow> never_null s" by (rule allocating.reachable_inv [OF _ assms(1)])
  then have "allocating_step\<^sup>*\<^sup>* s0 s \<longrightarrow> (\<forall>t. pcs s t \<noteq> P_done None)" by (auto simp: never_null_def)
  moreover have "\<forall>t u. in_section (pcs s t) \<longrightarrow> in_section (pcs s u) \<longrightarrow> t = u"
    using section_unique [of s] inv by (auto simp: singleton_inv_def)
  ultimately show ?thesis
    using at_most_one_object [OF inv] returned_object [OF inv] call_returns_pointer [of s] by blast
qed

text \<open>A run in which thread 1 creates the object while thread 2 waits for the mutex.\<close>

definition two_threads :: singleton_state where
  "two_threads = \<lparr>m_instance = None, m_lock = None, objects = [], pcs = (\<lambda>_. P_start)\<rparr>"

theorem singleton_at_most_one_witness:
  "\<exists>s. get_instance_step\<^sup>*\<^sup>* two_threads s \<and> pcs s 1 = P_lock \<and> pcs s 2 = P_lock \<and> length (objects s) \<le> 1"
proof -
  define s1 where "s1 = at_pc two_threads 1 P_lock"
  define s2 where "s2 = at_pc s1 2 P_lock"
  have "get_instance_step two_threads s1"
    using gi_first_check [of two_threads 1] by (simp add: s1_def two_threads_def)
  moreover have "get_instance_step s1 s2"
    using gi_first_check [of s1 2] by (simp add: s2_def s1_def two_threads_def)
  ultimately have run: "get_instance_step\<^sup>*\<^sup>* two_threads s2" by simp
  have "singleton_start two_threads" by (simp add: singleton_start_def two_threads_def)
  note one = conjunct1 [OF singleton_at_most_one [OF this run]]
  have "pcs s2 1 = P_lock" "pcs s2 2 = P_lock" by (simp_all add: s2_def s1_def)
  with one run show ?thesis by blast
qed

text \<open>
  C25: No call waits for ever on a dead lock. In every reachable state a thread can move, unless it
  waits for the mutex while another thread is in the critical section; that thread can move, and is
  at most five steps away from giving the mutex back. Every step moves one thread, which is then closer to the end of its call
  or begins a new one.
\<close>

theorem singleton_progress:
  assumes "singleton_start s0" and "get_instance_step\<^sup>*\<^sup>* s0 s"
  shows "(can_step s t \<or> pcs s t = P_lock \<and> (\<exists>u. u \<noteq> t \<and> m_lock s = Some u \<and> in_section (pcs s u) \<and> can_step s u
            \<and> steps_left (pcs s u) \<le> 5))
    \<and> (\<forall>s'. get_instance_step s s' \<longrightarrow> (\<exists>u. (\<forall>v. v \<noteq> u \<longrightarrow> pcs s' v = pcs s v)
          \<and> (steps_left (pcs s' u) < steps_left (pcs s u) \<or> (\<exists>p. pcs s u = P_done p) \<and> pcs s' u = P_start)))"
proof -
  have inv: "mutex_ok s" using singleton.reachable_inv [OF assms(2,1)] by (simp add: singleton_inv_def)
  have "can_step s t \<or> pcs s t = P_lock \<and> (\<exists>u. u \<noteq> t \<and> m_lock s = Some u \<and> in_section (pcs s u) \<and> can_step s u
      \<and> steps_left (pcs s u) \<le> 5)"
  proof (cases "pcs s t = P_lock \<and> m_lock s \<noteq> None")
    case True
    then obtain u where u: "m_lock s = Some u" by blast
    then have sec: "in_section (pcs s u)" using inv by (simp add: mutex_ok_def)
    then have "pcs s u \<noteq> P_lock" "steps_left (pcs s u) \<le> 5" by (cases "pcs s u"; simp)+
    with True u sec can_step_unblocked [of s u] show ?thesis by auto
  next
    case False
    then show ?thesis using can_step_unblocked [of s t] can_step_lock [of s t] by blast
  qed
  then show ?thesis using step_decreases [of s] by blast
qed

theorem singleton_progress_witness: "can_step two_threads 3"
proof -
  have "singleton_start two_threads" by (simp add: singleton_start_def two_threads_def)
  from singleton_progress [OF this rtranclp.rtrancl_refl, of 3] show ?thesis by (simp add: two_threads_def)
qed

end
