(* ===== verification/Singleton_Tso.thy ===== *)
theory Singleton_Tso
  imports Singleton
begin

text \<open>
  \<open>Singleton::GetInstance\<close> on an x86-64 machine. The double-checked locking of \<open>singleton.cpp\<close> reads
  \<open>m_instance\<close> without the mutex, and the code has no barrier of its own. The machine orders memory
  totally per thread (TSO): a store goes into a buffer of its thread and reaches memory at any later
  time, and a thread sees its own buffered store before memory. The mutex is taken and given back by
  locked instructions, which wait until the buffer of their thread is empty. The program points
  are those of \<open>Singleton\<close>, and every run of this machine is a run of the steps there, in which a
  store takes place when it reaches memory.
\<close>

section \<open>Store buffers and steps\<close>

record get_tso =
  memory_instance :: "nat option"
  tso_lock :: "nat option"
  tso_objects :: "nat list"
  tso_pcs :: "nat \<Rightarrow> get_pc"
  tso_stores :: "nat \<Rightarrow> nat option list"

definition tso_at :: "get_tso \<Rightarrow> nat \<Rightarrow> get_pc \<Rightarrow> get_tso" where
  "tso_at s t p = s\<lparr>tso_pcs := (tso_pcs s)(t := p)\<rparr>"

text \<open>What a thread reads for \<open>m_instance\<close>: its newest buffered store, else memory.\<close>

definition own_instance :: "get_tso \<Rightarrow> nat \<Rightarrow> nat option" where
  "own_instance s t = last (memory_instance s # tso_stores s t)"

inductive get_tso_step :: "get_tso \<Rightarrow> get_tso \<Rightarrow> bool" where
  gt_first_check: "tso_pcs s t = P_start \<Longrightarrow>
    get_tso_step s (tso_at s t (if own_instance s t = None then P_lock else P_return))"
| gt_lock: "tso_pcs s t = P_lock \<Longrightarrow> tso_lock s = None \<Longrightarrow> tso_stores s t = [] \<Longrightarrow>
    get_tso_step s ((tso_at s t P_check)\<lparr>tso_lock := Some t\<rparr>)"
| gt_second_check: "tso_pcs s t = P_check \<Longrightarrow>
    get_tso_step s (tso_at s t (if own_instance s t = None then P_new else P_unlock))"
| gt_new: "tso_pcs s t = P_new \<Longrightarrow> p \<notin> set (tso_objects s) \<Longrightarrow>
    get_tso_step s ((tso_at s t (P_store (Some p)))\<lparr>tso_objects := p # tso_objects s\<rparr>)"
| gt_new_failed: "tso_pcs s t = P_new \<Longrightarrow> get_tso_step s (tso_at s t (P_store None))"
| gt_store: "tso_pcs s t = P_store p \<Longrightarrow>
    get_tso_step s ((tso_at s t P_unlock)\<lparr>tso_stores := (tso_stores s)(t := tso_stores s t @ [p])\<rparr>)"
| gt_unlock: "tso_pcs s t = P_unlock \<Longrightarrow> tso_stores s t = [] \<Longrightarrow>
    get_tso_step s ((tso_at s t P_return)\<lparr>tso_lock := None\<rparr>)"
| gt_return: "tso_pcs s t = P_return \<Longrightarrow> get_tso_step s (tso_at s t (P_done (own_instance s t)))"
| gt_again: "tso_pcs s t = P_done p \<Longrightarrow> get_tso_step s (tso_at s t P_start)"
| gt_flush: "tso_stores s t = p # ps \<Longrightarrow>
    get_tso_step s (s\<lparr>memory_instance := p, tso_stores := (tso_stores s)(t := ps)\<rparr>)"

definition get_tso_start :: "get_tso \<Rightarrow> bool" where
  "get_tso_start s \<longleftrightarrow> memory_instance s = None \<and> tso_lock s = None \<and> tso_objects s = []
     \<and> (\<forall>t. tso_pcs s t = P_start \<and> tso_stores s t = [])"

lemma tso_at_simps [simp]:
  "memory_instance (tso_at s t p) = memory_instance s"
  "tso_lock (tso_at s t p) = tso_lock s"
  "tso_objects (tso_at s t p) = tso_objects s"
  "tso_stores (tso_at s t p) = tso_stores s"
  "tso_pcs (tso_at s t p) = (tso_pcs s)(t := p)"
  by (simp_all add: tso_at_def)

section \<open>The sequentially consistent view\<close>

text \<open>A thread with a store in its buffer is seen as one that has yet to make it.\<close>

definition pc_view :: "get_tso \<Rightarrow> nat \<Rightarrow> get_pc" where
  "pc_view s t = (case tso_stores s t of [] \<Rightarrow> tso_pcs s t | p # _ \<Rightarrow> P_store p)"

definition singleton_view :: "get_tso \<Rightarrow> singleton_state" where
  "singleton_view s = \<lparr>m_instance = memory_instance s, m_lock = tso_lock s, objects = tso_objects s, pcs = pc_view s\<rparr>"

text \<open>A buffer holds at most one store, and only between the store and the unlock.\<close>

definition buffers_ok :: "get_tso \<Rightarrow> bool" where
  "buffers_ok s \<longleftrightarrow> (\<forall>t. tso_stores s t = [] \<or> (\<exists>p. tso_stores s t = [p]) \<and> tso_pcs s t = P_unlock)"

lemma buffers_empty: "buffers_ok s \<Longrightarrow> tso_pcs s t \<noteq> P_unlock \<Longrightarrow> tso_stores s t = []"
  by (auto simp: buffers_ok_def)

lemma buffers_full: "buffers_ok s \<Longrightarrow> tso_stores s t = p # ps \<Longrightarrow> ps = [] \<and> tso_pcs s t = P_unlock"
  unfolding buffers_ok_def by (drule spec [of _ t]) auto

lemma own_instance_empty [simp]: "tso_stores s t = [] \<Longrightarrow> own_instance s t = memory_instance s"
  by (simp add: own_instance_def)

lemma singleton_view_simps [simp]:
  "m_instance (singleton_view s) = memory_instance s"
  "m_lock (singleton_view s) = tso_lock s"
  "objects (singleton_view s) = tso_objects s"
  "tso_stores s t = [] \<Longrightarrow> pcs (singleton_view s) t = tso_pcs s t"
  by (simp_all add: singleton_view_def pc_view_def)

lemma view_at:
  "tso_stores s t = [] \<Longrightarrow> singleton_view (tso_at s t p) = at_pc (singleton_view s) t p"
  by (auto simp: singleton_view_def at_pc_def pc_view_def split: list.split)

lemma view_upd:
  "singleton_view (s\<lparr>tso_lock := l\<rparr>) = (singleton_view s)\<lparr>m_lock := l\<rparr>"
  "singleton_view (s\<lparr>tso_objects := obs\<rparr>) = (singleton_view s)\<lparr>objects := obs\<rparr>"
  by (simp_all add: singleton_view_def pc_view_def fun_eq_iff split: list.split)

lemma view_store:
  "tso_stores s t = [] \<Longrightarrow> tso_pcs s t = P_store p \<Longrightarrow>
   singleton_view ((tso_at s t P_unlock)\<lparr>tso_stores := (tso_stores s)(t := [p])\<rparr>) = singleton_view s"
  by (auto simp: singleton_view_def pc_view_def split: list.split)

lemma view_flush:
  "tso_stores s t = [p] \<Longrightarrow> tso_pcs s t = P_unlock \<Longrightarrow>
   singleton_view (s\<lparr>memory_instance := p, tso_stores := (tso_stores s)(t := [])\<rparr>) = (at_pc (singleton_view s) t P_unlock)\<lparr>m_instance := p\<rparr>"
  by (auto simp: singleton_view_def at_pc_def pc_view_def split: list.split)

lemma buffers_step: "get_tso_step s s' \<Longrightarrow> buffers_ok s \<Longrightarrow> buffers_ok s'"
proof (induction rule: get_tso_step.induct)
  case (gt_store s t p)
  then have "tso_stores s t = []" by (simp add: buffers_empty)
  with gt_store show ?case by (simp add: buffers_ok_def)
next
  case (gt_flush s t p ps)
  then have "ps = [] \<and> tso_pcs s t = P_unlock" using buffers_full by blast
  with gt_flush show ?case by (simp add: buffers_ok_def)
qed (auto simp: buffers_ok_def)

lemma get_tso_simulates:
  "get_tso_step s s' \<Longrightarrow> buffers_ok s \<Longrightarrow>
   singleton_view s' = singleton_view s \<or> get_instance_step (singleton_view s) (singleton_view s')"
proof (induction rule: get_tso_step.induct)
  case (gt_first_check s t)
  then have "tso_stores s t = []" by (simp add: buffers_empty)
  with gi_first_check [of "singleton_view s" t] gt_first_check show ?case by (simp add: view_at)
next
  case (gt_lock s t)
  with gi_lock [of "singleton_view s" t] show ?case by (simp add: view_upd view_at)
next
  case (gt_second_check s t)
  then have "tso_stores s t = []" by (simp add: buffers_empty)
  with gi_second_check [of "singleton_view s" t] gt_second_check show ?case by (simp add: view_at)
next
  case (gt_new s t p)
  then have "tso_stores s t = []" by (simp add: buffers_empty)
  with gi_new [of "singleton_view s" t p] gt_new show ?case by (simp add: view_upd view_at)
next
  case (gt_new_failed s t)
  then have "tso_stores s t = []" by (simp add: buffers_empty)
  with gi_new_failed [of "singleton_view s" t] gt_new_failed show ?case by (simp add: view_at)
next
  case (gt_store s t p)
  then have "tso_stores s t = []" by (simp add: buffers_empty)
  with gt_store view_store [of s t p] show ?case by simp
next
  case (gt_unlock s t)
  with gi_unlock [of "singleton_view s" t] show ?case by (simp add: view_upd view_at)
next
  case (gt_return s t)
  then have "tso_stores s t = []" by (simp add: buffers_empty)
  with gi_return [of "singleton_view s" t] gt_return show ?case by (simp add: view_at)
next
  case (gt_again s t p)
  then have "tso_stores s t = []" by (simp add: buffers_empty)
  with gi_again [of "singleton_view s" t p] gt_again show ?case by (simp add: view_at)
next
  case (gt_flush s t p ps)
  then have b: "tso_stores s t = [p]" "tso_pcs s t = P_unlock" "ps = []" using buffers_full by simp_all
  have "pcs (singleton_view s) t = P_store p" using b(1) by (simp add: singleton_view_def pc_view_def)
  with gi_store [of "singleton_view s" t p] view_flush [OF b(1,2)] b(3) show ?case by simp
qed

lemma get_tso_start_view: "get_tso_start s \<Longrightarrow> singleton_start (singleton_view s) \<and> buffers_ok s"
  by (simp add: get_tso_start_def singleton_start_def buffers_ok_def)

interpretation get_tso: state_machine get_tso_start get_tso_step buffers_ok
  by unfold_locales (simp_all add: get_tso_start_view buffers_step)

text \<open>
  C4: On a machine with store buffers, every run of calls of \<open>GetInstance\<close> is, with each store made when
  it reaches memory, a run of the sequentially consistent steps. So there, too, at most one object is
  created, every pointer a call returns, if not null, is that object, also for calls that skip the mutex,
  and it is in memory: the mutex is not given back before the store has reached it.
\<close>

theorem get_instance_tso_refines:
  assumes "get_tso_start s0" and "get_tso_step\<^sup>*\<^sup>* s0 s"
  shows "singleton_start (singleton_view s0) \<and> get_instance_step\<^sup>*\<^sup>* (singleton_view s0) (singleton_view s)
    \<and> length (tso_objects s) \<le> 1
    \<and> (\<forall>t p. tso_pcs s t = P_done (Some p) \<longrightarrow> tso_objects s = [p] \<and> memory_instance s = Some p)
    \<and> (tso_lock s = None \<longrightarrow> (\<forall>t. tso_stores s t = []))"
proof -
  have start: "singleton_start (singleton_view s0)" using get_tso_start_view [OF assms(1)] by simp
  have ok: "buffers_ok s" using get_tso.reachable_inv [OF assms(2,1)] .
  have run: "get_instance_step\<^sup>*\<^sup>* (singleton_view s0) (singleton_view s)"
    using assms(2)
  proof (induction rule: rtranclp_induct)
    case (step s s')
    have "buffers_ok s" using get_tso.reachable_inv [OF step.hyps(1) assms(1)] .
    then show ?case using get_tso_simulates [OF step.hyps(2)] step.IH by (auto intro: rtranclp.rtrancl_into_rtrancl)
  qed simp
  note inv = singleton.reachable_inv [OF run start]
  have "length (tso_objects s) \<le> 1"
    using at_most_one_object [OF inv] by simp
  moreover have "tso_objects s = [p] \<and> memory_instance s = Some p" if "tso_pcs s t = P_done (Some p)" for t p
  proof -
    have "pcs (singleton_view s) t = P_done (Some p)" using that buffers_empty [OF ok, of t] by simp
    then show ?thesis using returned_object [OF inv] by fastforce
  qed
  moreover have "tso_stores s t = []" if "tso_lock s = None" for t
  proof (rule ccontr)
    assume "tso_stores s t \<noteq> []"
    then have "in_section (pcs (singleton_view s) t)" by (auto simp: singleton_view_def pc_view_def split: list.split)
    then show False using inv that by (simp add: singleton_inv_def mutex_ok_def)
  qed
  ultimately show ?thesis using start run by blast
qed

text \<open>A run in which thread 1 has stored the pointer, the store is in its buffer, and thread 2 reads null.\<close>

definition fresh_tso :: get_tso where
  "fresh_tso = \<lparr>memory_instance = None, tso_lock = None, tso_objects = [], tso_pcs = (\<lambda>_. P_start), tso_stores = (\<lambda>_. [])\<rparr>"

theorem get_instance_tso_refines_witness:
  "\<exists>s. get_tso_step\<^sup>*\<^sup>* fresh_tso s \<and> tso_stores s 1 = [Some 7] \<and> tso_pcs s 2 = P_lock \<and> length (tso_objects s) \<le> 1"
proof -
  let ?s1 = "tso_at fresh_tso 1 P_lock"
  let ?s2 = "(tso_at ?s1 1 P_check)\<lparr>tso_lock := Some 1\<rparr>"
  let ?s3 = "tso_at ?s2 1 P_new"
  let ?s4 = "(tso_at ?s3 1 (P_store (Some 7)))\<lparr>tso_objects := [7]\<rparr>"
  let ?s5 = "(tso_at ?s4 1 P_unlock)\<lparr>tso_stores := (tso_stores ?s4)(1 := [Some 7])\<rparr>"
  let ?s6 = "tso_at ?s5 2 P_lock"
  note def = fresh_tso_def own_instance_def
  have "get_tso_step fresh_tso ?s1" using gt_first_check [of fresh_tso 1] by (simp add: def)
  moreover have "get_tso_step ?s1 ?s2" using gt_lock [of ?s1 1] by (simp add: def)
  moreover have "get_tso_step ?s2 ?s3" using gt_second_check [of ?s2 1] by (simp add: def)
  moreover have "get_tso_step ?s3 ?s4" using gt_new [of ?s3 1 7] by (simp add: def)
  moreover have "get_tso_step ?s4 ?s5" using gt_store [of ?s4 1 "Some 7"] by (simp add: def)
  moreover have "get_tso_step ?s5 ?s6" using gt_first_check [of ?s5 2] by (simp add: def)
  ultimately have run: "get_tso_step\<^sup>*\<^sup>* fresh_tso ?s6" by (meson converse_rtranclp_into_rtranclp rtranclp.rtrancl_refl)
  have "get_tso_start fresh_tso" by (simp add: get_tso_start_def fresh_tso_def)
  from get_instance_tso_refines [OF this run] run show ?thesis by (intro exI [of _ ?s6]) simp
qed

end
