(* ===== verification/Daemon.thy ===== *)
theory Daemon
  imports Prelude
begin

text \<open>
  \<open>daemonize\<close> and \<open>daemon_lock\<close> of \<open>daemon.cpp\<close>, over system calls answered by an environment.
\<close>

section \<open>System calls\<close>

datatype daemon_errno = D_EACCES | D_EAGAIN | D_other

datatype daemon_call =
    D_fork
  | D_setsid
  | D_chdir string
  | D_open_null
  | D_dup2 int int
  | D_close int
  | D_perror string
  | D_open_lock string
  | D_getpid
  | D_setlk int
  | D_ftruncate int int
  | D_write int string

record daemon_ret =
  dr_val :: int
  dr_errno :: daemon_errno

type_synonym daemon_env = "(daemon_call, daemon_ret) env"
type_synonym daemon_history = "(daemon_call, daemon_ret) history"

definition daemon_sys :: "daemon_env \<Rightarrow> daemon_history \<Rightarrow> daemon_call \<Rightarrow> daemon_ret \<times> daemon_history" where
  "daemon_sys env h c = invoke env h c"

section \<open>Detaching\<close>

text \<open>The parent exits; the child gets a result.\<close>

datatype daemon_end = Exited | Returned int

fun dup_all :: "daemon_env \<Rightarrow> daemon_history \<Rightarrow> int \<Rightarrow> int list \<Rightarrow> bool \<times> daemon_history" where
  "dup_all env h fd [] = (True, h)"
| "dup_all env h fd (std # stds) =
     (let (r, h1) = daemon_sys env h (D_dup2 fd std)
      in if dr_val r < 0 then (False, h1) else dup_all env h1 fd stds)"

definition daemonize :: "daemon_env \<Rightarrow> daemon_history \<Rightarrow> int \<Rightarrow> int \<Rightarrow> daemon_end \<times> daemon_history" where
  "daemonize env h nochdir noclose =
     (let (f, h1) = daemon_sys env h D_fork
      in if dr_val f = - 1 then (Returned (- 1), h1)
         else if dr_val f \<noteq> 0 then (Exited, h1)
         else let (s, h2) = daemon_sys env h1 D_setsid
              in if dr_val s = - 1 then (Returned (- 1), h2)
                 else let (ok, h3) =
                        (if nochdir = 0
                         then let (c, hc) = daemon_sys env h2 (D_chdir ''/'')
                              in if dr_val c \<noteq> 0 then (False, snd (daemon_sys env hc (D_perror ''chdir''))) else (True, hc)
                         else (True, h2))
                      in if \<not> ok then (Returned (- 1), h3)
                         else if noclose = 0
                         then let (n, h4) = daemon_sys env h3 D_open_null; fd = dr_val n
                              in if fd = - 1 then (Returned 0, h4)
                                 else let (dup, h5) = dup_all env h4 fd [0, 1, 2]
                                      in if \<not> dup then (Returned (- 1), h5)
                                         else if fd > 2
                                         then let (c, h6) = daemon_sys env h5 (D_close fd)
                                              in (if dr_val c < 0 then Returned (- 1) else Returned 0, h6)
                                         else (Returned 0, h5)
                         else (Returned 0, h3))"

section \<open>The lock file\<close>

text \<open>
  The loop that writes the digits of the process id into a buffer of 16 characters, from its end,
  with C's division and remainder.
\<close>

function pid_loop :: "int \<Rightarrow> nat \<Rightarrow> string \<Rightarrow> nat \<times> string" where
  "pid_loop pid n buf =
     (if pid > 0 \<and> n < 16 then pid_loop (pid div 10) (n + 1) (buf[15 - n := char_of (nat (pid mod 10 + 48))]) else (n, buf))"
  by pat_completeness auto

termination
  by (relation "measure (\<lambda>(pid, n, buf). 16 - n)") auto

declare pid_loop.simps [simp del]

definition daemon_lock :: "daemon_env \<Rightarrow> daemon_history \<Rightarrow> string \<Rightarrow> string option \<Rightarrow> int \<times> daemon_history" where
  "daemon_lock env h buf0 fpath =
     (case fpath of None \<Rightarrow> (- 1, h)
      | Some path \<Rightarrow>
          let (o1, h1) = daemon_sys env h (D_open_lock (c_str path)); fd = dr_val o1
          in if fd < 0 then (- 1, h1)
             else let (p, h2) = daemon_sys env h1 D_getpid;
                      (l, h3) = daemon_sys env h2 (D_setlk fd)
                  in if dr_val l < 0
                     then (if dr_errno l = D_EACCES \<or> dr_errno l = D_EAGAIN then - 1 else - 2, h3)
                     else let (n, buf) = pid_loop (dr_val p) 0 buf0
                          in if n > 0
                             then let (_, h4) = daemon_sys env h3 (D_ftruncate fd 0);
                                      (_, h5) = daemon_sys env h4 (D_write fd (take n (drop (16 - n) buf)))
                                  in (fd, h5)
                             else (fd, h3))"

section \<open>Digits\<close>

lemma daemon_sys_unfold [env_simps]: "daemon_sys env h c = (env h c, h @ [(c, env h c)])"
  by (simp add: daemon_sys_def invoke_def)

lemma dec_string_div: "10 \<le> n \<Longrightarrow> dec_string n = dec_string (n div 10) @ [digit_char (n mod 10)]"
  by (subst dec_string.simps) simp

lemma drop_update: "i < length xs \<Longrightarrow> drop i (xs[i := x]) = x # drop (Suc i) xs"
  by (metis Cons_nth_drop_Suc drop_update_cancel length_list_update lessI nth_list_update_eq)

lemma pid_loop_digits:
  "length buf = 16 \<Longrightarrow> n < 16 \<Longrightarrow> 0 < p \<Longrightarrow> p < 10 ^ (16 - n) \<Longrightarrow>
   \<exists>m buf'. pid_loop (int p) n buf = (m, buf') \<and> n < m \<and> m \<le> 16 \<and> length buf' = 16
     \<and> drop (16 - m) buf' = dec_string p @ drop (16 - n) buf"
proof (induction p arbitrary: n buf rule: less_induct)
  case (less p)
  define buf1 where "buf1 = buf[15 - n := digit_char (p mod 10)]"
  have ch: "char_of (nat (int p mod 10 + 48)) = digit_char (p mod 10)"
    by (simp add: digit_char_def nat_add_distrib nat_mod_distrib)
  have step: "pid_loop (int p) n buf = pid_loop (int (p div 10)) (n + 1) buf1"
    using less.prems by (subst pid_loop.simps) (simp add: ch buf1_def zdiv_int)
  have d: "drop (16 - Suc n) buf1 = digit_char (p mod 10) # drop (16 - n) buf"
    using drop_update [of "15 - n" buf "digit_char (p mod 10)"] less.prems(1,2)
    by (simp add: buf1_def Suc_diff_le [symmetric])
  have l1: "length buf1 = 16" using less.prems(1) by (simp add: buf1_def)
  show ?case
  proof (cases "p < 10")
    case True
    then have "pid_loop (int p) n buf = (n + 1, buf1)" unfolding step by (simp add: pid_loop.simps)
    moreover have "dec_string p = [digit_char p]" using True by (simp add: dec_string.simps)
    ultimately show ?thesis using True d l1 less.prems(2) by simp
  next
    case False
    have n: "Suc n < 16"
    proof (rule ccontr)
      assume "\<not> Suc n < 16"
      then have "16 - n = 1" using less.prems(2) by simp
      with less.prems(4) False show False by simp
    qed
    then have "16 - n = Suc (16 - Suc n)" by simp
    then have "(10 :: nat) ^ (16 - n) = 10 * 10 ^ (16 - Suc n)" by simp
    then have "p div 10 < 10 ^ (16 - Suc n)" using less.prems(4) by (simp add: less_mult_imp_div_less mult.commute)
    moreover have "0 < p div 10" using False by (simp add: div_greater_zero_iff)
    ultimately obtain m buf' where
      "pid_loop (int (p div 10)) (Suc n) buf1 = (m, buf')" "Suc n < m" "m \<le> 16" "length buf' = 16"
      "drop (16 - m) buf' = dec_string (p div 10) @ drop (16 - Suc n) buf1"
      using less.IH [of "p div 10" buf1 "Suc n"] False l1 n less.prems(3) by auto
    with False step d show ?thesis by (simp add: dec_string_div)
  qed
qed

lemma pid_text:
  assumes "length buf = 16" and "0 < p" and "p < 2 ^ 31" and "pid_loop p 0 buf = (n, buf')"
  shows "0 < n \<and> take n (drop (16 - n) buf') = dec_string (nat p)"
proof -
  have "nat p < 10 ^ (16 - 0)" "0 < nat p" and i: "int (nat p) = p" using assms(2,3) by simp_all
  from pid_loop_digits [OF assms(1) _ this(2,1)] i assms(4) have
    r: "0 < n" "n \<le> 16" "length buf' = 16" and d: "drop (16 - n) buf' = dec_string (nat p) @ drop (16 - 0) buf" by auto
  have "length (drop (16 - n) buf') = n" unfolding length_drop using r by simp
  then have "take n (drop (16 - n) buf') = drop (16 - n) buf'" by (metis order_refl take_all)
  with r(1) d assms(1) show ?thesis by simp
qed

section \<open>Properties\<close>



text \<open>\<open>daemonize\<close> returns in the child only, and a result of 0 means that the session is its own.\<close>

lemma daemonize_child:
  assumes "daemonize env h nochdir noclose = (Returned r, h')" and "dr_val (env h D_fork) \<noteq> - 1"
  shows "dr_val (env h D_fork) = 0 \<and> (r = 0 \<longrightarrow> dr_val (env (h @ [(D_fork, env h D_fork)]) D_setsid) \<noteq> - 1)"
  using assms by (auto simp: daemonize_def env_simps Let_def split: if_splits prod.splits)

end
