(* ===== verification/Thread_Event.thy ===== *)
theory Thread_Event
  imports Prelude
begin

text \<open>
  The thread base class of \<open>thread.h\<close> and \<open>thread.cpp\<close> and the event handler interface of
  \<open>event_handler.h\<close>. Virtual functions and the pthread library are answered by an environment.
\<close>

section \<open>Threads\<close>

datatype thread_call =
    T_pre_run
  | T_run
  | T_post_run
  | Pthread_create
  | Pthread_detach nat
  | Pthread_join nat
  | Pthread_exit int

text \<open>An answer: a result and, for \<open>pthread_create\<close>, the id it stores; if it fails, that is no thread's.\<close>

record thread_ret =
  tr_val :: int
  tr_tid :: nat

type_synonym thread_env = "(thread_call, thread_ret) env"
type_synonym thread_history = "(thread_call, thread_ret) history"

record thread =
  m_tid :: nat
  m_joinable :: bool

definition thread_make :: thread where
  "thread_make = \<lparr>m_tid = 0, m_joinable = True\<rparr>"

definition thread_id :: "thread \<Rightarrow> nat" where
  "thread_id t = m_tid t"

definition thread_run :: "thread_env \<Rightarrow> thread_history \<Rightarrow> thread \<Rightarrow> int \<times> thread \<times> thread_history" where
  "thread_run env h t =
     (let (r, h1) = invoke env h T_pre_run
      in if tr_val r < 0 then (- 1, t, h1)
         else let (c, h2) = invoke env h1 Pthread_create
              in (if tr_val c \<noteq> 0 then - 2 else 0, t\<lparr>m_tid := tr_tid c\<rparr>, h2))"

text \<open>What the new thread does.\<close>

definition thread_func :: "thread_env \<Rightarrow> thread_history \<Rightarrow> thread_history" where
  "thread_func env h =
     (let (r, h1) = invoke env h T_run; (_, h2) = invoke env h1 T_post_run in snd (invoke env h2 (Pthread_exit (tr_val r))))"

definition thread_detach :: "thread_env \<Rightarrow> thread_history \<Rightarrow> thread \<Rightarrow> int \<times> thread \<times> thread_history" where
  "thread_detach env h t =
     (if \<not> m_joinable t then (- 1, t, h)
      else let (r, h1) = invoke env h (Pthread_detach (m_tid t))
           in (tr_val r, if tr_val r = 0 then t\<lparr>m_joinable := False\<rparr> else t, h1))"

definition thread_join :: "thread_env \<Rightarrow> thread_history \<Rightarrow> thread \<Rightarrow> int \<times> thread_history" where
  "thread_join env h t =
     (if \<not> m_joinable t then (- 1, h) else let (r, h1) = invoke env h (Pthread_join (m_tid t)) in (tr_val r, h1))"

text \<open>After a successful \<open>detach\<close>, neither \<open>join\<close> nor \<open>detach\<close> reaches the library again.\<close>

lemma detached_is_final:
  assumes "thread_detach env h t = (0, t', h')" and "m_joinable t"
  shows "\<not> m_joinable t' \<and> thread_join env k t' = (- 1, k) \<and> thread_detach env k t' = (- 1, t', k)"
  using assms by (auto simp: thread_detach_def thread_join_def invoke_def split: if_splits)

text \<open>\<open>join\<close> does not change the object, so joining twice hands a stale id to the library.\<close>

lemma join_twice:
  assumes "m_joinable t" and "thread_join env h t = (0, h1)"
  shows "\<exists>r1 r2. thread_join env h1 t = (tr_val r2, h @ [(Pthread_join (m_tid t), r1), (Pthread_join (m_tid t), r2)])"
  using assms by (auto simp: thread_join_def invoke_def)

section \<open>Ids and joinability\<close>

datatype thread_op = TO_run | TO_detach | TO_join

fun thread_step :: "thread_env \<Rightarrow> thread_history \<times> thread \<Rightarrow> thread_op \<Rightarrow> thread_history \<times> thread" where
  "thread_step env (h, t) TO_run = (case thread_run env h t of (_, t1, h1) \<Rightarrow> (h1, t1))"
| "thread_step env (h, t) TO_detach = (case thread_detach env h t of (_, t1, h1) \<Rightarrow> (h1, t1))"
| "thread_step env (h, t) TO_join = (snd (thread_join env h t), t)"

text \<open>
  The thread the object can have to do with: the one made by the last \<open>pthread_create\<close>, if there was one
  and it succeeded; whether a thread has been detached.
\<close>

definition last_created :: "thread_history \<Rightarrow> nat option" where
  "last_created h = foldl (\<lambda>i (c, r). if c = Pthread_create then if tr_val r = 0 then Some (tr_tid r) else None else i) None h"

definition detached :: "thread_history \<Rightarrow> bool" where
  "detached h \<longleftrightarrow> (\<exists>(c, r) \<in> set h. (\<exists>i. c = Pthread_detach i) \<and> tr_val r = 0)"

definition handle_valid :: "thread_history \<Rightarrow> thread_call \<Rightarrow> bool" where
  "handle_valid h c \<longleftrightarrow> (\<forall>i. c = Pthread_join i \<or> c = Pthread_detach i \<longrightarrow> last_created h \<in> {None, Some i} \<and> \<not> detached h)"

definition handles_ok :: "thread_history \<Rightarrow> bool" where
  "handles_ok h \<longleftrightarrow> (\<forall>k < length h. handle_valid (take k h) (fst (h ! k)))"

lemma thread_history_snoc [simp]:
  "last_created (h @ [(c, r)])
     = (if c = Pthread_create then if tr_val r = 0 then Some (tr_tid r) else None else last_created h)"
  "detached (h @ [(c, r)]) \<longleftrightarrow> detached h \<or> (\<exists>i. c = Pthread_detach i) \<and> tr_val r = 0"
  "handles_ok (h @ [(c, r)]) \<longleftrightarrow> handles_ok h \<and> handle_valid h c"
proof -
  show "last_created (h @ [(c, r)])
     = (if c = Pthread_create then if tr_val r = 0 then Some (tr_tid r) else None else last_created h)"
    by (simp add: last_created_def)
  show "detached (h @ [(c, r)]) \<longleftrightarrow> detached h \<or> (\<exists>i. c = Pthread_detach i) \<and> tr_val r = 0"
    by (simp add: detached_def disj_commute)
  show "handles_ok (h @ [(c, r)]) \<longleftrightarrow> handles_ok h \<and> handle_valid h c"
    by (simp add: handles_ok_def All_less_Suc nth_append conj_commute)
qed

lemmas thread_history_snoc2 [simp] = thread_history_snoc [of "h @ [x]" for h x, unfolded append_assoc append.simps]

definition thread_ok :: "thread_history \<times> thread \<Rightarrow> bool" where
  "thread_ok = (\<lambda>(h, t). handles_ok h \<and> last_created h \<in> {None, Some (m_tid t)} \<and> m_joinable t = (\<not> detached h))"

lemma thread_step_ok: "thread_ok s \<Longrightarrow> thread_ok (thread_step env s x)"
  by (cases s; cases x) (auto simp: thread_ok_def handle_valid_def thread_run_def thread_detach_def thread_join_def invoke_def Let_def)

interpretation threads: accounted "thread_step env" "\<lambda>_. True" thread_ok "\<lambda>_. 0"
  by unfold_locales (simp_all add: thread_step_ok)

text \<open>A new object counts as joinable: before any run, id 0 goes to the library, where POSIX leaves the effect undefined.\<close>

lemma join_before_run:
  "thread_join env h thread_make = (tr_val (env h (Pthread_join 0)), h @ [(Pthread_join 0, env h (Pthread_join 0))])"
  by (simp add: thread_join_def thread_make_def invoke_def)

text \<open>
  C22: Over any sequence of runs, detaches and joins of one object, whatever the subclass and the
  library answer: once the last \<open>pthread_create\<close> has succeeded, every id handed to \<open>pthread_join\<close> or
  \<open>pthread_detach\<close> is that of the thread it made, and none is handed over after a successful
  detach. Running the object again does not change that: the new thread can be neither joined nor
  detached. Before the first run, and after a failed \<open>pthread_create\<close>, there is no such thread, and a join
  or detach hands over what \<open>m_tid\<close> holds, for a new object 0 (\<open>join_before_run\<close>); the id of a thread joined
  already is handed over again by a second join (\<open>join_twice\<close>).
\<close>

theorem thread_handles_valid:
  assumes "foldl (thread_step env) ([], thread_make) ops = (h, t)"
  shows "(\<forall>k < length h. \<forall>i. fst (h ! k) = Pthread_join i \<or> fst (h ! k) = Pthread_detach i \<longrightarrow>
        last_created (take k h) \<in> {None, Some i} \<and> \<not> detached (take k h))
    \<and> last_created h \<in> {None, Some (m_tid t)}
    \<and> (detached h \<longrightarrow> thread_join env h t = (- 1, h) \<and> thread_detach env h t = (- 1, t, h)
        \<and> (\<exists>r t1 h1. thread_run env h t = (r, t1, h1) \<and> thread_join env h1 t1 = (- 1, h1) \<and> thread_detach env h1 t1 = (- 1, t1, h1)))"
proof -
  have "thread_ok ([], thread_make)" by (simp add: thread_ok_def handles_ok_def thread_make_def last_created_def detached_def)
  from threads.run_ok [OF this, of ops env] assms have ok: "thread_ok (h, t)" by (simp add: list_all_iff)
  obtain r t1 h1 where run: "thread_run env h t = (r, t1, h1)" by (cases "thread_run env h t") auto
  then have "m_joinable t1 = m_joinable t" by (auto simp: thread_run_def invoke_def Let_def split: if_splits)
  with ok run show ?thesis by (auto simp: thread_ok_def handles_ok_def handle_valid_def thread_join_def thread_detach_def)
qed

theorem thread_handles_valid_witness:
  "let env = (\<lambda>h c. \<lparr>tr_val = 0, tr_tid = length h\<rparr>); (h, t) = foldl (thread_step env) ([], thread_make) [TO_run, TO_join, TO_detach, TO_run]
   in m_tid t = 5 \<and> thread_join env h t = (- 1, h)"
proof -
  let ?env = "\<lambda>h c. \<lparr>tr_val = 0, tr_tid = length h\<rparr>"
  let ?h = "map (\<lambda>(i, c). (c, \<lparr>tr_val = 0, tr_tid = i\<rparr>)) [(0, T_pre_run), (1, Pthread_create), (2, Pthread_join 1),
      (3, Pthread_detach 1), (4, T_pre_run), (5, Pthread_create)]"
  have run: "foldl (thread_step ?env) ([], thread_make) [TO_run, TO_join, TO_detach, TO_run] = (?h, \<lparr>m_tid = 5, m_joinable = False\<rparr>)"
    by (simp add: thread_run_def thread_join_def thread_detach_def invoke_def thread_make_def)
  have "detached ?h" by (simp add: detached_def)
  with thread_handles_valid [OF run] run show ?thesis by simp
qed

section \<open>Event handlers\<close>

datatype event_call = Write_handler int nat | Read_handler int nat | Error_handler int nat | Close_handler int nat

text \<open>The argument is a pointer, 0 the null pointer.\<close>

record event_handler =
  ev_fd :: int
  ev_arg :: nat

definition event_handler_with :: "int \<Rightarrow> nat \<Rightarrow> event_handler" where
  "event_handler_with fd arg = \<lparr>ev_fd = fd, ev_arg = arg\<rparr>"

definition event_handler_make :: event_handler where
  "event_handler_make = \<lparr>ev_fd = - 1, ev_arg = 0\<rparr>"

definition set_event_args :: "event_handler \<Rightarrow> int \<Rightarrow> nat \<Rightarrow> event_handler" where
  "set_event_args e fd arg = e\<lparr>ev_fd := fd, ev_arg := arg\<rparr>"

definition handle_write_event :: "(event_call, int) env \<Rightarrow> (event_call, int) history \<Rightarrow> event_handler \<Rightarrow> int \<times> (event_call, int) history" where
  "handle_write_event env h e = invoke env h (Write_handler (ev_fd e) (ev_arg e))"

definition handle_read_event :: "(event_call, int) env \<Rightarrow> (event_call, int) history \<Rightarrow> event_handler \<Rightarrow> int \<times> (event_call, int) history" where
  "handle_read_event env h e = invoke env h (Read_handler (ev_fd e) (ev_arg e))"

definition handle_error_event :: "(event_call, int) env \<Rightarrow> (event_call, int) history \<Rightarrow> event_handler \<Rightarrow> int \<times> (event_call, int) history" where
  "handle_error_event env h e = invoke env h (Error_handler (ev_fd e) (ev_arg e))"

definition handle_close_event :: "(event_call, int) env \<Rightarrow> (event_call, int) history \<Rightarrow> event_handler \<Rightarrow> int \<times> (event_call, int) history" where
  "handle_close_event env h e = invoke env h (Close_handler (ev_fd e) (ev_arg e))"

end
