(* ===== verification/Spec2Isabelle.thy ===== *)
theory Spec2Isabelle
  imports String_Utils Timer_Nested Dispatcher_Callbacks Tcp_Client_Mgr Queue_Tso Plugin_Loader Conf Log_Macros Logger_Files
    Fs_Utils Singleton_Tso Daemon Thread_Event
begin

text \<open>
  A verification development of ig-libs, a C++ library of system components for servers: ring
  buffers and queues between threads, timers, TCP clients and pools of them, a dispatcher for
  protocol handlers with dynamically loaded plugins, configuration files, logging, and helpers.

  \<^bold>\<open>How the code is modelled.\<close> A class is a record with its members, a method is a definition that takes the
  record and returns it updated, in the code's order of tests, calls and early returns. Machine
  integers keep their width (\<open>u16\<close>, \<open>u32\<close>, \<open>u64\<close>, \<open>byte\<close> are words), so they wrap as in the code;
  pointers that may be null are options. An access outside a block or through a null pointer is a
  value of type \<open>fault\<close> in the sum type \<open>fault + 'a\<close>. Whatever leaves the program (system calls, the
  allocator, virtual functions, callbacks, the dynamic linker, the clock) is answered by an
  environment: a function of the history of answered calls and of the call. The history is part of
  the state, so which calls are made, and in which order, is part of the model. What an environment
  promises is a named hypothesis (\<open>kernel_ok\<close>, \<open>fd_kernel_ok\<close>, \<open>pipe_ok\<close>, \<open>order_ok\<close>, \<open>own_tables\<close>, \<open>interrupts_bounded\<close>, \<dots>), and each has a
  sample instance that satisfies it. A destructor that only calls another method (\<open>close\<close> of a client or a
  lister, \<open>uninit\<close> of the pool, \<open>clear_plugins\<close>, \<open>clear_protos\<close>, \<open>clear\<close>, \<open>ring_buffer_free\<close>) is modelled by that method.

  \<^bold>\<open>Theories.\<close>
  \<^item> \<open>Prelude\<close>: words, blocks and \<open>memcpy\<close>, environments, C strings, decimal numerals, \<open>atoi\<close>; the
    interfaces \<open>accounted\<close> (what is acquired and not released is held) and \<open>state_machine\<close> (an inductive
    invariant of a step relation).
  \<^item> \<open>Utils\<close> (\<open>utils.h\<close>): \<open>is_power_of_2\<close>, \<open>roundup_pow_of_two\<close> on 64 bits, with what they compute.
  \<^item> \<open>Ring_Buffer\<close> (\<open>ring_buffer.h\<close>, \<open>ring_buffer.cpp\<close>): the ring, its operations, the list of bytes it
    stands for (\<open>rb_bytes\<close>), and the interface \<open>byte_ring\<close>: what a write and a read do to that list.
  \<^item> \<open>Ring_Concurrent\<close> (\<open>ring_buffer.cpp\<close> again): one writer and one reader thread on a ring without a lock,
    a step for every access to shared memory. The invariant makes the ring a FIFO in every
    interleaving; a call without interference computes the sequential definition; a started call ends
    after a bounded number of its own steps.
  \<^item> \<open>Ring_Tso\<close> (\<open>ring_buffer.cpp\<close> and the barriers of \<open>utils.h\<close>): the same threads on x86-64, where each has
    a buffer of stores and the barriers only stop the compiler. A simulation: the state once the
    buffers are drained is one of \<open>Ring_Concurrent\<close>, so what is proved there holds on that machine.
  \<^item> \<open>Shared_Queue\<close> (\<open>shared_queue.h\<close>, \<open>shared_queue.cpp\<close>): a ring and a notification pipe. Its proofs about
    messages use the interface \<open>byte_ring\<close>; the pipe has two ends and the bytes between them; descriptors and
    memory blocks are \<open>accounted\<close>.
  \<^item> \<open>Queue_Concurrent\<close> (\<open>shared_queue.cpp\<close> again): a writer and a reader thread of the queue, over the steps of
    \<open>Ring_Concurrent\<close>, with the notifications in the pipe: when no wake-up is lost, and when one is.
  \<^item> \<open>Queue_Tso\<close> (\<open>shared_queue.cpp\<close> again): the same threads on x86-64 with store buffers; a simulation, and that
    the message of a notification is in memory when its reader wakes.
  \<^item> \<open>String_Utils\<close> (\<open>string_utils.h\<close>, \<open>string_utils.cpp\<close>): the index loops of \<open>split\<close>, \<open>trim\<close>,
    \<open>is_utf8\<close>, \<open>str2int\<close>, \<open>parse_str_time\<close>, related to reference definitions.
  \<^item> \<open>Timer\<close> (\<open>timer.h\<close>, \<open>timer.cpp\<close>): the timer list; a pass, in which passes a timer is called, removal.
  \<^item> \<open>Timer_Reentrant\<close> (\<open>timer.cpp\<close> again): the loop of \<open>process_timer\<close> with its iterator over list nodes, when
    callbacks add and remove timers: which of them end without touching an erased node, and which do not.
  \<^item> \<open>Timer_Nested\<close> (\<open>timer.cpp\<close> again): callbacks that may also call \<open>process_timer\<close>, as a stack of passes and
    callbacks in progress, which refines \<open>Timer_Reentrant\<close>; what careless callbacks break.
  \<^item> \<open>Proto_Dispatcher\<close> (\<open>proto_dispatcher.cpp\<close>, \<open>proto_handler.h\<close>): the handler table, as an instance of the
    interface \<open>registry\<close>; the balance of \<open>init\<close> and \<open>uninit\<close> calls.
  \<^item> \<open>Dispatcher_Reentrant\<close> (\<open>proto_dispatcher.cpp\<close> again): the dispatcher when handlers call it back, as a stack of
    operations in progress over the nodes of the table and iterators to them; its invariant, and a measure.
  \<^item> \<open>Dispatcher_Callbacks\<close> (\<open>proto_dispatcher.cpp\<close> again): that it refines \<open>Proto_Dispatcher\<close>, which handlers are safe,
    whose calls return, and what the others break.
  \<^item> \<open>Plugin_Loader\<close> (\<open>plugin_loader.cpp\<close>, \<open>plugin_iface.h\<close>): loading and unloading shared objects, whose
    functions change the dispatcher's state; what became of every handle, failed \<open>dlclose\<close> calls included.
  \<^item> \<open>Tcp_Client\<close> (\<open>tcp_client.h\<close>, \<open>tcp_client.cpp\<close>): every operation over answered system calls; what \<open>send\<close>
    and \<open>recv\<close> mean for the stream; sockets are \<open>accounted\<close>, each descriptor by itself.
  \<^item> \<open>Tcp_Client_Mgr\<close> (\<open>tcp_client_mgr.h\<close>, \<open>tcp_client_mgr.cpp\<close>): the pool of clients, its host list (split
    with \<open>String_Utils\<close>), round-robin selection by a 32-bit counter, transfers.
  \<^item> \<open>Conf\<close> (\<open>conf.h\<close>, \<open>conf.cpp\<close>): the parser on characters and its refinement to the abstract \<open>meaning\<close>
    of a set of files.
  \<^item> \<open>Logger\<close> (\<open>log_base.h\<close>, \<open>log_base.cpp\<close>): levels, lines, rotation, with buffer bounds as faults.
  \<^item> \<open>Logger_Fds\<close> (\<open>log_base.cpp\<close> again): sequences of calls of the logger and the descriptors they leave open.
  \<^item> \<open>Logger_Threads\<close> (\<open>log_base.cpp\<close> again): \<open>log_message\<close> in any number of threads, a step for every system
    call and access to \<open>_fd\<close> or the mutex, over a kernel with a directory, files and descriptors; the invariant.
  \<^item> \<open>Logger_Files\<close> (\<open>log_base.cpp\<close> again): from that relation, the names and lengths of the files, and where lines get lost.
  \<^item> \<open>Log_Macros\<close> (\<open>log.h\<close>): the macros messages are written with, and the levels of \<open>log_base.h\<close>.
  \<^item> \<open>Fs_Utils\<close> (\<open>fs_utils.cpp\<close>, \<open>filelister.cpp\<close>): directory listing, sizes, \<open>makedir\<close>, units.
  \<^item> \<open>Singleton\<close> (\<open>singleton.cpp\<close>): double-checked locking by any number of threads, a step relation.
  \<^item> \<open>Singleton_Tso\<close> (\<open>singleton.cpp\<close> again): the same calls on x86-64 with store buffers, and a simulation by the
    steps of \<open>Singleton\<close>.
  \<^item> \<open>Daemon\<close> (\<open>daemon.cpp\<close>): detaching, and the lock file with the process id.
  \<^item> \<open>Thread_Event\<close> (\<open>thread.h\<close>, \<open>thread.cpp\<close>, \<open>event_handler.h\<close>): the forwarding base classes, and
    which thread ids reach the pthread library.
  This theory adds what spans components: a send on the pool down to the bytes of one client's
  stream, the life of a plugin's handler in the dispatcher, integers in configuration files.

  \<^bold>\<open>Bounds and fuel.\<close> \<open>send\<close> and \<open>recv\<close> retry on interruption and may loop for ever, so they take fuel and
  give \<open>None\<close> without it; on a kernel that interrupts at most \<open>N\<close> times in a row, \<open>len * (N + 1) + N + 1\<close>
  rounds are enough (\<open>send_exact\<close>, \<open>recv_exact\<close> state that a result exists). \<open>parse_file\<close> recurses on the number
  of free descriptors: a file stays open while its inclusions are read, and \<open>open\<close> fails when none
  is left, so this is the code's own bound. Where callbacks re-enter an object (\<open>process_nodes\<close>, \<open>nest_run\<close>, \<open>disp_run\<close>) a run
  need not return: \<open>None\<close> is one that does not, and \<open>considerate_callbacks\<close> and \<open>shallow_handlers_return\<close> show which do.
  The other loops terminate by a measure. The selection
  counter of the pool wraps at \<open>2 ^ 32\<close>; the theorems on selection assume that it does not wrap during
  the call or that the pool's size divides \<open>2 ^ 32\<close>, and \<open>select_misses_alive_at_wrap\<close> shows what happens otherwise.

  \<^bold>\<open>Not modelled.\<close> Reordering by a machine weaker than x86-64, for which the code has no barriers;
  the copy of a ring into another process; the log output of the other
  components and its effect on \<open>errno\<close>; in \<open>Logger_Threads\<close>, the file of warnings, \<open>check\<close>, calls of the
  setters while threads log, and writes that the kernel accepts in part; printing and parsing of floating-point
  numbers (parameters); configuration files of 2 GB and more, whose length the code narrows to \<open>int\<close>, and timeouts
  whose microseconds overflow \<open>time_t\<close>;
  \<open>TcpClientMgr::send_request\<close>, which is declared but commented out in the source.
\<close>

section \<open>The pool and its clients\<close>

lemma mgr_send_selected:
  assumes "mgr_ok m" and "select_connection m = Inr (int j, m\<lparr>m_conn_index := x\<rparr>)"
    and "j < length (m_connections m)" and "length (m_connections m) \<le> 2 ^ 31"
    and "send_client fuel env w (m_connections m ! j) buf len = Some (r, c', w')"
  shows "mgr_send fuel env w m buf len
       = Some (Inr (r, m\<lparr>m_conn_index := x, m_connections := (m_connections m)[j := c']\<rparr>, w'))"
proof -
  have j: "unat (of_nat j :: u32) = j"
    using assms(3,4) by (simp add: unat_of_nat)
  have "\<not> m_conn_count m \<le> of_nat j"
    using assms(1,3) j by (simp add: word_le_nat_alt mgr_ok_def)
  then show ?thesis
    using assms j by (simp add: mgr_send_def mgr_send_to_def conn_at_def set_conn_def)
qed

text \<open>
  C19: On a kernel that interrupts at most \<open>N\<close> times in a row, a send on the pool returns without a
  fault. If no connection is alive the result is -1 and no call is made. Otherwise the first alive
  connection at or after the counter's position gets the buffer, every other connection is left
  alone, and one of three ends has come: the result is the length (as an \<open>int\<close>, equal to it below \<open>2 ^ 31\<close>),
  the kernel took exactly the buffer and no descriptor was closed; it is 0, the kernel took nothing and
  no descriptor was closed; it is -1, the kernel took a proper prefix, and the descriptor of that
  connection, and no other, has been closed. For lengths below \<open>2 ^ 31\<close> the result tells which.
\<close>

theorem pool_send_exact:
  assumes "mgr_ok m" and "counter_fits m" and "length (m_connections m) \<le> 2 ^ 31"
    and "kernel_ok env" and "interrupts_bounded N env" and "send_progresses env"
    and "len \<noteq> 0" and "unat len \<le> length b" and "unat len * (N + 1) + N < fuel"
  defines "n \<equiv> length (m_connections m)" and "i \<equiv> unat (m_conn_index m)"
  shows "\<exists>r m' w'. mgr_send fuel env w m (Some b) len = Some (Inr (r, m', w'))
    \<and> (if \<forall>c \<in> set (m_connections m). \<not> is_alive c
       then r = - 1 \<and> m_connections m' = m_connections m \<and> w' = w
       else \<exists>k j c c' t. k < n \<and> j = (i + k) mod n \<and> c = m_connections m ! j \<and> is_alive c
         \<and> (\<forall>l < k. \<not> is_alive (m_connections m ! ((i + l) mod n)))
         \<and> m_connections m' = (m_connections m)[j := c']
         \<and> accepted (m_fd c) (calls w') = accepted (m_fd c) (calls w) @ take t b
         \<and> (r = int_of_size len \<and> c' = c \<and> t = unat len \<and> no_socket_closed w w'
            \<or> r = tc_timeout \<and> c' = c \<and> t = 0 \<and> no_socket_closed w w'
            \<or> r = tc_error \<and> c' = c\<lparr>m_fd := - 1\<rparr> \<and> t < unat len \<and> only_closed (m_fd c) w w'))
    \<and> (unat len < 2 ^ 31 \<longrightarrow> int_of_size len = int (unat len))"
proof (rule select_connection_scan [OF assms(1-3)], goal_cases)
  case 1
  then show ?case using int_of_size_small [of len] by (simp add: mgr_send_def)
next
  case one: (2 k)
  define j where "j = (i + k) mod n"
  define c where "c = m_connections m ! j"
  have "0 < n" unfolding n_def by (rule le_less_trans [OF le0 one(1)])
  then have j: "j < n" by (simp add: j_def)
  have al: "is_alive c" using one(2) by (simp add: c_def j_def i_def n_def)
  then have "m_fd c \<ge> 0" by (auto simp: is_alive_def split: if_splits)
  then obtain r c' w' t where s: "send_client fuel env w c (Some b) len = Some (r, c', w')"
    "accepted (m_fd c) (calls w') = accepted (m_fd c) (calls w) @ take t b"
    and fin: "r = int_of_size len \<and> c' = c \<and> t = unat len \<and> no_socket_closed w w'
      \<or> r = tc_timeout \<and> c' = c \<and> t = 0 \<and> no_socket_closed w w'
      \<or> r = tc_error \<and> c' = c\<lparr>m_fd := - 1\<rparr> \<and> t < unat len \<and> only_closed (m_fd c) w w'"
    by (rule send_client_returns [OF assms(4-6) _ assms(7-9)])
  let ?m' = "m\<lparr>m_conn_index := m_conn_index m + of_nat (Suc k), m_connections := (m_connections m)[j := c']\<rparr>"
  have m: "mgr_send fuel env w m (Some b) len = Some (Inr (r, ?m', w'))"
    using mgr_send_selected [OF assms(1) one(4) _ assms(3)] j s(1) by (simp add: j_def c_def i_def n_def)
  have some: "\<not> (\<forall>c \<in> set (m_connections m). \<not> is_alive c)"
    using al j nth_mem [of j "m_connections m"] by (auto simp: c_def n_def)
  show ?case
    unfolding if_not_P [OF some]
    by (intro exI [of _ r] exI [of _ ?m'] exI [of _ w'] conjI exI [of _ k] exI [of _ j] exI [of _ c]
        exI [of _ c'] exI [of _ t] impI int_of_size_small fin m s(2) al)
      (use one j_def c_def in \<open>simp_all add: i_def n_def\<close>)
qed

theorem pool_send_exact_witness:
  "let m = \<lparr>m_connections = [tcp_client_init, tcp_client_init\<lparr>m_fd := 5\<rparr>], m_conn_count = 2, m_conn_index = 0, m_send_type = 0\<rparr>
   in \<exists>r m' w'. mgr_send 20 sample_kernel start_world m (Some [1, 2, 3]) 3 = Some (Inr (r, m', w'))
      \<and> length (m_connections m') = 2"
proof -
  let ?m = "\<lparr>m_connections = [tcp_client_init, tcp_client_init\<lparr>m_fd := 5\<rparr>], m_conn_count = 2, m_conn_index = 0, m_send_type = 0\<rparr>"
  have "mgr_ok ?m" "counter_fits ?m" "length (m_connections ?m) \<le> 2 ^ 31"
    by (simp_all add: mgr_ok_def counter_fits_def)
  from pool_send_exact [OF this sample_kernel_ok sample_kernel_interrupts sample_kernel_progresses,
      of 3 "[1, 2, 3]" 20 start_world]
  have "\<exists>r m' w'. mgr_send 20 sample_kernel start_world ?m (Some [1, 2, 3]) 3 = Some (Inr (r, m', w'))
      \<and> (\<exists>j c'. m_connections m' = (m_connections ?m)[j := c'])" by (simp add: is_alive_def) blast
  then obtain r m' w' where s: "mgr_send 20 sample_kernel start_world ?m (Some [1, 2, 3]) 3 = Some (Inr (r, m', w'))"
    and "\<exists>j c'. m_connections m' = (m_connections ?m)[j := c']"
    by blast
  then obtain j c' where "m_connections m' = (m_connections ?m)[j := c']" by blast
  then have "length (m_connections m') = length (m_connections ?m)" by (simp only: length_list_update)
  then have "length (m_connections m') = 2" by simp
  with s show ?thesis unfolding Let_def by blast
qed

section \<open>Plugins and the dispatcher\<close>

text \<open>A plugin whose register function registers the handler \<open>p\<close> for a protocol, and whose unregister function takes it back.\<close>

definition handler_plugin :: "handler_env \<Rightarrow> proto_id \<Rightarrow> nat \<Rightarrow> plugin_env \<Rightarrow> bool" where
  "handler_plugin henv pid p env \<longleftrightarrow>
     (\<forall>h q d. (pl_val (env h (P_register q d)), pl_disp (env h (P_register q d)))
               = register_proto henv (fst d) (snd d) pid (Some p))
   \<and> (\<forall>h q d. pl_disp (env h (P_unregister q d)) = snd (unregister_proto henv (fst d) (snd d) pid))"

text \<open>
  C20: A plugin that registers one handler, loaded successfully: its protocol was free before, a packet
  of that protocol now reaches the handler, and all other protocols have the handlers they had. When the plugin is
  unloaded the dispatcher's table is as it was before, if the plugin has an unregister function;
  if it has none, the table still holds the handler, whose code is gone.
\<close>

theorem plugin_handler_lifetime:
  assumes "handler_plugin henv pid p env" and "table_ok (fst (m_dispatcher L))"
    and "load_plugin env L path = (0, L1)" and "unload_plugin env L1 path = (r, L2)"
    and "m_dispatcher L1 = (m1, h1)"
  shows "handler_of (fst (m_dispatcher L)) pid = None
    \<and> handler_of m1 pid = Some p \<and> (\<forall>j. j \<noteq> pid \<longrightarrow> handler_of m1 j = handler_of (fst (m_dispatcher L)) j)
    \<and> fst (dispatch enum henv m1 h1 pid fd buf len) = 0
    \<and> (\<exists>rest. snd (dispatch enum henv m1 h1 pid fd buf len)
          = h1 @ (H_process p fd buf len, henv h1 (H_process p fd buf len)) # rest)
    \<and> (\<exists>q. m_plugins L1 path = Some q
         \<and> fst (m_dispatcher L2) = (if has_unregister (iface_mem L1 q) then fst (m_dispatcher L) else m1))"
proof -
  obtain so q h where L1: "path \<noteq> []" "m_plugins L1 = (m_plugins L)(path \<mapsto> q)" "plugin_so (iface_mem L1 q) = Some so"
    and reg: "pl_val (env h (P_register q (m_dispatcher L))) = 0"
      "m_dispatcher L1 = pl_disp (env h (P_register q (m_dispatcher L)))"
    by (rule load_plugin_success [OF assms(3)])
  obtain m h0 where d: "m_dispatcher L = (m, h0)" by fastforce
  have "(pl_val (env h (P_register q (m, h0))), pl_disp (env h (P_register q (m, h0)))) = register_proto henv m h0 pid (Some p)"
    using assms(1) by (simp add: handler_plugin_def)
  with reg assms(5) d have "register_proto henv m h0 pid (Some p) = (0, m1, h1)" by simp
  then have none: "m pid = None" and m1: "m1 = m(pid \<mapsto> Some p)"
    by (auto simp: register_proto_def invoke_def split: if_splits)
  have "m_dispatcher L2 = (if has_unregister (iface_mem L1 q) then snd (unregister_proto henv m1 h1 pid) else (m1, h1))"
    using unload_plugin_live(3) [OF assms(4) L1(1) _ L1(3)] L1(2) assms(1,5) by (auto simp: handler_plugin_def)
  moreover have "fst (snd (unregister_proto henv m1 h1 pid)) = m"
    using none by (auto simp: unregister_proto_def invoke_def m1)
  ultimately have "\<exists>q. m_plugins L1 path = Some q
      \<and> fst (m_dispatcher L2) = (if has_unregister (iface_mem L1 q) then m else m1)"
    using L1(2) by auto
  moreover have "handler_of m pid = None" "handler_of m1 pid = Some p"
    "\<forall>j. j \<noteq> pid \<longrightarrow> handler_of m1 j = handler_of m j"
    using none by (simp_all add: handler_of_def m1)
  ultimately show ?thesis
    using dispatch_reaches [of m1 pid p enum henv h1 fd buf len] unfolding d fst_conv by blast
qed

text \<open>The sample plugin, reporting what \<open>register_proto\<close> returns.\<close>

definition handler_linker :: plugin_env where
  "handler_linker h c =
     (case c of
        P_register q d \<Rightarrow>
          let (r, d') = register_proto ok_env (fst d) (snd d) 5 (Some 7) in (sample_linker 0 h c)\<lparr>pl_val := r, pl_disp := d'\<rparr>
      | _ \<Rightarrow> sample_linker 0 h c)"


lemma handler_linker_ok: "handler_plugin ok_env 5 7 handler_linker"
  by (auto simp: handler_plugin_def handler_linker_def sample_linker_def Let_def split: prod.split)

theorem plugin_handler_lifetime_witness:
  "let L1 = snd (load_plugin handler_linker sample_loader ''a.so''); d = m_dispatcher L1
   in fst (dispatch sorted_order ok_env (fst d) (snd d) 5 3 None 0) = 0"
proof -
  have "fst (load_plugin handler_linker sample_loader ''a.so'') = 0"
    by (simp add: load_plugin_def env_simps sample_loader_def plugin_loader_make_def handler_linker_def sample_linker_def
        Let_def register_proto_def invoke_def ok_env_def)
  then have load: "load_plugin handler_linker sample_loader ''a.so'' = (0, snd (load_plugin handler_linker sample_loader ''a.so''))"
    by (metis prod.collapse)
  have "table_ok (fst (m_dispatcher sample_loader))"
    by (simp add: sample_loader_def plugin_loader_make_def table_ok_def)
  from plugin_handler_lifetime [OF handler_linker_ok this load prod.collapse [symmetric] prod.collapse [symmetric]]
  show ?thesis unfolding Let_def by blast
qed

section \<open>Configuration values\<close>

text \<open>
  C38: An integer of 32 bits, written in decimal as the first value of a key in a file without
  inclusions, is what \<open>get\<close> returns for the key after \<open>load\<close>; its numeral is what \<open>get\<close> returns as a
  string, and a key the file does not mention gives the default.
\<close>

theorem conf_int_roundtrip:
  assumes "fs name = Content (render_conf items)" and "list_all item_ok items" and "list_all (\<lambda>i. \<not> is_include i) items"
    and "CHR 0x00 \<notin> set name" and "0 < fds"
    and "map_of (entries_of items) key = Some (dec_int v)" and "- (2 ^ 31) \<le> v" and "v < 2 ^ 31"
  shows "conf_get_int (snd (load_conf fds fs cfg (Some name) False)) key d = v
    \<and> conf_get_str (snd (load_conf fds fs cfg (Some name) False)) key e = Some (dec_int v)
    \<and> (\<forall>k. k \<notin> fst ` set (entries_of items) \<longrightarrow> conf_get_int (snd (load_conf fds fs cfg (Some name) False)) k d = d)"
proof -
  have "load_conf fds fs cfg (Some name) False = (True, \<lparr>m_config_hash = map_of (entries_of items), m_file_name = Some name\<rparr>)"
    by (simp add: load_conf_def parse_conf_plain [where fs = fs and name = name and items = items] assms(1-5))
  moreover have "c_str (dec_int v) = dec_int v"
    using c_str_digits [OF dec_string_digits] by (simp add: dec_int_def c_str_def)
  moreover have "map_of (entries_of items) k = None" if "k \<notin> fst ` set (entries_of items)" for k
    using that by (simp add: map_of_eq_None_iff)
  ultimately show ?thesis
    using assms(6) atoi_dec_int [OF assms(7,8)] by (simp add: conf_get_int_def conf_get_str_def)
qed

theorem conf_int_roundtrip_witness:
  "conf_get_int (snd (load_conf 1 (\<lambda>_. Content (render_conf [Entry [] ''port'' '' = '' ''-80''])) config_make (Some ''b'') False)) ''port'' 7 = - 80"
proof -
  have "dec_int (- 80) = ''-80''"
    by code_simp
  then show ?thesis
    using conf_int_roundtrip [of "\<lambda>_. Content (render_conf [Entry [] ''port'' '' = '' ''-80''])" "''b''"
        "[Entry [] ''port'' '' = '' ''-80'']" 1 "''port''" "- 80"] by (simp add: is_delim_def)
qed

end
